(* ===== verification/Prelude.thy ===== *)
theory Prelude
  imports Main "HOL-Library.Word"
begin

text \<open>
  Shared vocabulary of the development.  It names the machine types of the C code, writes out the
  two's complement wrap-around of \<open>int32_t\<close>, \<open>int64_t\<close> and \<open>uint32_t\<close>, fixes the representation of
  byte buffers (lists of 8-bit words), and collects the generic facts on lists, bits and
  big-endian numbers that several components use.

  Signed C integers are modelled by \<open>int\<close>, with the wrap-around of every store to an \<open>int32_t\<close> or
  \<open>int64_t\<close> written out by \<open>i32\<close> and \<open>i64\<close>; the theorems about the arithmetic code state the range
  in which no wrap happens, which is also the range in which C has no signed overflow.
  Unsigned lanes, lengths and bytes are words of their width.
\<close>

unbundle bit_operations_syntax

subsection \<open>Machine types\<close>

type_synonym byte = "8 word"
type_synonym u32 = "32 word"
type_synonym u64 = "64 word"

text \<open>
  The devices the application is built for are 32-bit ARM secure elements, so \<open>size_t\<close> has 32
  bits there.
\<close>

type_synonym size_t = "32 word"

named_theorems codec_simps \<open>equations that push a decoder through an encoder\<close>
named_theorems range_intros \<open>bounds on the results of the arithmetic routines\<close>
named_theorems wf_intros \<open>well-formedness of results: lengths of the fixed-size arrays\<close>

subsection \<open>Wrap-around of the signed and unsigned C integers\<close>

definition i32 :: "int \<Rightarrow> int" where
  "i32 x = signed_take_bit 31 x"

definition i64 :: "int \<Rightarrow> int" where
  "i64 x = signed_take_bit 63 x"

definition uw32 :: "int \<Rightarrow> int" where
  "uw32 x = take_bit 32 x"

text \<open>\<open>x >> n\<close> on a signed integer is the arithmetic shift.\<close>

definition asr :: "int \<Rightarrow> nat \<Rightarrow> int" where
  "asr x n = drop_bit n x"

lemma i32_id [simp]: "- 2147483648 \<le> x \<Longrightarrow> x < 2147483648 \<Longrightarrow> i32 x = x"
  unfolding i32_def by (rule signed_take_bit_int_eq_self) simp_all

lemma i64_id [simp]: "- 9223372036854775808 \<le> x \<Longrightarrow> x < 9223372036854775808 \<Longrightarrow> i64 x = x"
  unfolding i64_def by (rule signed_take_bit_int_eq_self) simp_all

lemma i32_range: "- 2147483648 \<le> i32 x" "i32 x < 2147483648"
  using signed_take_bit_int_greater_eq_minus_exp [of 31 x] signed_take_bit_int_less_exp [of 31 x]
  by (simp_all add: i32_def)

lemma i32_cong: "i32 x mod 4294967296 = x mod 4294967296"
proof -
  have "take_bit 32 (signed_take_bit 31 x) = take_bit 32 x"
    by (simp add: take_bit_signed_take_bit)
  then show ?thesis by (simp add: i32_def take_bit_eq_mod)
qed

lemma uw32_id [simp]: "0 \<le> x \<Longrightarrow> x < 4294967296 \<Longrightarrow> uw32 x = x"
  by (simp add: uw32_def take_bit_int_eq_self)

lemma asr_div: "asr x n = x div 2 ^ n"
  by (simp add: asr_def drop_bit_eq_div)

text \<open>The sign mask \<open>x >> 31\<close> of an \<open>int32_t\<close>, and its use as a selector.\<close>

lemma asr_31:
  assumes "- 2147483648 \<le> x" "x < 2147483648"
  shows "asr x 31 = (if x < 0 then - 1 else 0)"
  using assms by (auto simp: asr_div)

text \<open>The sign bit of an \<open>int32_t\<close>, read by an unsigned shift.\<close>

definition sign_bit :: "int \<Rightarrow> int" where
  "sign_bit x = drop_bit 31 (uw32 x)"

lemma sign_bit_eq:
  assumes "- 2147483648 \<le> x" "x < 2147483648"
  shows "sign_bit x = (if x < 0 then 1 else 0)"
proof -
  have "x mod 4294967296 = (if x < 0 then x + 4294967296 else x)"
    using assms by (auto simp: mod_pos_pos_trivial) (smt (verit) mod_add_self2 mod_pos_pos_trivial)
  then show ?thesis
    using assms by (auto simp: sign_bit_def uw32_def take_bit_eq_mod drop_bit_eq_div)
qed

lemma or_uminus_neg_iff: "x OR - x < 0 \<longleftrightarrow> x \<noteq> (0::int)"
  by (simp add: or_negative_int_iff) linarith

lemma or_uminus_range:
  assumes "- 2147483648 < x" "x < 2147483648"
  shows "- 2147483648 \<le> x OR - x" "x OR - x < (2147483648::int)"
proof -
  have "- \<bar>x\<bar> \<le> x OR - x"
    using or_greater_eq [of x "- x"] or_greater_eq [of "- x" x]
    by (cases "0 \<le> x") (simp_all add: or.commute)
  moreover have "x OR - x \<le> 0"
    using or_uminus_neg_iff [of x] by (cases "x = 0") (simp_all add: less_imp_le)
  ultimately show "- 2147483648 \<le> x OR - x" "x OR - x < 2147483648"
    using assms by linarith+
qed

subsection \<open>Big-endian numbers\<close>

definition be_nat :: "byte list \<Rightarrow> nat" where
  "be_nat bs = foldl (\<lambda>n b. n * 256 + unat b) 0 bs"

lemma be_nat_Nil [simp]: "be_nat [] = 0"
  by (simp add: be_nat_def)

lemma be_nat_snoc [simp]: "be_nat (bs @ [b]) = be_nat bs * 256 + unat b"
  by (simp add: be_nat_def)

lemma be_nat_append: "be_nat (xs @ ys) = be_nat xs * 256 ^ length ys + be_nat ys"
  by (induction ys rule: rev_induct) (simp_all add: append_assoc [symmetric] algebra_simps del: append_assoc)

lemma be_nat_Cons: "be_nat (b # bs) = unat b * 256 ^ length bs + be_nat bs"
  using be_nat_append [of "[b]" bs] be_nat_snoc [of "[]" b] by simp

lemma unat_byte_less: "unat (b :: byte) < 256"
  using unsigned_less [of b] by simp

lemma be_nat_less: "be_nat bs < 256 ^ length bs"
proof (induction bs rule: rev_induct)
  case (snoc b bs)
  have "be_nat bs * 256 + unat b < (be_nat bs + 1) * 256"
    using unat_byte_less [of b] by simp
  also have "\<dots> \<le> 256 ^ length bs * 256"
    using snoc by (intro mult_le_mono1) simp
  finally show ?case by simp
qed simp

subsection \<open>Slices\<close>

text \<open>\<open>chunk i n xs\<close> is the \<open>n\<close> bytes that start at index \<open>i\<close>.\<close>

definition chunk :: "nat \<Rightarrow> nat \<Rightarrow> 'a list \<Rightarrow> 'a list" where
  "chunk i n xs = take n (drop i xs)"

lemma length_chunk [simp]: "length (chunk i n xs) = min n (length xs - i)"
  by (simp add: chunk_def min.commute)

lemma nth_chunk [simp]: "j < n \<Longrightarrow> i + j < length xs \<Longrightarrow> chunk i n xs ! j = xs ! (i + j)"
  by (simp add: chunk_def)

lemma chunk_map_nth: "i + n \<le> length xs \<Longrightarrow> chunk i n xs = map (\<lambda>j. xs ! (i + j)) [0..<n]"
  by (rule nth_equalityI) simp_all

lemma concat_chunks:
  "concat (map (\<lambda>k. chunk (k * n) n xs) [0..<m]) = take (m * n) xs"
proof (induction m)
  case (Suc m)
  have "take (Suc m * n) xs = take (m * n) xs @ take n (drop (m * n) xs)"
    by (metis add.commute mult_Suc take_add)
  with Suc show ?case by (simp add: chunk_def)
qed simp

subsection \<open>Writing to a buffer\<close>

text \<open>A write (\<open>memcpy\<close>, \<open>nvm_write\<close>) of \<open>new\<close> at offset \<open>off\<close> of an array.\<close>

definition write_at :: "nat \<Rightarrow> 'a list \<Rightarrow> 'a list \<Rightarrow> 'a list" where
  "write_at off new old = take off old @ new @ drop (off + length new) old"

lemma length_write_at [simp]: "off + length new \<le> length old \<Longrightarrow> length (write_at off new old) = length old"
  by (simp add: write_at_def)

lemma write_at_append: "length xs = off \<Longrightarrow> length ys = length new \<Longrightarrow> write_at off new (xs @ ys @ zs) = xs @ new @ zs"
  by (simp add: write_at_def)

text \<open>Writes one after the other from the start of a buffer.\<close>

lemma write_then_write: "length xs + length ys \<le> length buf \<Longrightarrow> write_at (length xs) ys (write_at 0 xs buf) = write_at 0 (xs @ ys) buf"
  by (simp add: write_at_def drop_drop add.commute)

lemma write_then_update: "length xs < length buf \<Longrightarrow> (write_at 0 xs buf)[length xs := c] = write_at 0 (xs @ [c]) buf"
  by (simp add: write_at_def list_update_append Cons_nth_drop_Suc [symmetric])

lemma write_at_prefix: "write_at 0 xs buf = xs @ drop (length xs) buf"
  by (simp add: write_at_def)

subsection \<open>Blocks\<close>

lemma nth_concat_map_const:
  assumes "\<And>i. i < m \<Longrightarrow> length (f i) = n" "k < m * n"
  shows "concat (map f [0..<m]) ! k = f (k div n) ! (k mod n)"
  using assms
proof (induction m)
  case (Suc m)
  have len: "length (concat (map f [0..<m])) = m * n"
  proof -
    have "length (concat (map f [0..<j])) = j * n" if "j \<le> m" for j
      using that Suc.prems(1) by (induction j) simp_all
    then show ?thesis by simp
  qed
  show ?case
  proof (cases "k < m * n")
    case True
    with Suc len show ?thesis by (simp add: nth_append)
  next
    case False
    then obtain r where r: "k = m * n + r" using le_Suc_ex not_less by blast
    with Suc.prems(2) have "r < n" by simp
    with r have "k div n = m" "k mod n = r" by simp_all
    with False r len show ?thesis by (simp add: nth_append)
  qed
qed simp

lemma length_concat_map_const:
  assumes "\<And>i. i < m \<Longrightarrow> length (f i) = n"
  shows "length (concat (map f [0..<m])) = m * n"
  using assms by (induction m) simp_all

lemma chunk_concat_map:
  assumes "\<And>i. i < m \<Longrightarrow> length (f i) = n" "k < m"
  shows "chunk (k * n) n (concat (map f [0..<m])) = f k"
proof (rule nth_equalityI)
  have len: "length (concat (map f [0..<m])) = m * n" using assms(1) by (rule length_concat_map_const)
  have le: "k * n + n \<le> m * n"
    using assms(2) mult_le_mono1 [of "k + 1" m n] by simp
  then show "length (chunk (k * n) n (concat (map f [0..<m]))) = length (f k)"
    using assms len by simp
  fix j assume "j < length (chunk (k * n) n (concat (map f [0..<m])))"
  then have j: "j < n" by simp
  then have "(k * n + j) div n = k" "(k * n + j) mod n = j" by simp_all
  then show "chunk (k * n) n (concat (map f [0..<m])) ! j = f k ! j"
    using j le len nth_concat_map_const [of m f n "k * n + j"] assms(1) by simp
qed

subsection \<open>Block codecs\<close>

text \<open>
  The packing routines all run a loop over groups of \<open>g\<close> coefficients, each stored in \<open>h\<close> bytes.  What
  makes such a routine a codec is a law about one group; the law for whole arrays follows.
\<close>

definition encode_blocks :: "nat \<Rightarrow> nat \<Rightarrow> ('a list \<Rightarrow> 'b list) \<Rightarrow> 'a list \<Rightarrow> 'b list" where
  "encode_blocks n g f a = concat (map (\<lambda>i. f (chunk (i * g) g a)) [0..<n])"

lemma length_encode_blocks: "(\<And>c. length (f c) = h) \<Longrightarrow> length (encode_blocks n g f a) = n * h"
  unfolding encode_blocks_def by (rule length_concat_map_const)

locale block_codec =
  fixes pk :: "'a list \<Rightarrow> 'b list" and up :: "'b list \<Rightarrow> 'a list"
    and P :: "'a \<Rightarrow> bool" and g h :: nat
  assumes pk_length: "length c = g \<Longrightarrow> list_all P c \<Longrightarrow> length (pk c) = h"
    and up_length: "length b = h \<Longrightarrow> length (up b) = g"
    and up_range: "length b = h \<Longrightarrow> list_all P (up b)"
    and up_pk: "length c = g \<Longrightarrow> list_all P c \<Longrightarrow> up (pk c) = c"
    and pk_up: "length b = h \<Longrightarrow> pk (up b) = b"
begin

lemma chunk_range: "list_all P a \<Longrightarrow> list_all P (chunk i n a)"
  by (auto simp: list_all_iff chunk_def dest!: in_set_takeD in_set_dropD)

lemma chunk_full: "length a = n * g \<Longrightarrow> i < n \<Longrightarrow> length (chunk (i * g) g a) = g"
  using mult_le_mono1 [of "i + 1" n g] by simp

lemma chunk_full_bytes: "length b = n * h \<Longrightarrow> i < n \<Longrightarrow> length (chunk (i * h) h b) = h"
  using mult_le_mono1 [of "i + 1" n h] by simp

lemma encode_length:
  assumes "length a = n * g" "list_all P a"
  shows "length (encode_blocks n g pk a) = n * h"
  unfolding encode_blocks_def
  by (rule length_concat_map_const) (rule pk_length [OF chunk_full [OF assms(1)] chunk_range [OF assms(2)]])

lemma decode_encode:
  assumes "length a = n * g" "list_all P a"
  shows "encode_blocks n h up (encode_blocks n g pk a) = a"
proof -
  have "up (chunk (i * h) h (encode_blocks n g pk a)) = chunk (i * g) g a" if "i < n" for i
  proof -
    have "chunk (i * h) h (encode_blocks n g pk a) = pk (chunk (i * g) g a)"
      unfolding encode_blocks_def
      by (rule chunk_concat_map [OF _ that]) (rule pk_length [OF chunk_full [OF assms(1)] chunk_range [OF assms(2)]])
    then show ?thesis by (simp only: up_pk [OF chunk_full [OF assms(1) that] chunk_range [OF assms(2)]])
  qed
  then have "encode_blocks n h up (encode_blocks n g pk a) = concat (map (\<lambda>i. chunk (i * g) g a) [0..<n])"
    unfolding encode_blocks_def [of n h] by (intro arg_cong [where f = concat] map_cong refl) simp
  then show ?thesis using assms(1) by (simp add: concat_chunks)
qed

lemma decode_length:
  assumes "length b = n * h"
  shows "length (encode_blocks n h up b) = n * g"
  unfolding encode_blocks_def
  by (rule length_concat_map_const) (rule up_length [OF chunk_full_bytes [OF assms]])

lemma decode_range:
  assumes "length b = n * h"
  shows "list_all P (encode_blocks n h up b)"
  unfolding encode_blocks_def
  using up_range [OF chunk_full_bytes [OF assms]] by (auto simp: list_all_iff)

lemma encode_decode:
  assumes "length b = n * h"
  shows "encode_blocks n g pk (encode_blocks n h up b) = b"
proof -
  have "pk (chunk (i * g) g (encode_blocks n h up b)) = chunk (i * h) h b" if "i < n" for i
  proof -
    have "chunk (i * g) g (encode_blocks n h up b) = up (chunk (i * h) h b)"
      unfolding encode_blocks_def
      by (rule chunk_concat_map [OF _ that]) (rule up_length [OF chunk_full_bytes [OF assms]])
    then show ?thesis by (simp only: pk_up [OF chunk_full_bytes [OF assms that]])
  qed
  then have "encode_blocks n g pk (encode_blocks n h up b) = concat (map (\<lambda>i. chunk (i * h) h b) [0..<n])"
    unfolding encode_blocks_def [of n g] by (intro arg_cong [where f = concat] map_cong refl) simp
  then show ?thesis using assms by (simp add: concat_chunks)
qed

end

end
