(* ===== verification/Keccak.thy ===== *)
theory Keccak
  imports Prelude
begin

text \<open>
  The hash component: the permutation of \<open>keccakf.c\<close> and the three sponges \<open>shake128.c\<close>,
  \<open>shake256.c\<close> and \<open>keccak256.c\<close> built on it.  The three contexts are one record; each sponge is its
  own group of operations, and the locale \<open>sponge\<close> states once what they share.  Its lemmas show
  that absorbing is incremental, that squeezing continues a stream, that the position never
  leaves the rate (so no access to \<open>s[25]\<close> is out of range), and that a whole
  init/absorb/finalize/squeeze run computes the block-wise sponge function of FIPS 202.
\<close>

subsection \<open>keccakf.c\<close>

definition rol64 :: "u64 \<Rightarrow> nat \<Rightarrow> u64" where
  "rol64 x n = push_bit n x OR drop_bit (nat ((64 - int n) mod 64)) x"

definition RC :: "u64 list" where
  "RC =
    [0x0000000000000001, 0x0000000000008082, 0x800000000000808A, 0x8000000080008000,
     0x000000000000808B, 0x0000000080000001, 0x8000000080008081, 0x8000000000008009,
     0x000000000000008A, 0x0000000000000088, 0x0000000080008009, 0x000000008000000A,
     0x000000008000808B, 0x800000000000008B, 0x8000000000008089, 0x8000000000008003,
     0x8000000000008002, 0x8000000000000080, 0x000000000000800A, 0x800000008000000A,
     0x8000000080008081, 0x8000000000008080, 0x0000000080000001, 0x8000000080008008]"

definition rot_offsets :: "nat list" where
  "rot_offsets =
    [0, 1, 62, 28, 27, 36, 44, 6, 55, 20, 3, 10, 43,
     25, 39, 41, 45, 15, 21, 8, 18, 2, 61, 56, 14]"

text \<open>
  The five inner loops of one round, in order.  The array \<open>B\<close> is not initialised in the code; its
  loop writes all 25 entries (\<open>round_B_nth\<close> below), so the starting value does not matter.
\<close>

definition round_C :: "u64 list \<Rightarrow> u64 list" where
  "round_C s = map (\<lambda>x. s ! x XOR s ! (x + 5) XOR s ! (x + 10) XOR s ! (x + 15) XOR s ! (x + 20)) [0..<5]"

definition round_D :: "u64 list \<Rightarrow> u64 list" where
  "round_D C = map (\<lambda>x. C ! ((x + 4) mod 5) XOR rol64 (C ! ((x + 1) mod 5)) 1) [0..<5]"

definition round_theta :: "u64 list \<Rightarrow> u64 list" where
  "round_theta s = (let D = round_D (round_C s) in map (\<lambda>i. s ! i XOR D ! (i mod 5)) [0..<25])"

definition round_B :: "u64 list \<Rightarrow> u64 list" where
  "round_B s =
     fold (\<lambda>i B. let x = i mod 5; y = i div 5
                 in B[y + 5 * ((2 * x + 3 * y) mod 5) := rol64 (s ! i) (rot_offsets ! i)])
       [0..<25] (replicate 25 0)"

definition round_chi :: "u64 list \<Rightarrow> u64 list" where
  "round_chi B =
     map (\<lambda>i. B ! i XOR (NOT (B ! ((i + 1) mod 5 + 5 * (i div 5))) AND B ! ((i + 2) mod 5 + 5 * (i div 5))))
       [0..<25]"

definition keccak_round :: "nat \<Rightarrow> u64 list \<Rightarrow> u64 list" where
  "keccak_round rnd s =
     (let s' = round_chi (round_B (round_theta s)) in s'[0 := s' ! 0 XOR RC ! rnd])"

definition keccakf :: "u64 list \<Rightarrow> u64 list" where
  "keccakf s = fold keccak_round [0..<24] s"

subsection \<open>The sponge contexts\<close>

record keccak_ctx =
  ctx_s :: "u64 list"
  ctx_pos :: nat
  ctx_squeezing :: int

definition ctx_zero :: keccak_ctx where
  "ctx_zero = \<lparr>ctx_s = replicate 25 0, ctx_pos = 0, ctx_squeezing = 0\<rparr>"

text \<open>\<open>s[i / 8] ^= (uint64_t) b << (8 * (i % 8))\<close>\<close>

definition xor_at :: "nat \<Rightarrow> byte \<Rightarrow> u64 list \<Rightarrow> u64 list" where
  "xor_at i b s = s[i div 8 := s ! (i div 8) XOR push_bit (8 * (i mod 8)) (ucast b)]"

definition absorb_byte :: "nat \<Rightarrow> byte \<Rightarrow> keccak_ctx \<Rightarrow> keccak_ctx" where
  "absorb_byte rate b ctx =
     (let i = ctx_pos ctx; s' = xor_at i b (ctx_s ctx)
      in if i + 1 = rate then ctx\<lparr>ctx_s := keccakf s', ctx_pos := 0\<rparr>
         else ctx\<lparr>ctx_s := s', ctx_pos := i + 1\<rparr>)"

definition finalize_ctx :: "nat \<Rightarrow> byte \<Rightarrow> keccak_ctx \<Rightarrow> keccak_ctx" where
  "finalize_ctx rate sfx ctx =
     ctx\<lparr>ctx_s := keccakf (xor_at (rate - 1) 0x80 (xor_at (ctx_pos ctx) sfx (ctx_s ctx))),
         ctx_pos := 0, ctx_squeezing := 1\<rparr>"

definition squeeze_byte :: "nat \<Rightarrow> keccak_ctx \<Rightarrow> byte \<times> keccak_ctx" where
  "squeeze_byte rate ctx =
     (let i = ctx_pos ctx;
          b = ucast (drop_bit (8 * (i mod 8)) (ctx_s ctx ! (i div 8)) AND 0xFF)
      in (b, if i + 1 = rate then ctx\<lparr>ctx_s := keccakf (ctx_s ctx), ctx_pos := 0\<rparr>
             else ctx\<lparr>ctx_pos := i + 1\<rparr>))"

fun squeeze_bytes :: "nat \<Rightarrow> nat \<Rightarrow> keccak_ctx \<Rightarrow> byte list \<times> keccak_ctx" where
  "squeeze_bytes rate 0 ctx = ([], ctx)"
| "squeeze_bytes rate (Suc n) ctx =
     (let (b, ctx1) = squeeze_byte rate ctx; (bs, ctx2) = squeeze_bytes rate n ctx1
      in (b # bs, ctx2))"

subsubsection \<open>shake128.c\<close>

definition shake128_init :: keccak_ctx where
  "shake128_init = ctx_zero"

fun shake128_absorb :: "keccak_ctx \<Rightarrow> byte list \<Rightarrow> keccak_ctx" where
  "shake128_absorb ctx [] = ctx"
| "shake128_absorb ctx (b # bs) = shake128_absorb (absorb_byte 168 b ctx) bs"

definition shake128_finalize :: "keccak_ctx \<Rightarrow> keccak_ctx" where
  "shake128_finalize ctx = finalize_ctx 168 0x1F ctx"

definition shake128_squeeze :: "keccak_ctx \<Rightarrow> nat \<Rightarrow> byte list \<times> keccak_ctx" where
  "shake128_squeeze ctx n =
     squeeze_bytes 168 n (if ctx_squeezing ctx = 0 then shake128_finalize ctx else ctx)"

definition shake128_clear :: "keccak_ctx \<Rightarrow> keccak_ctx" where
  "shake128_clear ctx = ctx_zero"

subsubsection \<open>shake256.c\<close>

definition shake256_init :: keccak_ctx where
  "shake256_init = ctx_zero"

fun shake256_absorb :: "keccak_ctx \<Rightarrow> byte list \<Rightarrow> keccak_ctx" where
  "shake256_absorb ctx [] = ctx"
| "shake256_absorb ctx (b # bs) = shake256_absorb (absorb_byte 136 b ctx) bs"

definition shake256_finalize :: "keccak_ctx \<Rightarrow> keccak_ctx" where
  "shake256_finalize ctx = finalize_ctx 136 0x1F ctx"

definition shake256_squeeze :: "keccak_ctx \<Rightarrow> nat \<Rightarrow> byte list \<times> keccak_ctx" where
  "shake256_squeeze ctx n =
     squeeze_bytes 136 n (if ctx_squeezing ctx = 0 then shake256_finalize ctx else ctx)"

definition shake256_clear :: "keccak_ctx \<Rightarrow> keccak_ctx" where
  "shake256_clear ctx = ctx_zero"

subsubsection \<open>keccak256.c\<close>

definition keccak256_init :: keccak_ctx where
  "keccak256_init = ctx_zero"

fun keccak256_absorb :: "keccak_ctx \<Rightarrow> byte list \<Rightarrow> keccak_ctx" where
  "keccak256_absorb ctx [] = ctx"
| "keccak256_absorb ctx (b # bs) = keccak256_absorb (absorb_byte 136 b ctx) bs"

definition keccak256_finalize :: "keccak_ctx \<Rightarrow> keccak_ctx" where
  "keccak256_finalize ctx = finalize_ctx 136 0x01 ctx"

text \<open>The output length of this sponge is the constant 32.\<close>

definition keccak256_squeeze :: "keccak_ctx \<Rightarrow> byte list \<times> keccak_ctx" where
  "keccak256_squeeze ctx =
     squeeze_bytes 136 32 (if ctx_squeezing ctx = 0 then keccak256_finalize ctx else ctx)"

definition keccak256_clear :: "keccak_ctx \<Rightarrow> keccak_ctx" where
  "keccak256_clear ctx = ctx_zero"

subsection \<open>Lengths\<close>

lemma length_round_theta [simp]: "length (round_theta s) = 25"
  by (simp add: round_theta_def Let_def)

lemma length_round_chi [simp]: "length (round_chi s) = 25"
  by (simp add: round_chi_def)

lemma length_keccak_round [simp]: "length (keccak_round r s) = 25"
  by (simp add: keccak_round_def Let_def)

lemma length_fold_keccak_round:
  "rs \<noteq> [] \<Longrightarrow> length (fold keccak_round rs s) = 25"
  by (induction rs rule: rev_induct) simp_all

lemma length_keccakf [simp, wf_intros]: "length (keccakf s) = 25"
  by (simp add: keccakf_def length_fold_keccak_round)

lemma length_xor_at [simp]: "length (xor_at i b s) = length s"
  by (simp add: xor_at_def)

subsection \<open>The context invariant\<close>

definition ctx_ok :: "nat \<Rightarrow> keccak_ctx \<Rightarrow> bool" where
  "ctx_ok rate ctx \<longleftrightarrow> length (ctx_s ctx) = 25 \<and> ctx_pos ctx < rate"

lemma ctx_ok_zero: "0 < rate \<Longrightarrow> ctx_ok rate ctx_zero"
  by (simp add: ctx_ok_def ctx_zero_def)

lemma ctx_ok_absorb_byte: "ctx_ok rate ctx \<Longrightarrow> ctx_ok rate (absorb_byte rate b ctx)"
  by (auto simp: ctx_ok_def absorb_byte_def Let_def)

lemma ctx_ok_finalize: "0 < rate \<Longrightarrow> ctx_ok rate (finalize_ctx rate sfx ctx)"
  by (simp add: ctx_ok_def finalize_ctx_def)

lemma ctx_ok_squeeze_byte: "ctx_ok rate ctx \<Longrightarrow> ctx_ok rate (snd (squeeze_byte rate ctx))"
  by (auto simp: ctx_ok_def squeeze_byte_def Let_def)

lemma ctx_ok_squeeze_bytes: "ctx_ok rate ctx \<Longrightarrow> ctx_ok rate (snd (squeeze_bytes rate n ctx))"
proof (induction n arbitrary: ctx)
  case (Suc n)
  then show ?case
    using ctx_ok_squeeze_byte [OF Suc.prems] by (simp add: Let_def split_beta)
qed simp

lemma length_squeeze_bytes [simp]: "length (fst (squeeze_bytes rate n ctx)) = n"
  by (induction n arbitrary: ctx) (simp_all add: Let_def split_beta)

lemma squeezing_squeeze_byte [simp]: "ctx_squeezing (snd (squeeze_byte rate ctx)) = ctx_squeezing ctx"
  by (simp add: squeeze_byte_def Let_def)

lemma squeezing_squeeze_bytes [simp]:
  "ctx_squeezing (snd (squeeze_bytes rate n ctx)) = ctx_squeezing ctx"
  by (induction n arbitrary: ctx) (simp_all add: Let_def split_beta)

lemma squeeze_bytes_add:
  "squeeze_bytes rate (m + n) ctx =
     (fst (squeeze_bytes rate m ctx) @ fst (squeeze_bytes rate n (snd (squeeze_bytes rate m ctx))),
      snd (squeeze_bytes rate n (snd (squeeze_bytes rate m ctx))))"
  by (induction m arbitrary: ctx) (simp_all add: Let_def split_beta)

subsection \<open>The sponge function, block by block\<close>

text \<open>
  The specification is the sponge construction of FIPS 202 with byte-aligned messages: pad the last
  block with the domain suffix and the final bit, XOR each block of \<open>rate\<close> bytes into the state
  and permute, then read \<open>rate\<close> bytes of output per permutation.
\<close>

fun le64 :: "byte list \<Rightarrow> u64" where
  "le64 [] = 0"
| "le64 (b # bs) = ucast b XOR push_bit 8 (le64 bs)"

definition xor_block :: "u64 list \<Rightarrow> byte list \<Rightarrow> u64 list" where
  "xor_block st P = map (\<lambda>j. st ! j XOR le64 (chunk (8 * j) 8 P)) [0..<25]"

definition pad_block :: "nat \<Rightarrow> byte \<Rightarrow> byte list \<Rightarrow> byte list" where
  "pad_block rate sfx m =
     (let p = m @ [sfx] @ replicate (rate - length m - 1) 0
      in p[rate - 1 := p ! (rate - 1) XOR 0x80])"

function spec_absorb :: "nat \<Rightarrow> byte \<Rightarrow> u64 list \<Rightarrow> byte list \<Rightarrow> u64 list" where
  "spec_absorb rate sfx st m =
     (if rate = 0 \<or> length m < rate then keccakf (xor_block st (pad_block rate sfx m))
      else spec_absorb rate sfx (keccakf (xor_block st (take rate m))) (drop rate m))"
  by pat_completeness auto
termination by (relation "measure (\<lambda>(rate, sfx, st, m). length m)") auto

definition lane_bytes :: "u64 \<Rightarrow> byte list" where
  "lane_bytes w = map (\<lambda>k. ucast (drop_bit (8 * k) w)) [0..<8]"

definition state_bytes :: "u64 list \<Rightarrow> byte list" where
  "state_bytes st = concat (map (\<lambda>j. lane_bytes (st ! j)) [0..<25])"

function spec_squeeze :: "nat \<Rightarrow> u64 list \<Rightarrow> nat \<Rightarrow> byte list" where
  "spec_squeeze rate st n =
     (if rate = 0 \<or> n < rate then take n (state_bytes st)
      else take rate (state_bytes st) @ spec_squeeze rate (keccakf st) (n - rate))"
  by pat_completeness auto
termination by (relation "measure (\<lambda>(rate, st, n). n)") auto

definition spec_sponge :: "nat \<Rightarrow> byte \<Rightarrow> byte list \<Rightarrow> nat \<Rightarrow> byte list" where
  "spec_sponge rate sfx m n = spec_squeeze rate (spec_absorb rate sfx (replicate 25 0) m) n"

declare spec_absorb.simps [simp del] spec_squeeze.simps [simp del]

subsubsection \<open>XORing a run of bytes is XORing a block\<close>

definition xor_run :: "nat \<Rightarrow> byte list \<Rightarrow> u64 list \<Rightarrow> u64 list" where
  "xor_run i bs st = fold (\<lambda>k. xor_at (i + k) (bs ! k)) [0..<length bs] st"

lemma xor_run_Nil [simp]: "xor_run i [] st = st"
  by (simp add: xor_run_def)

lemma xor_run_snoc: "xor_run i (bs @ [b]) st = xor_at (i + length bs) b (xor_run i bs st)"
proof -
  have "fold (\<lambda>k. xor_at (i + k) ((bs @ [b]) ! k)) [0..<length bs] st
      = fold (\<lambda>k. xor_at (i + k) (bs ! k)) [0..<length bs] st"
    by (rule fold_cong) (simp_all add: nth_append)
  then show ?thesis by (simp add: xor_run_def)
qed

lemma length_xor_run [simp]: "length (xor_run i bs st) = length st"
  by (induction bs rule: rev_induct) (simp_all add: xor_run_snoc)

lemma xor_run_append: "xor_run i (xs @ ys) st = xor_run (i + length xs) ys (xor_run i xs st)"
  by (induction ys rule: rev_induct)
     (simp_all add: xor_run_snoc append_assoc [symmetric] add.assoc del: append_assoc)

lemma le64_snoc: "le64 (bs @ [b]) = le64 bs XOR push_bit (8 * length bs) (ucast b)"
  by (induction bs) (simp_all add: push_bit_xor xor.assoc add.commute)

lemma nth_xor_run:
  assumes "length st = 25" "j < 25"
  shows "xor_run 0 P st ! j = st ! j XOR le64 (chunk (8 * j) 8 P)"
proof (induction P rule: rev_induct)
  case Nil
  show ?case by (simp add: chunk_def)
next
  case (snoc b P)
  let ?l = "length P"
  show ?case
  proof (cases "?l div 8 = j")
    case True
    then have l: "8 * j \<le> ?l" "?l < 8 * j + 8" by auto
    then have "chunk (8 * j) 8 (P @ [b]) = chunk (8 * j) 8 P @ [b]"
      by (simp add: chunk_def)
    moreover have "length (chunk (8 * j) 8 P) = ?l mod 8"
      using l True by (auto simp: minus_mult_div_eq_mod [symmetric])
    ultimately show ?thesis
      using True snoc assms by (simp add: xor_run_snoc xor_at_def le64_snoc xor.assoc)
  next
    case False
    then consider "?l < 8 * j" | "8 * j + 8 \<le> ?l" by linarith
    then have "chunk (8 * j) 8 (P @ [b]) = chunk (8 * j) 8 P"
      by cases (simp_all add: chunk_def)
    with False snoc show ?thesis by (simp add: xor_run_snoc xor_at_def)
  qed
qed

lemma xor_run_block: "length st = 25 \<Longrightarrow> xor_run 0 P st = xor_block st P"
  by (rule nth_equalityI) (simp_all add: xor_block_def nth_xor_run)

lemma xor_at_xor_at:
  "i div 8 < length st \<Longrightarrow> xor_at i a (xor_at i b st) = xor_at i (a XOR b) st"
  by (simp add: xor_at_def unsigned_xor_eq push_bit_xor xor.assoc xor.left_commute xor.commute)

lemma xor_at_commute: "xor_at i a (xor_at j b st) = xor_at j b (xor_at i a st)"
proof (cases "i div 8 = j div 8 \<and> length st \<le> j div 8")
  case True
  then show ?thesis by (simp add: xor_at_def list_update_beyond)
next
  case False
  then show ?thesis
    by (cases "i div 8 = j div 8")
       (auto simp: xor_at_def nth_list_update list_update_swap xor.assoc xor.left_commute xor.commute)
qed

lemma xor_at_0 [simp]: "xor_at i 0 st = st"
  by (simp add: xor_at_def)

lemma xor_run_zeros: "xor_run i (replicate n 0) st = st"
  by (induction n) (simp_all add: replicate_append_same [symmetric] xor_run_snoc
        del: replicate_Suc replicate_append_same flip: replicate_append_same add: replicate_Suc)

subsubsection \<open>Padding\<close>

lemma pad_block_short:
  assumes "length m + 1 < rate"
  shows "pad_block rate sfx m = m @ [sfx] @ replicate (rate - length m - 2) 0 @ [0x80]"
proof -
  define k where "k = rate - length m - 2"
  with assms have r: "rate = length m + k + 2" by simp
  show ?thesis
    by (simp add: pad_block_def Let_def r nth_append list_update_append replicate_append_same [symmetric]
          flip: replicate_append_same)
qed

lemma pad_block_full:
  assumes "length m + 1 = rate"
  shows "pad_block rate sfx m = m @ [sfx XOR 0x80]"
  using assms [symmetric] by (simp add: pad_block_def Let_def list_update_append)

lemma length_pad_block: "length m < rate \<Longrightarrow> length (pad_block rate sfx m) = rate"
  by (simp add: pad_block_def Let_def)

lemma xor_pad_block:
  assumes "length st = 25" "length m < rate" "rate \<le> 200"
  shows "xor_at (rate - 1) 0x80 (xor_at (length m) sfx (xor_run 0 m st)) = xor_block st (pad_block rate sfx m)"
proof -
  have "xor_run 0 (pad_block rate sfx m) st
      = xor_at (rate - 1) 0x80 (xor_at (length m) sfx (xor_run 0 m st))"
  proof (cases "length m + 1 = rate")
    case True
    then show ?thesis
      using assms by (simp add: pad_block_full xor_run_snoc xor_at_xor_at [symmetric]
            xor_at_commute [of "length m" sfx] flip: True)
  next
    case False
    with assms have short: "length m + 1 < rate" by simp
    then have "pad_block rate sfx m = ((m @ [sfx]) @ replicate (rate - length m - 2) 0) @ [0x80]"
      by (simp add: pad_block_short)
    moreover have "Suc (rate - 2) = rate - Suc 0" using short by simp
    ultimately show ?thesis using short
      by (simp only: xor_run_snoc xor_run_append [of _ _ "replicate _ 0"] xor_run_zeros) simp
  qed
  with assms show ?thesis by (simp add: xor_run_block)
qed

subsubsection \<open>Output bytes\<close>

lemma length_lane_bytes [simp]: "length (lane_bytes w) = 8"
  by (simp add: lane_bytes_def)

lemma length_state_bytes [simp]: "length (state_bytes st) = 200"
  by (simp add: state_bytes_def length_concat_map_const [where n = 8])

lemma nth_state_bytes:
  "i < 200 \<Longrightarrow> state_bytes st ! i = ucast (drop_bit (8 * (i mod 8)) (st ! (i div 8)))"
  by (simp add: state_bytes_def nth_concat_map_const [where n = 8] lane_bytes_def)

lemma ucast_and_FF: "ucast (w AND 0xFF) = (ucast w :: byte)" for w :: u64
proof -
  have "(0xFF :: u64) = mask 8" by (simp add: mask_eq_exp_minus_1)
  then have "ucast (w AND 0xFF) = (ucast (take_bit 8 w) :: byte)" by (simp only: take_bit_eq_mask)
  also have "\<dots> = ucast w" by (rule bit_word_eqI) (simp add: bit_simps)
  finally show ?thesis .
qed

lemma squeeze_byte_eq:
  "ctx_pos ctx < 200 \<Longrightarrow> squeeze_byte rate ctx =
     (state_bytes (ctx_s ctx) ! ctx_pos ctx,
      if ctx_pos ctx + 1 = rate then ctx\<lparr>ctx_s := keccakf (ctx_s ctx), ctx_pos := 0\<rparr>
      else ctx\<lparr>ctx_pos := ctx_pos ctx + 1\<rparr>)"
  by (simp add: squeeze_byte_def Let_def nth_state_bytes ucast_and_FF)

lemma length_spec_absorb [simp]: "length (spec_absorb rate sfx st m) = 25"
  by (induction rate sfx st m rule: spec_absorb.induct) (subst spec_absorb.simps, simp)

subsection \<open>The interface of a sponge\<close>

locale sponge =
  fixes rate :: nat and sfx :: byte
    and init :: keccak_ctx
    and absorb :: "keccak_ctx \<Rightarrow> byte list \<Rightarrow> keccak_ctx"
    and finalize :: "keccak_ctx \<Rightarrow> keccak_ctx"
    and squeeze :: "keccak_ctx \<Rightarrow> nat \<Rightarrow> byte list \<times> keccak_ctx"
  assumes rate_pos: "0 < rate" and rate_le: "rate \<le> 200"
    and init_zero: "init = ctx_zero"
    and absorb_Nil: "absorb ctx [] = ctx"
    and absorb_Cons: "absorb ctx (b # bs) = absorb (absorb_byte rate b ctx) bs"
    and finalize_eq: "finalize ctx = finalize_ctx rate sfx ctx"
    and squeeze_eq: "squeeze ctx n = squeeze_bytes rate n (if ctx_squeezing ctx = 0 then finalize ctx else ctx)"
begin

lemma ctx_ok_init: "ctx_ok rate init"
  by (simp add: init_zero ctx_ok_zero rate_pos)

lemma absorb_append: "absorb ctx (xs @ ys) = absorb (absorb ctx xs) ys"
  by (induction xs arbitrary: ctx) (simp_all add: absorb_Nil absorb_Cons)

lemma absorb_concat: "absorb ctx (concat ms) = fold (\<lambda>m c. absorb c m) ms ctx"
  by (induction ms arbitrary: ctx) (simp_all add: absorb_Nil absorb_append)

lemma ctx_ok_absorb: "ctx_ok rate ctx \<Longrightarrow> ctx_ok rate (absorb ctx bs)"
  by (induction bs arbitrary: ctx) (simp_all add: absorb_Nil absorb_Cons ctx_ok_absorb_byte)

lemma absorb_pos_mod:
  "ctx_ok rate ctx \<Longrightarrow> ctx_pos (absorb ctx bs) = (ctx_pos ctx + length bs) mod rate"
proof (induction bs arbitrary: ctx)
  case Nil
  then show ?case by (simp add: absorb_Nil ctx_ok_def)
next
  case (Cons b bs)
  have "ctx_pos (absorb ctx (b # bs)) = (ctx_pos (absorb_byte rate b ctx) + length bs) mod rate"
    using Cons.IH [OF ctx_ok_absorb_byte [OF Cons.prems]] by (simp add: absorb_Cons)
  also have "\<dots> = (ctx_pos ctx + length (b # bs)) mod rate"
    by (auto simp: absorb_byte_def Let_def) (metis add_Suc mod_add_self1)
  finally show ?case .
qed

lemma squeezing_absorb: "ctx_squeezing (absorb ctx bs) = ctx_squeezing ctx"
  by (induction bs arbitrary: ctx) (simp_all add: absorb_Nil absorb_Cons absorb_byte_def Let_def)

lemma length_squeeze: "length (fst (squeeze ctx n)) = n"
  by (simp add: squeeze_eq)

lemma ctx_ok_squeeze: "ctx_ok rate ctx \<Longrightarrow> ctx_ok rate (snd (squeeze ctx n))"
  by (simp add: squeeze_eq finalize_eq ctx_ok_finalize rate_pos ctx_ok_squeeze_bytes)

lemma squeeze_add:
  "squeeze ctx (m + n) =
     (fst (squeeze ctx m) @ fst (squeeze (snd (squeeze ctx m)) n), snd (squeeze (snd (squeeze ctx m)) n))"
  by (auto simp: squeeze_eq squeeze_bytes_add finalize_eq finalize_ctx_def)

text \<open>A run of bytes inside a block, a full block, and a whole message.\<close>

lemma absorb_partial:
  assumes "ctx_pos ctx + length bs < rate"
  shows "absorb ctx bs = ctx\<lparr>ctx_s := xor_run (ctx_pos ctx) bs (ctx_s ctx), ctx_pos := ctx_pos ctx + length bs\<rparr>"
  using assms
proof (induction bs rule: rev_induct)
  case Nil
  then show ?case by (simp add: absorb_Nil)
next
  case (snoc b bs)
  then show ?case
    by (simp add: absorb_append absorb_Cons absorb_Nil absorb_byte_def Let_def xor_run_snoc)
qed

lemma absorb_block:
  assumes "ctx_pos ctx = 0" "length bs = rate"
  shows "absorb ctx bs = ctx\<lparr>ctx_s := keccakf (xor_run 0 bs (ctx_s ctx)), ctx_pos := 0\<rparr>"
proof -
  from assms rate_pos obtain ys y where bs: "bs = ys @ [y]"
    by (metis length_greater_0_conv rev_exhaust)
  with assms have "ctx_pos ctx + length ys < rate" by simp
  from absorb_partial [OF this] bs assms show ?thesis
    by (simp add: absorb_append absorb_Cons absorb_Nil absorb_byte_def Let_def xor_run_snoc flip: assms(2))
qed

lemma finalize_absorb:
  assumes "length (ctx_s ctx) = 25" "ctx_pos ctx = 0"
  shows "finalize (absorb ctx m) =
     ctx\<lparr>ctx_s := spec_absorb rate sfx (ctx_s ctx) m, ctx_pos := 0, ctx_squeezing := 1\<rparr>"
  using assms
proof (induction m arbitrary: ctx rule: length_induct)
  case (1 m)
  show ?case
  proof (cases "length m < rate")
    case True
    with "1.prems" show ?thesis
      using absorb_partial [of ctx m] xor_pad_block [of "ctx_s ctx" m rate sfx] rate_le
      by (simp add: finalize_eq finalize_ctx_def spec_absorb.simps [of rate sfx "ctx_s ctx" m])
  next
    case False
    let ?c = "ctx\<lparr>ctx_s := keccakf (xor_run 0 (take rate m) (ctx_s ctx)), ctx_pos := 0\<rparr>"
    have "absorb ctx m = absorb ?c (drop rate m)"
      using False "1.prems" absorb_block [of ctx "take rate m"] absorb_append [of ctx "take rate m" "drop rate m"]
      by simp
    moreover have "length (drop rate m) < length m" using False rate_pos by simp
    ultimately show ?thesis
      using False "1.prems" rate_pos "1.IH"
      by (simp add: xor_run_block spec_absorb.simps [of rate sfx "ctx_s ctx" m])
  qed
qed

lemma squeeze_run:
  assumes "length (ctx_s ctx) = 25" "ctx_pos ctx + n < rate"
  shows "squeeze_bytes rate n ctx =
     (take n (drop (ctx_pos ctx) (state_bytes (ctx_s ctx))), ctx\<lparr>ctx_pos := ctx_pos ctx + n\<rparr>)"
  using assms
proof (induction n arbitrary: ctx)
  case (Suc n)
  let ?c = "ctx\<lparr>ctx_pos := ctx_pos ctx + 1\<rparr>"
  have "squeeze_byte rate ctx = (state_bytes (ctx_s ctx) ! ctx_pos ctx, ?c)"
    using Suc.prems rate_le by (simp add: squeeze_byte_eq)
  moreover have "squeeze_bytes rate n ?c =
      (take n (drop (ctx_pos ctx + 1) (state_bytes (ctx_s ctx))), ctx\<lparr>ctx_pos := ctx_pos ctx + Suc n\<rparr>)"
    using Suc.prems Suc.IH [of ?c] by simp
  moreover have "ctx_pos ctx < length (state_bytes (ctx_s ctx))"
    using Suc.prems rate_le by simp
  ultimately show ?case by (simp add: Cons_nth_drop_Suc [symmetric])
qed simp

lemma squeeze_block:
  assumes "length (ctx_s ctx) = 25" "ctx_pos ctx = 0"
  shows "squeeze_bytes rate rate ctx =
     (take rate (state_bytes (ctx_s ctx)), ctx\<lparr>ctx_s := keccakf (ctx_s ctx), ctx_pos := 0\<rparr>)"
proof -
  obtain r where r: "rate = Suc r" using rate_pos not0_implies_Suc by blast
  let ?c = "ctx\<lparr>ctx_pos := r\<rparr>"
  have "squeeze_bytes rate r ctx = (take r (state_bytes (ctx_s ctx)), ?c)"
    using squeeze_run [of ctx r] assms r by simp
  moreover have "squeeze_byte rate ?c = (state_bytes (ctx_s ctx) ! r, ctx\<lparr>ctx_s := keccakf (ctx_s ctx), ctx_pos := 0\<rparr>)"
    using squeeze_byte_eq [of ?c rate] assms rate_le r by simp
  ultimately show ?thesis
    using squeeze_bytes_add [of rate r 1 ctx] r rate_le
    by (simp add: take_Suc_conv_app_nth)
qed

lemma squeeze_bytes_spec:
  assumes "length (ctx_s ctx) = 25" "ctx_pos ctx = 0"
  shows "fst (squeeze_bytes rate n ctx) = spec_squeeze rate (ctx_s ctx) n"
  using assms
proof (induction n arbitrary: ctx rule: less_induct)
  case (less n)
  show ?case
  proof (cases "n < rate")
    case True
    with less.prems squeeze_run [of ctx n] show ?thesis
      by (simp add: spec_squeeze.simps [of rate "ctx_s ctx" n])
  next
    case False
    then have n: "n = rate + (n - rate)" by simp
    let ?c = "ctx\<lparr>ctx_s := keccakf (ctx_s ctx), ctx_pos := 0\<rparr>"
    have "fst (squeeze_bytes rate n ctx) = take rate (state_bytes (ctx_s ctx)) @ fst (squeeze_bytes rate (n - rate) ?c)"
      using squeeze_block [OF less.prems] by (subst n, subst squeeze_bytes_add) simp
    with False rate_pos less.IH [of "n - rate" ?c] show ?thesis
      by (simp add: spec_squeeze.simps [of rate "ctx_s ctx" n])
  qed
qed

text \<open>The whole computation of a digest is the sponge function.\<close>

theorem digest_spec: "fst (squeeze (finalize (absorb init m)) n) = spec_sponge rate sfx m n"
  using finalize_absorb [of ctx_zero m] squeeze_bytes_spec [of "finalize (absorb init m)" n] rate_pos
  by (simp add: squeeze_eq init_zero ctx_zero_def spec_sponge_def)

text \<open>Reading a digest in several calls gives consecutive parts of one stream.\<close>

lemma digest_stream:
  "fst (squeeze (snd (squeeze (finalize (absorb init m)) k)) n) = drop k (spec_sponge rate sfx m (k + n))"
  using squeeze_add [of "finalize (absorb init m)" k n] digest_spec [of m "k + n"]
        length_squeeze [of "finalize (absorb init m)" k]
  by (metis append_eq_conv_conj fst_conv)

end

subsection \<open>The three sponges provide the interface\<close>

interpretation sh128: sponge 168 "0x1F" shake128_init shake128_absorb shake128_finalize shake128_squeeze
  by unfold_locales (simp_all add: shake128_init_def shake128_finalize_def shake128_squeeze_def)

interpretation sh256: sponge 136 "0x1F" shake256_init shake256_absorb shake256_finalize shake256_squeeze
  by unfold_locales (simp_all add: shake256_init_def shake256_finalize_def shake256_squeeze_def)

text \<open>The Keccak-256 context fixes the output length, so its squeeze is used through \<open>squeeze_bytes\<close>.\<close>

definition keccak256_squeeze_n :: "keccak_ctx \<Rightarrow> nat \<Rightarrow> byte list \<times> keccak_ctx" where
  "keccak256_squeeze_n ctx n =
     squeeze_bytes 136 n (if ctx_squeezing ctx = 0 then keccak256_finalize ctx else ctx)"

lemma keccak256_squeeze_32: "keccak256_squeeze ctx = keccak256_squeeze_n ctx 32"
  by (simp add: keccak256_squeeze_def keccak256_squeeze_n_def)

interpretation kc256: sponge 136 "0x01" keccak256_init keccak256_absorb keccak256_finalize keccak256_squeeze_n
  by unfold_locales (simp_all add: keccak256_init_def keccak256_finalize_def keccak256_squeeze_n_def)

subsection \<open>The permutation of FIPS 202\<close>

text \<open>
  The step mappings over the 5 by 5 array of lanes, as FIPS 202 states them; the rotation offsets are
  those of the walk \<open>(x, y) \<mapsto> (y, 2 x + 3 y)\<close> from (1, 0) and the round constants come from the
  degree-8 linear feedback shift register.
\<close>

type_synonym lanes = "nat \<Rightarrow> nat \<Rightarrow> u64"

definition fips_theta :: "lanes \<Rightarrow> lanes" where
  "fips_theta A =
     (let C = (\<lambda>x. A x 0 XOR A x 1 XOR A x 2 XOR A x 3 XOR A x 4);
          D = (\<lambda>x. C ((x + 4) mod 5) XOR word_rotl 1 (C ((x + 1) mod 5)))
      in (\<lambda>x y. A x y XOR D x))"

fun rho_walk :: "nat \<Rightarrow> nat \<Rightarrow> nat \<Rightarrow> nat \<Rightarrow> nat list \<Rightarrow> nat list" where
  "rho_walk 0 t x y offs = offs"
| "rho_walk (Suc n) t x y offs =
     rho_walk n (Suc t) y ((2 * x + 3 * y) mod 5) (offs[x + 5 * y := ((t + 1) * (t + 2) div 2) mod 64])"

definition fips_rho :: "lanes \<Rightarrow> lanes" where
  "fips_rho A = (\<lambda>x y. word_rotl (rho_walk 24 0 1 0 (replicate 25 0) ! (x + 5 * y)) (A x y))"

definition fips_pi :: "lanes \<Rightarrow> lanes" where
  "fips_pi A = (\<lambda>x y. A ((x + 3 * y) mod 5) x)"

definition fips_chi :: "lanes \<Rightarrow> lanes" where
  "fips_chi A = (\<lambda>x y. A x y XOR (NOT (A ((x + 1) mod 5) y) AND A ((x + 2) mod 5) y))"

text \<open>\<open>R\<close> is the 8-bit register, \<open>R ! 0\<close> the output bit.\<close>

definition lfsr_step :: "bool list \<Rightarrow> bool list" where
  "lfsr_step R =
     [R ! 7, R ! 0, R ! 1, R ! 2, R ! 3 \<noteq> R ! 7, R ! 4 \<noteq> R ! 7, R ! 5 \<noteq> R ! 7, R ! 6]"

fun lfsr_stream :: "nat \<Rightarrow> bool list \<Rightarrow> bool list" where
  "lfsr_stream 0 R = []"
| "lfsr_stream (Suc n) R = R ! 0 # lfsr_stream n (lfsr_step R)"

definition fips_RC :: "bool list \<Rightarrow> int" where
  "fips_RC bs = sum_list (map (\<lambda>j. if bs ! j then 2 ^ (2 ^ j - 1) else 0) [0..<7])"

definition fips_RC_ints :: "int list" where
  "fips_RC_ints =
     (let bs = lfsr_stream 168 [True, False, False, False, False, False, False, False]
      in map (\<lambda>ir. fips_RC (chunk (7 * ir) 7 bs)) [0..<24])"

definition fips_RC_table :: "u64 list" where
  "fips_RC_table = map of_int fips_RC_ints"

definition fips_round :: "nat \<Rightarrow> lanes \<Rightarrow> lanes" where
  "fips_round ir A =
     (\<lambda>x y. fips_chi (fips_pi (fips_rho (fips_theta A))) x y
            XOR (if x = 0 \<and> y = 0 then fips_RC_table ! ir else 0))"

definition lanes_of :: "u64 list \<Rightarrow> lanes" where
  "lanes_of s = (\<lambda>x y. s ! (x + 5 * y))"

lemma rot_offsets_fips: "rho_walk 24 0 1 0 (replicate 25 0) = rot_offsets"
  by code_simp

lemma fips_RC_ints_eq:
  "fips_RC_ints =
    [0x0000000000000001, 0x0000000000008082, 0x800000000000808A, 0x8000000080008000,
     0x000000000000808B, 0x0000000080000001, 0x8000000080008081, 0x8000000000008009,
     0x000000000000008A, 0x0000000000000088, 0x0000000080008009, 0x000000008000000A,
     0x000000008000808B, 0x800000000000008B, 0x8000000000008089, 0x8000000000008003,
     0x8000000000008002, 0x8000000000000080, 0x000000000000800A, 0x800000008000000A,
     0x8000000080008081, 0x8000000000008080, 0x0000000080000001, 0x8000000080008008]"
  by code_simp

lemma RC_fips: "fips_RC_table = RC"
  by (simp add: fips_RC_table_def fips_RC_ints_eq RC_def)

lemma rol64_rotl:
  assumes "n < 64"
  shows "rol64 x n = word_rotl n x"
proof (cases "n = 0")
  case True
  moreover have "word_rotl 0 x = x" by (rule bit_word_eqI) (simp add: bit_word_rotl_iff)
  ultimately show ?thesis by (simp add: rol64_def)
next
  case False
  with assms have "(64 - int n) mod 64 = 64 - int n" by (intro mod_pos_pos_trivial) simp_all
  with assms have "nat ((64 - int n) mod 64) = 64 - n" by simp
  then have r: "rol64 x n = push_bit n x OR drop_bit (64 - n) x" by (simp only: rol64_def)
  show ?thesis
  proof (rule bit_word_eqI)
    fix k assume "k < LENGTH(64)"
    then have k: "k < 64" by simp
    have rotl: "bit (word_rotl n x) k = bit x ((k + (64 - n)) mod 64)"
      using assms k by (simp add: bit_word_rotl_iff)
    show "bit (rol64 x n) k = bit (word_rotl n x) k"
    proof (cases "k < n")
      case True
      with assms k have "(k + (64 - n)) mod 64 = k + (64 - n)" by (intro mod_less) simp
      with True show ?thesis
        unfolding rotl by (simp add: r bit_or_iff bit_push_bit_iff bit_drop_bit_eq add.commute)
    next
      case False
      with assms k have "k + (64 - n) = (k - n) + 64" by simp
      with False k assms have m: "(k + (64 - n)) mod 64 = k - n" by (simp only: mod_add_self2 mod_less)
      have "\<not> bit x (64 - n + k)"
        using False assms bit_imp_le_length [of x "64 - n + k"] by auto
      with False k show ?thesis
        unfolding rotl m by (simp add: r bit_or_iff bit_push_bit_iff bit_drop_bit_eq)
    qed
  qed
qed

lemma fips_rho_eq: "fips_rho A = (\<lambda>x y. word_rotl (rot_offsets ! (x + 5 * y)) (A x y))"
  by (simp only: fips_rho_def rot_offsets_fips)

lemma upt_25:
  "[0..<25] = [0, 1, 2, 3, 4, 5, 6, 7, 8, 9, 10, 11, 12, 13, 14, 15, 16, 17, 18, 19, 20, 21, 22, 23, 24]"
  by (simp add: upt_rec)

lemma length_fold_update: "length (fold (\<lambda>i B. B[f i := g i]) is B) = length B"
  by (induction "is" arbitrary: B) auto

lemma nth_fold_update:
  assumes "i \<in> set is" "inj_on f (set is)" "distinct is" "f i < length B"
  shows "fold (\<lambda>i B. B[f i := g i]) is B ! f i = g i"
  using assms
proof (induction "is" rule: rev_induct)
  case (snoc j js)
  then show ?case by (cases "i = j") (auto simp: length_fold_update inj_on_def nth_list_update)
qed simp

text \<open>The \<open>B\<close> loop writes each of the 25 entries exactly once.\<close>

lemma round_B_eq:
  "round_B s =
     map (\<lambda>i. let j = (i mod 5 + 3 * (i div 5)) mod 5 + 5 * (i mod 5) in rol64 (s ! j) (rot_offsets ! j)) [0..<25]"
proof (rule nth_equalityI)
  let ?f = "\<lambda>i::nat. i div 5 + 5 * ((2 * (i mod 5) + 3 * (i div 5)) mod 5)"
  let ?j = "\<lambda>i::nat. (i mod 5 + 3 * (i div 5)) mod 5 + 5 * (i mod 5)"
  fix i assume "i < length (round_B s)"
  then have i: "i < 25" by (simp add: round_B_def Let_def length_fold_update)
  have "\<forall>i \<in> set [0..<25]. ?f (?j i) = i \<and> ?j i < 25" unfolding upt_25 by simp
  with i have fj: "?f (?j i) = i" "?j i < 25" by simp_all
  have "\<forall>i \<in> set [0..<25]. ?j (?f i) = i" unfolding upt_25 by simp
  then have "inj_on ?f (set [0..<25])" by (intro inj_on_inverseI [where g = ?j]) blast
  then have "fold (\<lambda>i B. B[?f i := rol64 (s ! i) (rot_offsets ! i)]) [0..<25] (replicate 25 0) ! ?f (?j i)
      = rol64 (s ! ?j i) (rot_offsets ! ?j i)"
    using fj i by (intro nth_fold_update) simp_all
  with fj i show "round_B s ! i = map (\<lambda>i. let j = ?j i in rol64 (s ! j) (rot_offsets ! j)) [0..<25] ! i"
    by (simp add: round_B_def Let_def)
qed (simp add: round_B_def Let_def length_fold_update)

lemma rot_offsets_less: "i < 25 \<Longrightarrow> rot_offsets ! i < 64"
proof -
  have "list_all (\<lambda>n. n < 64) rot_offsets" "length rot_offsets = 25"
    by (simp_all add: rot_offsets_def)
  then show "i < 25 \<Longrightarrow> rot_offsets ! i < 64" by (simp add: list_all_length)
qed

lemma lane_index:
  assumes "x < 5" "y < (5::nat)"
  shows "(x + 5 * y) mod 5 = x" "(x + 5 * y) div 5 = y" "x + 5 * y < 25"
  using assms by simp_all

lemma mod5_less: "n mod 5 < (5::nat)"
  by simp

lemma lanes_round_theta:
  assumes "x < 5" "y < 5"
  shows "lanes_of (round_theta s) x y = fips_theta (lanes_of s) x y"
  using assms mod5_less [of "x + 4"] mod5_less [of "x + 1"]
  by (simp add: lanes_of_def round_theta_def round_D_def round_C_def fips_theta_def Let_def rol64_rotl lane_index
        del: mod_less_divisor)

lemma lanes_round_B:
  assumes "x < 5" "y < 5"
  shows "lanes_of (round_B s) x y = fips_pi (fips_rho (lanes_of s)) x y"
  using assms lane_index [of x y] lane_index [of "(x + 3 * y) mod 5" x]
  by (simp add: lanes_of_def round_B_eq fips_pi_def fips_rho_eq Let_def
        rol64_rotl rot_offsets_less)

lemma lanes_round_chi:
  assumes "x < 5" "y < 5"
  shows "lanes_of (round_chi s) x y = fips_chi (lanes_of s) x y"
  using assms lane_index [OF assms]
  by (simp add: lanes_of_def round_chi_def fips_chi_def) (simp add: mod_Suc mod_add_left_eq)

lemma lanes_keccak_round:
  assumes "x < 5" "y < 5"
  shows "lanes_of (keccak_round ir s) x y = fips_round ir (lanes_of s) x y"
proof -
  have chi: "fips_chi A x y = fips_chi B x y"
    if "\<And>x y. x < 5 \<Longrightarrow> y < 5 \<Longrightarrow> A x y = B x y" for A B :: lanes
    using assms that by (simp add: fips_chi_def)
  have B: "lanes_of (round_B (round_theta s)) x y = fips_pi (fips_rho (fips_theta (lanes_of s))) x y"
    if "x < 5" "y < 5" for x y
    using that by (simp add: lanes_round_B fips_pi_def fips_rho_def lanes_round_theta)
  have "lanes_of (round_chi (round_B (round_theta s))) x y
      = fips_chi (fips_pi (fips_rho (fips_theta (lanes_of s)))) x y"
    unfolding lanes_round_chi [OF assms] by (rule chi) (rule B)
  then show ?thesis
    using assms by (auto simp: keccak_round_def Let_def fips_round_def lanes_of_def RC_fips nth_list_update)
qed

lemma fips_round_cong:
  assumes "\<And>x y. x < 5 \<Longrightarrow> y < 5 \<Longrightarrow> A x y = B x y" "x < 5" "y < 5"
  shows "fips_round ir A x y = fips_round ir B x y"
  using assms by (simp add: fips_round_def fips_chi_def fips_pi_def fips_rho_def fips_theta_def Let_def)

lemma lanes_fold_round:
  assumes "x < 5" "y < 5"
  shows "lanes_of (fold keccak_round rs s) x y = fold fips_round rs (lanes_of s) x y"
  using assms
proof (induction rs arbitrary: x y rule: rev_induct)
  case (snoc r rs)
  then show ?case by (simp add: lanes_keccak_round fips_round_cong [OF snoc.IH])
qed simp

subsection \<open>Properties of the hash component\<close>

text \<open>
  C26.  \<open>keccakf\<close> is the permutation of FIPS 202: at every lane of the state, the 24 iterations of the
  code's loop give what 24 rounds of theta, rho, pi, chi and iota give, with the standard's rotation
  walk and shift-register constants in place of the code's two tables.
\<close>

theorem keccakf_fips:
  assumes "x < 5" "y < 5"
  shows "lanes_of (keccakf s) x y = fold fips_round [0..<24] (lanes_of s) x y"
  unfolding keccakf_def using assms by (rule lanes_fold_round)

theorem keccakf_fips_witness:
  "(4::nat) < 5 \<and> (2::nat) < 5 \<and>
   lanes_of (keccakf (replicate 25 7)) 4 2 = fold fips_round [0..<24] (lanes_of (replicate 25 7)) 4 2"
  using keccakf_fips [of 4 2 "replicate 25 7"] by simp

text \<open>
  C27.  Each of the three sponges computes the sponge function of FIPS 202: hashing a message with
  init, absorb, finalize and squeeze gives the first \<open>n\<close> bytes of the block-wise sponge with the
  rate and the domain suffix of that function (168 and 0x1F, 136 and 0x1F, 136 and 0x01).
\<close>

theorem digests_are_sponges:
  "fst (shake128_squeeze (shake128_finalize (shake128_absorb shake128_init m)) n) = spec_sponge 168 0x1F m n \<and>
   fst (shake256_squeeze (shake256_finalize (shake256_absorb shake256_init m)) n) = spec_sponge 136 0x1F m n \<and>
   fst (keccak256_squeeze (keccak256_finalize (keccak256_absorb keccak256_init m))) = spec_sponge 136 0x01 m 32"
  by (simp add: sh128.digest_spec sh256.digest_spec kc256.digest_spec keccak256_squeeze_32)

text \<open>
  Absorbing is incremental in every sponge, from any context: a message absorbed in several calls
  leaves the context that one call with the concatenation leaves.  The signer relies on this
  when it streams \<open>tr || pre || message\<close> into the hash.
\<close>

theorem absorb_incremental:
  "shake128_absorb ctx (concat ms) = fold (\<lambda>m c. shake128_absorb c m) ms ctx \<and>
   shake256_absorb ctx (concat ms) = fold (\<lambda>m c. shake256_absorb c m) ms ctx \<and>
   keccak256_absorb ctx (concat ms) = fold (\<lambda>m c. keccak256_absorb c m) ms ctx"
  by (simp add: sh128.absorb_concat sh256.absorb_concat kc256.absorb_concat)

text \<open>
  Squeezing continues one stream: reading \<open>k\<close> bytes and then \<open>n\<close> more from a finalized SHAKE
  context gives bytes \<open>k\<close> to \<open>k + n\<close> of the digest of length \<open>k + n\<close>.
\<close>

theorem squeeze_continues:
  "fst (shake128_squeeze (snd (shake128_squeeze (shake128_finalize (shake128_absorb shake128_init m)) k)) n)
     = drop k (spec_sponge 168 0x1F m (k + n)) \<and>
   fst (shake256_squeeze (snd (shake256_squeeze (shake256_finalize (shake256_absorb shake256_init m)) k)) n)
     = drop k (spec_sponge 136 0x1F m (k + n))"
  by (simp add: sh128.digest_stream sh256.digest_stream)

text \<open>
  No sponge operation reads or writes outside the 25 lanes: from a context whose position is below
  the rate, absorbing and squeezing any number of bytes keeps the position below the rate and the
  state at 25 lanes, so every index \<open>pos / 8\<close> the code uses is below 25.
\<close>

theorem sponge_index_safe:
  assumes "ctx_ok 136 ctx"
  shows "ctx_ok 136 (shake256_absorb ctx bs) \<and> ctx_ok 136 (snd (shake256_squeeze ctx n)) \<and>
    ctx_ok 136 (keccak256_absorb ctx bs) \<and> ctx_ok 136 (snd (keccak256_squeeze ctx)) \<and>
    ctx_pos (shake256_absorb ctx bs) = (ctx_pos ctx + length bs) mod 136 \<and>
    ctx_pos (shake256_absorb ctx bs) div 8 < 25"
proof -
  have "ctx_pos (shake256_absorb ctx bs) < 136"
    using sh256.ctx_ok_absorb [OF assms, of bs] by (simp add: ctx_ok_def)
  then show ?thesis
    using assms by (simp add: sh256.ctx_ok_absorb sh256.ctx_ok_squeeze kc256.ctx_ok_absorb kc256.ctx_ok_squeeze
          sh256.absorb_pos_mod keccak256_squeeze_32)
qed

theorem sponge_index_safe_witness:
  "ctx_ok 136 ctx_zero \<and> ctx_ok 136 (shake256_absorb ctx_zero [1, 2, 3]) \<and>
   ctx_pos (shake256_absorb ctx_zero [1, 2, 3]) = 3"
proof -
  have h: "ctx_ok 136 ctx_zero" by (simp add: ctx_ok_def ctx_zero_def)
  show ?thesis using h sponge_index_safe [OF h, of "[1, 2, 3]" 0] by (simp add: ctx_zero_def)
qed

end
