(* ===== verification/Rounding.thy ===== *)
theory Rounding
  imports Prelude
begin

text \<open>
  The scalar arithmetic of ML-DSA-87: the constants of \<open>constant.h\<close>, the reductions of \<open>reduce.c\<close> and
  the rounding and hint functions of \<open>rounding.c\<close>.  The lemmas give the range and the residue class
  of every result, show that the branchless code computes Power2Round, Decompose, MakeHint and
  UseHint of FIPS 204, and prove the law the signature scheme rests on: a hint made by the signer
  lets the verifier recover the high bits.
\<close>

subsection \<open>constant.h\<close>

abbreviation (input) N :: nat where "N \<equiv> 256"
abbreviation (input) K :: nat where "K \<equiv> 8"
abbreviation (input) L :: nat where "L \<equiv> 7"
abbreviation (input) D :: nat where "D \<equiv> 13"
abbreviation (input) Q_CONST :: int where "Q_CONST \<equiv> 8380417"
abbreviation (input) Q_INV :: int where "Q_INV \<equiv> 58728449"
abbreviation (input) ETA :: int where "ETA \<equiv> 2"
abbreviation (input) TAU :: nat where "TAU \<equiv> 60"
abbreviation (input) BETA :: int where "BETA \<equiv> 120"
abbreviation (input) GAMMA1 :: int where "GAMMA1 \<equiv> 524288"
abbreviation (input) GAMMA2 :: int where "GAMMA2 \<equiv> 261888"
abbreviation (input) OMEGA :: nat where "OMEGA \<equiv> 75"
abbreviation (input) CTILDE_BYTES :: nat where "CTILDE_BYTES \<equiv> 64"
abbreviation (input) SEED_BYTES :: nat where "SEED_BYTES \<equiv> 32"
abbreviation (input) CRH_BYTES :: nat where "CRH_BYTES \<equiv> 64"
abbreviation (input) TR_BYTES :: nat where "TR_BYTES \<equiv> 64"
abbreviation (input) RND_BYTES :: nat where "RND_BYTES \<equiv> 32"
abbreviation (input) POLY_T1_PACKED_BYTES :: nat where "POLY_T1_PACKED_BYTES \<equiv> 320"
abbreviation (input) POLY_Z_PACKED_BYTES :: nat where "POLY_Z_PACKED_BYTES \<equiv> 640"
abbreviation (input) POLY_W1_PACKED_BYTES :: nat where "POLY_W1_PACKED_BYTES \<equiv> 128"
abbreviation (input) CRYPTO_PUBLIC_KEY_BYTES :: nat where "CRYPTO_PUBLIC_KEY_BYTES \<equiv> 2592"
abbreviation (input) CRYPTO_BYTES :: nat where "CRYPTO_BYTES \<equiv> 4627"

lemma constants_consistent:
  "GAMMA1 = 2 ^ 19" "GAMMA2 = (Q_CONST - 1) div 32" "BETA = int TAU * ETA"
  "CRYPTO_PUBLIC_KEY_BYTES = SEED_BYTES + K * POLY_T1_PACKED_BYTES"
  "CRYPTO_BYTES = CTILDE_BYTES + L * POLY_Z_PACKED_BYTES + (OMEGA + K)"
  by simp_all

subsection \<open>reduce.c\<close>

definition montgomery_reduce :: "int \<Rightarrow> int" where
  "montgomery_reduce a =
     (let t = i32 (i64 (i32 a * Q_INV))
      in i32 (asr (i64 (a - i64 (t * Q_CONST))) 32))"

definition reduce_32 :: "int \<Rightarrow> int" where
  "reduce_32 a =
     (let t = asr (i32 (a + 2 ^ 22)) 23
      in i32 (a - i32 (t * Q_CONST)))"

definition c_addq :: "int \<Rightarrow> int" where
  "c_addq a = i32 (a + (asr a 31 AND Q_CONST))"

subsection \<open>rounding.c\<close>

text \<open>The functions return \<open>a1\<close> and store \<open>*a0\<close>; the model returns the pair \<open>(a1, a0)\<close>.\<close>

definition power2_round :: "int \<Rightarrow> int \<times> int" where
  "power2_round a =
     (let a1 = asr (i32 (i32 (a + 2 ^ (D - 1)) - 1)) D
      in (a1, i32 (a - i32 (push_bit D a1))))"

definition decompose :: "int \<Rightarrow> int \<times> int" where
  "decompose a =
     (let a1 = asr (i32 (a + 127)) 7;
          a1 = asr (i32 (i32 (a1 * 1025) + 2 ^ 21)) 22;
          a1 = a1 AND 15;
          a0 = i32 (a - i32 (i32 (a1 * 2) * GAMMA2));
          a0 = i32 (a0 - (asr (i32 ((Q_CONST - 1) div 2 - a0)) 31 AND Q_CONST))
      in (a1, a0))"

definition make_hint :: "int \<Rightarrow> int \<Rightarrow> int" where
  "make_hint a0 a1 =
     (let gt = sign_bit (i32 (GAMMA2 - a0));
          lt = sign_bit (i32 (a0 + GAMMA2));
          diff = i32 (a0 + GAMMA2);
          eq = uw32 (1 - sign_bit (diff OR i32 (- diff)));
          nz = sign_bit (a1 OR i32 (- a1))
      in (gt OR lt OR (eq AND nz)) AND 1)"

definition use_hint :: "int \<Rightarrow> int \<Rightarrow> int" where
  "use_hint a hint =
     (let (a1, a0) = decompose a;
          hint_zero = i32 (1 - sign_bit (hint OR i32 (- hint)));
          positive = sign_bit (i32 (- a0));
          mask_zero = i32 (- hint_zero);
          mask_nz = i32 (- (1 - hint_zero));
          mask_pos = i32 (- positive)
      in (a1 AND mask_zero) OR ((a1 + 1) AND 15 AND mask_nz AND mask_pos)
         OR ((a1 - 1) AND 15 AND mask_nz AND NOT mask_pos))"

subsection \<open>Congruence modulo q\<close>

definition eqm :: "int \<Rightarrow> int \<Rightarrow> bool" where
  "eqm a b \<longleftrightarrow> Q_CONST dvd a - b"

lemma eqm_mod: "eqm a b \<longleftrightarrow> a mod Q_CONST = b mod Q_CONST"
  by (simp add: eqm_def mod_eq_dvd_iff)

lemma eqm_refl [simp, intro]: "eqm a a"
  by (simp add: eqm_def)

lemma eqm_sym: "eqm a b \<Longrightarrow> eqm b a"
  by (simp add: eqm_mod)

lemma eqm_trans [trans]: "eqm a b \<Longrightarrow> eqm b c \<Longrightarrow> eqm a c"
  by (simp add: eqm_mod)

lemma eqm_add: "eqm a b \<Longrightarrow> eqm c d \<Longrightarrow> eqm (a + c) (b + d)"
  unfolding eqm_def by (drule (1) dvd_add) (simp add: algebra_simps)

lemma eqm_diff: "eqm a b \<Longrightarrow> eqm c d \<Longrightarrow> eqm (a - c) (b - d)"
  unfolding eqm_def by (drule (1) dvd_diff) (simp add: algebra_simps)

lemma eqm_mult:
  assumes "eqm a b" "eqm c d"
  shows "eqm (a * c) (b * d)"
proof -
  have "a * c - b * d = (a - b) * c + b * (c - d)" by (simp add: algebra_simps)
  then show ?thesis
    using assms unfolding eqm_def by (metis dvd_add dvd_mult dvd_mult2)
qed

lemma eqm_minus: "eqm a b \<Longrightarrow> eqm (- a) (- b)"
  using eqm_diff [OF eqm_refl [of 0]] by simp

lemmas eqm_intros = eqm_add eqm_diff eqm_mult eqm_minus

lemma eqm_cancel_inv:
  assumes "eqm (c * c') 1" "eqm (c * a) (c * b)"
  shows "eqm a b"
proof -
  have cancel: "eqm x (c' * (c * x))" for x
    using eqm_mult [OF eqm_sym [OF assms(1)] eqm_refl, of x] by (simp add: ac_simps)
  have "eqm (c' * (c * a)) (c' * (c * b))" by (rule eqm_mult [OF eqm_refl assms(2)])
  with cancel [of a] cancel [of b] show ?thesis by (meson eqm_sym eqm_trans)
qed

text \<open>The Montgomery factor \<open>2^32\<close> has the inverse 8265825 modulo q.\<close>

abbreviation (input) MONT_INV :: int where "MONT_INV \<equiv> 8265825"

lemma mont_inv: "eqm (4294967296 * MONT_INV) 1"
  by (simp add: eqm_def)

lemma eqm_cancel_mont: "eqm (4294967296 * a) (4294967296 * b) \<Longrightarrow> eqm a b"
  by (rule eqm_cancel_inv [OF mont_inv])

lemma eqm_small_eq: "eqm a b \<Longrightarrow> \<bar>a - b\<bar> < Q_CONST \<Longrightarrow> a = b"
  using dvd_imp_le_int [of "a - b" Q_CONST] by (auto simp: eqm_def)

subsection \<open>The reductions\<close>

lemma montgomery_reduce_exact:
  assumes "\<bar>a\<bar> < 2147483648 * Q_CONST"
  shows "4294967296 * montgomery_reduce a = a - i32 (i32 a * Q_INV) * Q_CONST"
    and "\<bar>montgomery_reduce a\<bar> < Q_CONST"
proof -
  let ?t = "i32 (i32 a * Q_INV)"
  have r: "- 2147483648 \<le> i32 a" "i32 a < 2147483648" "- 2147483648 \<le> ?t" "?t < 2147483648"
    by (rule i32_range)+
  have m: "4294967296 dvd i32 x - x" for x
    using i32_cong [of x] by (simp add: mod_eq_dvd_iff)
  have "a - ?t * Q_CONST =
      (i32 a * Q_INV - ?t) * Q_CONST - (i32 a - a) - i32 a * (Q_INV * Q_CONST - 1)"
    by (simp add: algebra_simps)
  moreover have "4294967296 dvd (i32 a * Q_INV - ?t) * Q_CONST"
    using m [of "i32 a * Q_INV"] by (intro dvd_mult2) (simp add: dvd_diff_commute)
  moreover have "4294967296 dvd i32 a * (Q_INV * Q_CONST - 1)" by (intro dvd_mult) simp
  ultimately have "4294967296 dvd a - ?t * Q_CONST"
    using m [of a] by (simp only: dvd_diff)
  then obtain k where k: "a - ?t * Q_CONST = 4294967296 * k" by blast
  have kb: "\<bar>k\<bar> < Q_CONST" using assms r k by linarith
  have "montgomery_reduce a = i32 (asr (i64 (a - i64 (?t * Q_CONST))) 32)"
    using r by (simp add: montgomery_reduce_def Let_def)
  also have "i64 (a - i64 (?t * Q_CONST)) = a - ?t * Q_CONST"
    using assms r by simp
  also have "i32 (asr (a - ?t * Q_CONST) 32) = k"
    using kb by (simp add: k asr_div)
  finally show "4294967296 * montgomery_reduce a = a - ?t * Q_CONST" "\<bar>montgomery_reduce a\<bar> < Q_CONST"
    using k kb by simp_all
qed

lemma montgomery_reduce_eqm:
  assumes "\<bar>a\<bar> < 2147483648 * Q_CONST"
  shows "eqm (4294967296 * montgomery_reduce a) a"
  using montgomery_reduce_exact(1) [OF assms] by (simp add: eqm_def)

lemma reduce_32_correct:
  assumes "- 2147483648 \<le> a" "a < 2147483648 - 4194304"
  shows "eqm (reduce_32 a) a" "- 6283009 \<le> reduce_32 a" "reduce_32 a \<le> 6283008"
proof -
  let ?t = "(a + 4194304) div 8388608"
  have t: "- 256 \<le> ?t" "?t \<le> 255" and a: "8388608 * ?t \<le> a + 4194304" "a + 4194304 < 8388608 * ?t + 8388608"
    using assms by linarith+
  have "i32 (a + 4194304) = a + 4194304" using assms by simp
  moreover have "i32 (?t * Q_CONST) = ?t * Q_CONST" using t by simp
  moreover have "i32 (a - ?t * Q_CONST) = a - ?t * Q_CONST"
    using assms t a by (intro i32_id) linarith+
  ultimately have eq: "reduce_32 a = a - ?t * Q_CONST"
    by (simp add: reduce_32_def Let_def asr_div)
  show "eqm (reduce_32 a) a" by (simp add: eq eqm_def)
  show "- 6283009 \<le> reduce_32 a" using assms eq t a by (cases "?t = - 256") linarith+
  show "reduce_32 a \<le> 6283008" using eq t a by linarith
qed

lemma c_addq_correct:
  assumes "- Q_CONST < a" "a < Q_CONST"
  shows "c_addq a = a mod Q_CONST"
proof -
  have "asr a 31 = (if a < 0 then - 1 else 0)" using assms by (intro asr_31) simp_all
  moreover have "a mod Q_CONST = (if a < 0 then a + Q_CONST else a)"
    using assms mod_add_self2 [of a Q_CONST] mod_pos_pos_trivial [of "a + Q_CONST" Q_CONST]
    by (simp add: mod_pos_pos_trivial del: mod_add_self2)
  ultimately show ?thesis using assms by (simp add: c_addq_def)
qed

subsection \<open>Power2Round and Decompose\<close>

text \<open>The centred remainder of FIPS 204: in \<open>(- m / 2, m / 2]\<close>.\<close>

definition mod_pm :: "int \<Rightarrow> int \<Rightarrow> int" where
  "mod_pm a m = (let r = a mod m in if m < 2 * r then r - m else r)"

definition fips_power2round :: "int \<Rightarrow> int \<times> int" where
  "fips_power2round r = (let r0 = mod_pm r (2 ^ 13) in ((r - r0) div 2 ^ 13, r0))"

definition fips_decompose :: "int \<Rightarrow> int \<times> int" where
  "fips_decompose r =
     (let r0 = mod_pm r (2 * GAMMA2)
      in if r - r0 = Q_CONST - 1 then (0, r0 - 1) else ((r - r0) div (2 * GAMMA2), r0))"

definition fips_use_hint :: "bool \<Rightarrow> int \<Rightarrow> int" where
  "fips_use_hint h r =
     (let (r1, r0) = fips_decompose r
      in if h \<and> 0 < r0 then (r1 + 1) mod 16 else if h \<and> r0 \<le> 0 then (r1 - 1) mod 16 else r1)"

lemma and_15: "x AND 15 = x mod (16::int)"
proof -
  have "(15::int) = mask 4" by (simp add: mask_eq_exp_minus_1)
  then have "x AND 15 = take_bit 4 x" by (simp only: take_bit_eq_mask)
  then show ?thesis by (simp add: take_bit_eq_mod)
qed

lemma mod_pm_unique:
  assumes "a = k * m + r" "- m < 2 * r" "2 * r \<le> m" "0 < m"
  shows "mod_pm a m = r"
proof (cases "0 \<le> r")
  case True
  with assms have "a mod m = r" by simp
  with assms True show ?thesis by (simp add: mod_pm_def)
next
  case False
  have "a = (k - 1) * m + (r + m)" using assms by (simp add: algebra_simps)
  moreover have "0 \<le> r + m" "r + m < m" using assms False by simp_all
  ultimately have "a mod m = r + m" by (metis add.commute mod_mult_self1 mod_pos_pos_trivial)
  with assms False show ?thesis by (simp add: mod_pm_def)
qed

lemma power2_round_fips:
  assumes "0 \<le> a" "a < Q_CONST"
  shows "power2_round a = fips_power2round a"
proof -
  define k r where "k = (a + 4095) div 8192" and "r = a - k * 8192"
  have k: "0 \<le> k" "k \<le> 1023" and r: "- 4096 < r" "r \<le> 4096"
    using assms unfolding r_def k_def by linarith+
  have ak: "a = k * 8192 + r" by (simp add: r_def)
  have "power2_round a = (k, r)"
    using assms k r by (simp add: power2_round_def Let_def asr_div k_def [symmetric] push_bit_eq_mult r_def)
  moreover have "mod_pm a 8192 = r" using ak r by (intro mod_pm_unique) simp_all
  ultimately show ?thesis by (simp add: fips_power2round_def Let_def ak)
qed

text \<open>The two shapes of a residue: \<open>h\<close> steps of \<open>2 * GAMMA2\<close>, or the last half step below q.\<close>

lemma high_bits_code:
  assumes "a = h * 523776 + l" "0 \<le> h" "h \<le> 16" "- 261888 < l" "l \<le> 261888"
  shows "asr (i32 (i32 (asr (i32 (a + 127)) 7 * 1025) + 2 ^ 21)) 22 = h"
proof -
  define u where "u = (l + 127) div 128"
  have u: "- 2045 \<le> u" "u \<le> 2046" using assms unfolding u_def by linarith+
  have "(a + 127) div 128 = h * 4092 + u"
    using assms unfolding u_def by linarith
  moreover have "((h * 4092 + u) * 1025 + 2097152) div 4194304 = h"
    using assms u by (intro int_div_pos_eq [where r = "u * 1025 + 2097152 - 4 * h"]) simp_all
  ultimately show ?thesis
    using assms u by (simp add: asr_div)
qed

lemma decompose_inner:
  assumes "a = h * 523776 + l" "0 \<le> h" "h < 16" "- 261888 < l" "l \<le> 261888"
  shows "decompose a = (h, l)"
proof -
  have hb: "asr (i32 (i32 (asr (i32 (a + 127)) 7 * 1025) + 2 ^ 21)) 22 = h"
    using assms by (intro high_bits_code) simp_all
  have m: "h AND 15 = h" using assms by (simp add: and_15)
  have low: "i32 (a - i32 (i32 (h * 2) * GAMMA2)) = l" using assms by simp
  have "asr (i32 ((Q_CONST - 1) div 2 - l)) 31 = 0"
    using assms by (simp add: asr_31)
  then show ?thesis
    using assms(4,5) by (simp only: decompose_def Let_def hb m low) simp
qed

lemma decompose_wrap:
  assumes "Q_CONST - 1 - GAMMA2 < a" "a < Q_CONST"
  shows "decompose a = (0, a - Q_CONST)"
proof -
  have hb: "asr (i32 (i32 (asr (i32 (a + 127)) 7 * 1025) + 2 ^ 21)) 22 = 16"
    using assms by (intro high_bits_code [where l = "a - 8380416"]) simp_all
  have low: "i32 (a - i32 (i32 (0 * 2) * GAMMA2)) = a" using assms by simp
  have m: "(16::int) AND 15 = 0" by simp
  have "asr (i32 ((Q_CONST - 1) div 2 - a)) 31 = - 1"
    using assms by (simp add: asr_31)
  then show ?thesis
    using assms by (simp only: decompose_def Let_def hb m low) simp
qed

lemma residue_cases:
  assumes "0 \<le> a" "a < Q_CONST"
  obtains (inner) h l where "a = h * 523776 + l" "0 \<le> h" "h < 16" "- 261888 < l" "l \<le> 261888"
  | (wrap) "Q_CONST - 1 - GAMMA2 < a"
proof (cases "Q_CONST - 1 - GAMMA2 < a")
  case False
  define h where "h = (a + 261887) div 523776"
  have "0 \<le> h" "h < 16" "- 261888 < a - h * 523776" "a - h * 523776 \<le> 261888"
    using assms False unfolding h_def by linarith+
  then show thesis by (intro inner [of h "a - h * 523776"]) simp_all
qed (rule wrap)

lemma decompose_fips:
  assumes "0 \<le> a" "a < Q_CONST"
  shows "decompose a = fips_decompose a"
  using assms
proof (cases rule: residue_cases)
  case (inner h l)
  then have "mod_pm a 523776 = l" by (intro mod_pm_unique [of _ h]) simp_all
  with inner have "fips_decompose a = (h, l)" by (simp add: fips_decompose_def Let_def)
  with decompose_inner [OF inner] show ?thesis by simp
next
  case wrap
  then have "mod_pm a 523776 = a - 8380416" using assms by (intro mod_pm_unique [of _ 16]) simp_all
  with wrap assms show ?thesis
    by (simp add: fips_decompose_def Let_def decompose_wrap)
qed

lemma fst_decompose_range:
  assumes "0 \<le> a" "a < Q_CONST"
  shows "0 \<le> fst (decompose a)" "fst (decompose a) < 16"
    "- GAMMA2 \<le> snd (decompose a)" "snd (decompose a) \<le> GAMMA2"
proof -
  from assms have "0 \<le> fst (decompose a) \<and> fst (decompose a) < 16 \<and>
      - GAMMA2 \<le> snd (decompose a) \<and> snd (decompose a) \<le> GAMMA2"
  proof (cases rule: residue_cases)
    case (inner h l)
    with decompose_inner [OF inner] show ?thesis by simp
  next
    case wrap
    with assms show ?thesis by (simp add: decompose_wrap)
  qed
  then show "0 \<le> fst (decompose a)" "fst (decompose a) < 16"
    "- GAMMA2 \<le> snd (decompose a)" "snd (decompose a) \<le> GAMMA2" by simp_all
qed

subsection \<open>Hints\<close>

lemma sign_bit_or_uminus:
  assumes "- 2147483648 < x" "x < 2147483648"
  shows "sign_bit (x OR i32 (- x)) = (if x = 0 then 0 else 1)"
proof -
  have "i32 (- x) = - x" using assms by simp
  then have "sign_bit (x OR i32 (- x)) = (if x OR - x < 0 then 1 else 0)"
    using sign_bit_eq [OF or_uminus_range [OF assms]] by simp
  then show ?thesis by (simp only: or_uminus_neg_iff) simp
qed

lemma make_hint_eq:
  assumes "\<bar>a0\<bar> < 2147483648 - GAMMA2" "- 2147483648 < a1" "a1 < 2147483648"
  shows "make_hint a0 a1 = (if GAMMA2 < a0 \<or> a0 < - GAMMA2 \<or> (a0 = - GAMMA2 \<and> a1 \<noteq> 0) then 1 else 0)"
proof -
  have d: "i32 (a0 + GAMMA2) = a0 + GAMMA2" "i32 (GAMMA2 - a0) = GAMMA2 - a0" using assms by simp_all
  have gt: "sign_bit (GAMMA2 - a0) = (if GAMMA2 < a0 then 1 else 0)"
    and lt: "sign_bit (a0 + GAMMA2) = (if a0 < - GAMMA2 then 1 else 0)"
    using assms by (simp_all add: sign_bit_eq)
  have eq: "sign_bit (a0 + GAMMA2 OR i32 (- (a0 + GAMMA2))) = (if a0 = - GAMMA2 then 0 else 1)"
    using assms sign_bit_or_uminus [of "a0 + GAMMA2"] by auto
  have nz: "sign_bit (a1 OR i32 (- a1)) = (if a1 = 0 then 0 else 1)"
    by (rule sign_bit_or_uminus [OF assms(2,3)])
  show ?thesis
    unfolding make_hint_def Let_def d gt lt eq nz by auto
qed

lemma use_hint_eq:
  assumes "0 \<le> a" "a < Q_CONST" "- 2147483648 < h" "h < 2147483648"
  shows "use_hint a h = fips_use_hint (h \<noteq> 0) a"
proof -
  obtain a1 a0 where dec: "decompose a = (a1, a0)" by (cases "decompose a")
  have r: "0 \<le> a1" "a1 < 16" "- GAMMA2 \<le> a0" "a0 \<le> GAMMA2"
    using fst_decompose_range [OF assms(1,2)] dec by simp_all
  have z: "sign_bit (h OR i32 (- h)) = (if h = 0 then 0 else 1)"
    by (rule sign_bit_or_uminus [OF assms(3,4)])
  have p: "sign_bit (i32 (- a0)) = (if 0 < a0 then 1 else 0)"
    using r by (simp add: sign_bit_eq)
  have f: "fips_decompose a = (a1, a0)" using decompose_fips [OF assms(1,2)] dec by simp
  show ?thesis
    by (auto simp: use_hint_def fips_use_hint_def Let_def dec f z p and_15)
qed

text \<open>
  The state of the signer when it makes a hint: the high bits \<open>w1\<close> of the commitment and a perturbed
  low part \<open>a0\<close> of less than one full step.
\<close>

lemma perturbed_value:
  assumes "0 \<le> w1" "w1 < 16" "\<bar>a0\<bar> < 2 * GAMMA2"
  shows "(w1 * 523776 + a0) mod Q_CONST =
    (if w1 * 523776 + a0 < 0 then w1 * 523776 + a0 + Q_CONST else w1 * 523776 + a0)"
proof (cases "w1 * 523776 + a0 < 0")
  case True
  have "(w1 * 523776 + a0) mod Q_CONST = (w1 * 523776 + a0 + Q_CONST) mod Q_CONST"
    by (simp only: mod_add_self2)
  also have "\<dots> = w1 * 523776 + a0 + Q_CONST"
    using True assms by (intro mod_pos_pos_trivial) linarith+
  finally show ?thesis using True by (simp only: if_True)
next
  case False
  with assms have "(w1 * 523776 + a0) mod Q_CONST = w1 * 523776 + a0"
    by (intro mod_pos_pos_trivial) linarith+
  with False show ?thesis by (simp only: if_False)
qed

lemma perturbed_decompose:
  assumes "0 \<le> w1" "w1 < 16" "\<bar>a0\<bar> < 2 * GAMMA2"
  shows "decompose ((w1 * 523776 + a0) mod Q_CONST) =
    (if GAMMA2 < a0 then (if w1 = 15 then (0, a0 - 2 * GAMMA2 - 1) else (w1 + 1, a0 - 2 * GAMMA2))
     else if a0 < - GAMMA2 \<or> (a0 = - GAMMA2 \<and> w1 \<noteq> 0)
       then (if w1 = 0 then (15, a0 + 2 * GAMMA2 + 1) else (w1 - 1, a0 + 2 * GAMMA2))
     else (w1, a0))"
proof -
  obtain v where vv: "(w1 * 523776 + a0) mod Q_CONST = v" by simp
  have v: "v = (if w1 * 523776 + a0 < 0 then w1 * 523776 + a0 + Q_CONST else w1 * 523776 + a0)"
    using perturbed_value [OF assms] by (simp only: vv)
  consider (up15) "GAMMA2 < a0" "w1 = 15" | (up) "GAMMA2 < a0" "w1 < 15"
    | (down0) "a0 < - GAMMA2" "w1 = 0" | (down) "a0 \<le> - GAMMA2" "0 < w1"
    | (zero) "- GAMMA2 \<le> a0" "a0 < 0" "w1 = 0"
    | (mid) "a0 \<le> GAMMA2" "- GAMMA2 < a0" "0 \<le> w1 * 523776 + a0"
    using assms by linarith
  then have "decompose v =
    (if GAMMA2 < a0 then (if w1 = 15 then (0, a0 - 2 * GAMMA2 - 1) else (w1 + 1, a0 - 2 * GAMMA2))
     else if a0 < - GAMMA2 \<or> (a0 = - GAMMA2 \<and> w1 \<noteq> 0)
       then (if w1 = 0 then (15, a0 + 2 * GAMMA2 + 1) else (w1 - 1, a0 + 2 * GAMMA2))
     else (w1, a0))"
  proof cases
    case up15
    with assms v have "v = a0 + 7856640" by simp
    with up15 assms show ?thesis by (simp add: decompose_wrap)
  next
    case up
    with assms v have "v = (w1 + 1) * 523776 + (a0 - 523776)" by simp
    from decompose_inner [OF this] up assms show ?thesis by simp
  next
    case down0
    with assms v have "v = 15 * 523776 + (a0 + 523777)" by simp
    from decompose_inner [OF this] down0 assms show ?thesis by simp
  next
    case down
    with assms v have "v = (w1 - 1) * 523776 + (a0 + 523776)" by simp
    from decompose_inner [OF this] down assms show ?thesis by auto
  next
    case zero
    with assms v have "v = a0 + Q_CONST" by simp
    with zero assms show ?thesis by (simp add: decompose_wrap)
  next
    case mid
    with v have "v = w1 * 523776 + a0" by simp
    from decompose_inner [OF this] mid assms show ?thesis by simp
  qed
  then show ?thesis by (simp only: vv)
qed

lemma use_make_hint:
  assumes "0 \<le> w1" "w1 < 16" "\<bar>a0\<bar> < 2 * GAMMA2"
  shows "use_hint ((w1 * 523776 + a0) mod Q_CONST) (make_hint a0 w1) = w1"
proof -
  let ?v = "(w1 * 523776 + a0) mod Q_CONST"
  have mh: "make_hint a0 w1 = (if GAMMA2 < a0 \<or> a0 < - GAMMA2 \<or> (a0 = - GAMMA2 \<and> w1 \<noteq> 0) then 1 else 0)"
    using assms by (intro make_hint_eq) simp_all
  have "use_hint ?v h = fips_use_hint (h \<noteq> 0) ?v" if "h \<in> {0, 1}" for h
    using that by (intro use_hint_eq) auto
  then have "use_hint ?v (make_hint a0 w1) = fips_use_hint (make_hint a0 w1 \<noteq> 0) ?v"
    by (simp add: mh)
  moreover have "fips_decompose ?v = decompose ?v" by (intro decompose_fips [symmetric]) simp_all
  ultimately show ?thesis
    using assms by (auto simp: fips_use_hint_def mh perturbed_decompose zmod_minus1)
qed

text \<open>
  For every product of a 32-bit value with a residue, and in general for every \<open>int64_t\<close>
  below \<open>2^31 q\<close> in absolute value, \<open>montgomery_reduce\<close> returns without overflow the value below q
  in absolute value that is the argument times \<open>2^-32\<close> modulo q.
\<close>

theorem montgomery_reduce_correct:
  assumes "\<bar>a\<bar> < 2147483648 * 8380417"
  shows "(4294967296 * montgomery_reduce a) mod 8380417 = a mod 8380417 \<and> \<bar>montgomery_reduce a\<bar> < 8380417"
  using montgomery_reduce_eqm [OF assms] montgomery_reduce_exact(2) [OF assms] by (simp add: eqm_mod)

theorem montgomery_reduce_correct_witness:
  "montgomery_reduce 17996808470921215 = 114592 \<and>
   (4294967296 * montgomery_reduce 17996808470921215) mod 8380417 = 17996808470921215 mod 8380417"
  using montgomery_reduce_correct [of 17996808470921215] by code_simp

text \<open>
  C28.  The branchless rounding code computes FIPS 204: on every residue, \<open>power2_round\<close> is
  Power2Round (algorithm 35), \<open>decompose\<close> is Decompose (algorithm 36) and \<open>use_hint\<close> is UseHint
  (algorithm 40) for every hint value other than \<open>INT32_MIN\<close>.
\<close>

theorem rounding_is_fips204:
  assumes "0 \<le> a" "a < 8380417" "- 2147483648 < h" "h < 2147483648"
  shows "power2_round a = fips_power2round a \<and> decompose a = fips_decompose a \<and>
         use_hint a h = fips_use_hint (h \<noteq> 0) a"
  using power2_round_fips decompose_fips use_hint_eq assms by simp

theorem rounding_is_fips204_witness:
  "power2_round 8380416 = (1023, 0) \<and> decompose 8380416 = (0, -1) \<and> use_hint 8380416 1 = 15
   \<and> power2_round 8380416 = fips_power2round 8380416"
  using rounding_is_fips204 [of 8380416 1] by code_simp

text \<open>
  C25.  The law of hints: whatever high bits \<open>w1\<close> the signer committed to, and whatever low part \<open>a0\<close>
  of less than one full step it is left with after subtracting \<open>c s2\<close> and adding \<open>c t0\<close>, the hint
  bit \<open>make_hint a0 w1\<close> makes \<open>use_hint\<close> recover \<open>w1\<close> from the perturbed value.
\<close>

theorem use_hint_recovers_high_bits:
  assumes "0 \<le> w1" "w1 < 16" "\<bar>a0\<bar> < 2 * 261888"
  shows "use_hint ((w1 * (2 * 261888) + a0) mod 8380417) (make_hint a0 w1) = w1"
  using use_make_hint [OF assms] by simp

theorem use_hint_recovers_high_bits_witness:
  "make_hint (- 523775) 0 = 1 \<and> use_hint ((0 * (2 * 261888) + - 523775) mod 8380417) (make_hint (- 523775) 0) = 0
   \<and> use_hint ((0 * (2 * 261888) + - 523775) mod 8380417) 0 = 15"
  using use_hint_recovers_high_bits [of 0 "- 523775"] by code_simp

end
