(* ===== verification/NTT.thy ===== *)
theory NTT
  imports Rounding
begin

text \<open>
  The number theoretic transform of \<open>ntt.c\<close> with the table \<open>ZETAS\<close> of \<open>constant.c\<close>.  The triple loops
  are translated as they stand (an array updated in place, the running index \<open>k\<close> into the table).
  Layer by layer, they are shown to be free of overflow, to evaluate the polynomial at the 256
  roots of \<open>X^256 + 1\<close>, and to be inverse to each other up to the Montgomery factor; together this
  makes transform, pointwise product and inverse transform the multiplication of the ring
  \<open>Z_q[X] / (X^256 + 1)\<close>.
\<close>

subsection \<open>ZETAS of constant.c\<close>

definition ZETAS :: "int list" where
  "ZETAS =
    [
     0, 25847, - 2608894, - 518909, 237124, - 777960, - 876248, 466468, 1826347, 2353451,
     - 359251, - 2091905, 3119733, - 2884855, 3111497, 2680103, 2725464, 1024112, - 1079900, 3585928,
     - 549488, - 1119584, 2619752, - 2108549, - 2118186, - 3859737, - 1399561, - 3277672, 1757237, - 19422,
     4010497, 280005, 2706023, 95776, 3077325, 3530437, - 1661693, - 3592148, - 2537516, 3915439,
     - 3861115, - 3043716, 3574422, - 2867647, 3539968, - 300467, 2348700, - 539299, - 1699267, - 1643818,
     3505694, - 3821735, 3507263, - 2140649, - 1600420, 3699596, 811944, 531354, 954230, 3881043,
     3900724, - 2556880, 2071892, - 2797779, - 3930395, - 1528703, - 3677745, - 3041255, - 1452451, 3475950,
     2176455, - 1585221, - 1257611, 1939314, - 4083598, - 1000202, - 3190144, - 3157330, - 3632928, 126922,
     3412210, - 983419, 2147896, 2715295, - 2967645, - 3693493, - 411027, - 2477047, - 671102, - 1228525,
     - 22981, - 1308169, - 381987, 1349076, 1852771, - 1430430, - 3343383, 264944, 508951, 3097992,
     44288, - 1100098, 904516, 3958618, - 3724342, - 8578, 1653064, - 3249728, 2389356, - 210977,
     759969, - 1316856, 189548, - 3553272, 3159746, - 1851402, - 2409325, - 177440, 1315589, 1341330,
     1285669, - 1584928, - 812732, - 1439742, - 3019102, - 3881060, - 3628969, 3839961, 2091667, 3407706,
     2316500, 3817976, - 3342478, 2244091, - 2446433, - 3562462, 266997, 2434439, - 1235728, 3513181,
     - 3520352, - 3759364, - 1197226, - 3193378, 900702, 1859098, 909542, 819034, 495491, - 1613174,
     - 43260, - 522500, - 655327, - 3122442, 2031748, 3207046, - 3556995, - 525098, - 768622, - 3595838,
     342297, 286988, - 2437823, 4108315, 3437287, - 3342277, 1735879, 203044, 2842341, 2691481,
     - 2590150, 1265009, 4055324, 1247620, 2486353, 1595974, - 3767016, 1250494, 2635921, - 3548272,
     - 2994039, 1869119, 1903435, - 1050970, - 1333058, 1237275, - 3318210, - 1430225, - 451100, 1312455,
     3306115, - 1962642, - 1279661, 1917081, - 2546312, - 1374803, 1500165, 777191, 2235880, 3406031,
     - 542412, - 2831860, - 1671176, - 1846953, - 2584293, - 3724270, 594136, - 3776993, - 2013608, 2432395,
     2454455, - 164721, 1957272, 3369112, 185531, - 1207385, - 3183426, 162844, 1616392, 3014001,
     810149, 1652634, - 3694233, - 1799107, - 3038916, 3523897, 3866901, 269760, 2213111, - 975884,
     1717735, 472078, - 426683, 1723600, - 1803090, 1910376, - 1667432, - 1104333, - 260646, - 3833893,
     - 2939036, - 2235985, - 420899, - 2286327, 183443, - 976891, 1612842, - 3545687, - 554416, 3919660,
     - 48306, - 1362209, 3937738, 1400424, - 846154, 1976782
    ]"

subsection \<open>The transforms of ntt.c\<close>

type_synonym poly = "int list"

text \<open>One iteration of the innermost loop of \<open>ntt\<close>.\<close>

definition ntt_butterfly :: "int \<Rightarrow> nat \<Rightarrow> nat \<Rightarrow> poly \<Rightarrow> poly" where
  "ntt_butterfly zeta count j a =
     (let t = montgomery_reduce (i64 (zeta * a ! (j + count)));
          a = a[j + count := i32 (a ! j - t)]
      in a[j := i32 (a ! j + t)])"

text \<open>The loop \<open>for (j = start; j < start + count; j++)\<close>.\<close>

definition ntt_block :: "int \<Rightarrow> nat \<Rightarrow> nat \<Rightarrow> poly \<Rightarrow> poly" where
  "ntt_block zeta count start a = fold (ntt_butterfly zeta count) [start..<start + count] a"

text \<open>The loop \<open>for (start = 0; start < N; start = j + count)\<close>; \<open>j\<close> has left the inner loop as \<open>start + count\<close>.\<close>

function ntt_starts :: "nat \<Rightarrow> nat \<Rightarrow> nat \<Rightarrow> poly \<Rightarrow> nat \<times> poly" where
  "ntt_starts count start k a =
     (if start < N \<and> 0 < count
      then ntt_starts count (start + count + count) (k + 1) (ntt_block (ZETAS ! (k + 1)) count start a)
      else (k, a))"
  by pat_completeness auto
termination
  by (relation "measure (\<lambda>(count, start, k, a). N - start)") auto

text \<open>The loop \<open>for (count = 128; count > 0; count >>= 1)\<close>.\<close>

function ntt_layers :: "nat \<Rightarrow> nat \<Rightarrow> poly \<Rightarrow> poly" where
  "ntt_layers count k a =
     (if 0 < count
      then (let (k, a) = ntt_starts count 0 k a in ntt_layers (count div 2) k a)
      else a)"
  by pat_completeness auto
termination
  by (relation "measure (\<lambda>(count, k, a). count)") auto

definition ntt :: "poly \<Rightarrow> poly" where
  "ntt a = ntt_layers 128 0 a"

definition inv_butterfly :: "int \<Rightarrow> nat \<Rightarrow> nat \<Rightarrow> poly \<Rightarrow> poly" where
  "inv_butterfly zeta count j a =
     (let t = a ! j;
          a = a[j := i32 (t + a ! (j + count))];
          a = a[j + count := i32 (t - a ! (j + count))]
      in a[j + count := montgomery_reduce (i64 (zeta * a ! (j + count)))])"

definition inv_block :: "int \<Rightarrow> nat \<Rightarrow> nat \<Rightarrow> poly \<Rightarrow> poly" where
  "inv_block zeta count start a = fold (inv_butterfly zeta count) [start..<start + count] a"

function inv_starts :: "nat \<Rightarrow> nat \<Rightarrow> nat \<Rightarrow> poly \<Rightarrow> nat \<times> poly" where
  "inv_starts count start k a =
     (if start < N \<and> 0 < count
      then inv_starts count (start + count + count) (k - 1) (inv_block (i32 (- (ZETAS ! (k - 1)))) count start a)
      else (k, a))"
  by pat_completeness auto
termination
  by (relation "measure (\<lambda>(count, start, k, a). N - start)") auto

function inv_layers :: "nat \<Rightarrow> nat \<Rightarrow> poly \<Rightarrow> poly" where
  "inv_layers count k a =
     (if 0 < count \<and> count < N
      then (let (k, a) = inv_starts count 0 k a in inv_layers (2 * count) k a)
      else a)"
  by pat_completeness auto
termination
  by (relation "measure (\<lambda>(count, k, a). N - count)") auto

definition inv_ntt_to_mont :: "poly \<Rightarrow> poly" where
  "inv_ntt_to_mont a = map (\<lambda>x. montgomery_reduce (i64 (41978 * x))) (inv_layers 1 256 a)"

declare ntt_starts.simps [simp del] ntt_layers.simps [simp del] inv_starts.simps [simp del] inv_layers.simps [simp del]

subsection \<open>What one layer computes\<close>

text \<open>The products of the loops: \<open>mont z x\<close> is \<open>z x 2^-32\<close> modulo q.\<close>

definition mont :: "int \<Rightarrow> int \<Rightarrow> int" where
  "mont z x = montgomery_reduce (i64 (z * x))"

lemma length_ntt_block [simp]: "length (ntt_block z c s a) = length a"
proof -
  have "length (fold (ntt_butterfly z c) js a) = length a" for js
    by (induction js arbitrary: a) (simp_all add: ntt_butterfly_def Let_def)
  then show ?thesis by (simp add: ntt_block_def)
qed

lemma length_inv_block [simp]: "length (inv_block z c s a) = length a"
proof -
  have "length (fold (inv_butterfly z c) js a) = length a" for js
    by (induction js arbitrary: a) (simp_all add: inv_butterfly_def Let_def)
  then show ?thesis by (simp add: inv_block_def)
qed

lemma nth_ntt_block:
  assumes "s + 2 * c \<le> length a"
  shows "ntt_block z c s a ! i =
    (if s \<le> i \<and> i < s + c then i32 (a ! i + mont z (a ! (i + c)))
     else if s + c \<le> i \<and> i < s + 2 * c then i32 (a ! (i - c) - mont z (a ! i))
     else a ! i)"
proof -
  have "fold (ntt_butterfly z c) [s..<s + n] a ! i =
    (if s \<le> i \<and> i < s + n then i32 (a ! i + mont z (a ! (i + c)))
     else if s + c \<le> i \<and> i < s + c + n then i32 (a ! (i - c) - mont z (a ! i))
     else a ! i) \<and> length (fold (ntt_butterfly z c) [s..<s + n] a) = length a"
    if "n \<le> c" for n i
    using that
  proof (induction n arbitrary: i)
    case (Suc n)
    let ?b = "fold (ntt_butterfly z c) [s..<s + n] a"
    from Suc have b: "length ?b = length a" "?b ! (s + n) = a ! (s + n)" "?b ! (s + n + c) = a ! (s + n + c)"
      by simp_all
    from Suc show ?case
      using assms b by (auto simp: ntt_butterfly_def Let_def mont_def nth_list_update add.commute add.left_commute)
  qed simp
  from this [of c i] show ?thesis by (simp add: ntt_block_def mult_2 add.assoc)
qed

lemma nth_inv_block:
  assumes "s + 2 * c \<le> length a"
  shows "inv_block z c s a ! i =
    (if s \<le> i \<and> i < s + c then i32 (a ! i + a ! (i + c))
     else if s + c \<le> i \<and> i < s + 2 * c then mont z (i32 (a ! (i - c) - a ! i))
     else a ! i)"
proof -
  have "fold (inv_butterfly z c) [s..<s + n] a ! i =
    (if s \<le> i \<and> i < s + n then i32 (a ! i + a ! (i + c))
     else if s + c \<le> i \<and> i < s + c + n then mont z (i32 (a ! (i - c) - a ! i))
     else a ! i) \<and> length (fold (inv_butterfly z c) [s..<s + n] a) = length a"
    if "n \<le> c" for n i
    using that
  proof (induction n arbitrary: i)
    case (Suc n)
    let ?b = "fold (inv_butterfly z c) [s..<s + n] a"
    from Suc have b: "length ?b = length a" "?b ! (s + n) = a ! (s + n)" "?b ! (s + n + c) = a ! (s + n + c)"
      by simp_all
    from Suc show ?case
      using assms b by (auto simp: inv_butterfly_def Let_def mont_def nth_list_update add.commute add.left_commute)
  qed simp
  from this [of c i] show ?thesis by (simp add: inv_block_def mult_2 add.assoc)
qed

definition fwd_at :: "nat \<Rightarrow> nat \<Rightarrow> poly \<Rightarrow> nat \<Rightarrow> int" where
  "fwd_at k c a i =
     (let z = ZETAS ! (k + i div (2 * c))
      in if i mod (2 * c) < c then i32 (a ! i + mont z (a ! (i + c)))
         else i32 (a ! (i - c) - mont z (a ! i)))"

definition inv_at :: "nat \<Rightarrow> nat \<Rightarrow> poly \<Rightarrow> nat \<Rightarrow> int" where
  "inv_at k c a i =
     (let z = i32 (- (ZETAS ! (k - 1 - i div (2 * c))))
      in if i mod (2 * c) < c then i32 (a ! i + a ! (i + c))
         else mont z (i32 (a ! (i - c) - a ! i)))"

definition fwd_layer :: "nat \<Rightarrow> poly \<Rightarrow> poly" where
  "fwd_layer c a = map (fwd_at (128 div c) c a) [0..<N]"

definition inv_layer :: "nat \<Rightarrow> poly \<Rightarrow> poly" where
  "inv_layer c a = map (inv_at (256 div c) c a) [0..<N]"

lemma length_layer [simp]: "length (fwd_layer c a) = 256" "length (inv_layer c a) = 256"
  by (simp_all add: fwd_layer_def inv_layer_def)

text \<open>The block an index lies in, and its place there.\<close>

lemma block_index:
  fixes i b c :: nat
  assumes "b * (2 * c) \<le> i" "i < b * (2 * c) + 2 * c"
  shows "i div (2 * c) = b" "i mod (2 * c) = i - b * (2 * c)"
proof -
  obtain r where r: "i = b * (2 * c) + r" "r < 2 * c"
    using assms by (metis add.commute le_add_diff_inverse2 less_diff_conv2 nat_add_left_cancel_less)
  then show "i div (2 * c) = b" "i mod (2 * c) = i - b * (2 * c)" by auto
qed

lemma block_cases:
  fixes i c :: nat
  assumes "m * (2 * c) = 256" "i < 256"
  obtains (lo) b r where "b < m" "r < c" "i = b * (2 * c) + r"
  | (hi) b r where "b < m" "r < c" "i = b * (2 * c) + c + r"
proof -
  have c: "0 < c" using assms by (cases c) simp_all
  have b: "i div (2 * c) < m" by (rule less_mult_imp_div_less) (simp only: assms)
  have i: "i = i div (2 * c) * (2 * c) + i mod (2 * c)" by (simp only: div_mult_mod_eq)
  show thesis
  proof (cases "i mod (2 * c) < c")
    case True
    with that(1) b i show thesis by blast
  next
    case False
    have "i mod (2 * c) - c < c"
      using c False mod_less_divisor [of "2 * c" i] by linarith
    with that(2) [OF b this] i False show thesis by linarith
  qed
qed

lemma ntt_starts_layer:
  assumes "length a = 256" "m * (2 * c) = 256" "b \<le> m"
  shows "fst (ntt_starts c (b * (2 * c)) (k + b) a) = k + m
    \<and> length (snd (ntt_starts c (b * (2 * c)) (k + b) a)) = 256
    \<and> (\<forall>i < 256. snd (ntt_starts c (b * (2 * c)) (k + b) a) ! i =
      (if i < b * (2 * c) then a ! i else fwd_at (k + 1) c a i))"
  using assms(3,1)
proof (induction b arbitrary: a rule: inc_induct)
  case base
  then show ?case
    unfolding assms(2) by (simp add: ntt_starts.simps [of c 256])
next
  case (step b)
  have c: "0 < c" using assms(2) by (cases c) simp_all
  have le: "b * (2 * c) + 2 * c \<le> 256"
    using step.hyps(2) mult_le_mono1 [of "b + 1" m "2 * c"] unfolding assms(2) by simp
  define A where "A = ntt_block (ZETAS ! (k + b + 1)) c (b * (2 * c)) a"
  have eq: "ntt_starts c (b * (2 * c)) (k + b) a = ntt_starts c (Suc b * (2 * c)) (k + Suc b) A"
  proof -
    have "b * (2 * c) + c + c = Suc b * (2 * c)" "k + b + 1 = k + Suc b" by simp_all
    with le c show ?thesis by (subst ntt_starts.simps) (simp add: A_def del: mult_Suc)
  qed
  have len: "length A = 256" using step.prems by (simp add: A_def)
  have nth: "A ! i = (if b * (2 * c) \<le> i \<and> i < Suc b * (2 * c) then fwd_at (k + 1) c a i else a ! i)" for i
    using le step.prems block_index [of b c i]
    by (auto simp: A_def nth_ntt_block fwd_at_def Let_def)
  have far: "fwd_at (k + 1) c A i = fwd_at (k + 1) c a i" if "Suc b * (2 * c) \<le> i" for i
  proof (cases "i mod (2 * c) < c")
    case True
    with that show ?thesis by (simp add: fwd_at_def nth)
  next
    case False
    with that c block_index(2) [of "Suc b" c i] have "Suc b * (2 * c) \<le> i - c" by fastforce
    with False that show ?thesis by (simp add: fwd_at_def nth)
  qed
  show ?case
    unfolding eq using step.IH [OF len] far nth by auto
qed

lemma ntt_starts_eq:
  assumes "length a = 256" "m * (2 * c) = 256" "k + 1 = m"
  shows "ntt_starts c 0 k a = (k + m, fwd_layer c a)"
proof -
  have c: "0 < c" using assms(2) by (cases c) simp_all
  have "m * c = 128" using assms(2) by (simp add: mult.commute)
  then have "128 div c = k + 1" using c assms(3) by (metis nonzero_mult_div_cancel_right not_less_zero)
  then show ?thesis
    using ntt_starts_layer [OF assms(1,2), of 0 k]
    by (intro prod_eqI) (simp_all add: fwd_layer_def list_eq_iff_nth_eq)
qed

lemma inv_starts_layer:
  assumes "length a = 256" "m * (2 * c) = 256" "b \<le> m" "m \<le> k"
  shows "fst (inv_starts c (b * (2 * c)) (k - b) a) = k - m
    \<and> length (snd (inv_starts c (b * (2 * c)) (k - b) a)) = 256
    \<and> (\<forall>i < 256. snd (inv_starts c (b * (2 * c)) (k - b) a) ! i =
      (if i < b * (2 * c) then a ! i else inv_at k c a i))"
  using assms(3,1)
proof (induction b arbitrary: a rule: inc_induct)
  case base
  then show ?case
    unfolding assms(2) by (simp add: inv_starts.simps [of c 256])
next
  case (step b)
  have c: "0 < c" using assms(2) by (cases c) simp_all
  have le: "b * (2 * c) + 2 * c \<le> 256"
    using step.hyps(2) mult_le_mono1 [of "b + 1" m "2 * c"] unfolding assms(2) by simp
  define A where "A = inv_block (i32 (- (ZETAS ! (k - b - 1)))) c (b * (2 * c)) a"
  have eq: "inv_starts c (b * (2 * c)) (k - b) a = inv_starts c (Suc b * (2 * c)) (k - Suc b) A"
  proof -
    have "b * (2 * c) + c + c = Suc b * (2 * c)" "k - b - 1 = k - Suc b" by simp_all
    with le c show ?thesis by (subst inv_starts.simps) (simp add: A_def del: mult_Suc)
  qed
  have len: "length A = 256" using step.prems by (simp add: A_def)
  have nth: "A ! i = (if b * (2 * c) \<le> i \<and> i < Suc b * (2 * c) then inv_at k c a i else a ! i)" for i
    using le step.prems block_index [of b c i]
    by (auto simp: A_def nth_inv_block inv_at_def Let_def diff_commute)
  have far: "inv_at k c A i = inv_at k c a i" if "Suc b * (2 * c) \<le> i" for i
  proof (cases "i mod (2 * c) < c")
    case True
    with that show ?thesis by (simp add: inv_at_def nth)
  next
    case False
    with that c block_index(2) [of "Suc b" c i] have "Suc b * (2 * c) \<le> i - c" by fastforce
    with False that show ?thesis by (simp add: inv_at_def nth)
  qed
  show ?case
    unfolding eq using step.IH [OF len] far nth by auto
qed

lemma inv_starts_eq:
  assumes "length a = 256" "m * (2 * c) = 256"
  shows "inv_starts c 0 (2 * m) a = (m, inv_layer c a)"
proof -
  have c: "0 < c" using assms(2) by (cases c) simp_all
  have "2 * m * c = 256" using assms(2) by simp
  then have "256 div c = 2 * m" using c by (metis nonzero_mult_div_cancel_right not_less_zero)
  then show ?thesis
    using inv_starts_layer [OF assms(1,2), of 0 "2 * m"]
    by (intro prod_eqI) (simp_all add: inv_layer_def list_eq_iff_nth_eq)
qed

lemma ntt_eq_layers:
  assumes "length a = 256"
  shows "ntt a = fold fwd_layer [128, 64, 32, 16, 8, 4, 2, 1] a"
  using assms
  by (simp add: ntt_def ntt_layers.simps ntt_starts_eq [where m = 1] ntt_starts_eq [where m = 2]
      ntt_starts_eq [where m = 4] ntt_starts_eq [where m = 8] ntt_starts_eq [where m = 16]
      ntt_starts_eq [where m = 32] ntt_starts_eq [where m = 64] ntt_starts_eq [where m = 128])

lemma inv_ntt_eq_layers:
  assumes "length a = 256"
  shows "inv_ntt_to_mont a = map (mont 41978) (fold inv_layer [1, 2, 4, 8, 16, 32, 64, 128] a)"
  using assms inv_starts_eq [where m = 1] inv_starts_eq [where m = 2] inv_starts_eq [where m = 4]
    inv_starts_eq [where m = 8] inv_starts_eq [where m = 16] inv_starts_eq [where m = 32]
    inv_starts_eq [where m = 64] inv_starts_eq [where m = 128]
  by (simp add: inv_ntt_to_mont_def inv_layers.simps mont_def)

subsection \<open>The table\<close>

lemma length_ZETAS: "length ZETAS = 256"
  by (simp add: ZETAS_def)

lemma ZETAS_bound: "n < 256 \<Longrightarrow> \<bar>ZETAS ! n\<bar> \<le> 4108315"
proof -
  have "list_all (\<lambda>z. \<bar>z\<bar> \<le> 4108315) ZETAS" by (simp add: ZETAS_def)
  then show "n < 256 \<Longrightarrow> \<bar>ZETAS ! n\<bar> \<le> 4108315" by (simp add: list_all_length length_ZETAS)
qed

text \<open>The table entries without their Montgomery factor.\<close>

definition zr :: "nat \<Rightarrow> int" where
  "zr n = (ZETAS ! n * MONT_INV) mod Q_CONST"

lemma zr_mont: "eqm (4294967296 * zr n) (ZETAS ! n)"
proof -
  have "eqm (zr n) (ZETAS ! n * MONT_INV)" by (simp add: eqm_mod zr_def)
  then have "eqm (4294967296 * zr n) (4294967296 * (ZETAS ! n * MONT_INV))"
    by (rule eqm_mult [OF eqm_refl])
  also have "4294967296 * (ZETAS ! n * MONT_INV) = 4294967296 * MONT_INV * ZETAS ! n" by simp
  also have "eqm (4294967296 * MONT_INV * ZETAS ! n) (1 * ZETAS ! n)"
    by (rule eqm_mult [OF mont_inv eqm_refl])
  finally show ?thesis by simp
qed

text \<open>They are the powers of 1753 that appendix B of FIPS 204 lists (entry 0, not used, is 0 here).\<close>

definition fips_zetas :: "int list" where
  "fips_zetas =
    [
     0, 4808194, 3765607, 3761513, 5178923, 5496691, 5234739, 5178987, 7778734, 3542485, 2682288, 2129892,
     3764867, 7375178, 557458, 7159240, 5010068, 4317364, 2663378, 6705802, 4855975, 7946292, 676590, 7044481,
     5152541, 1714295, 2453983, 1460718, 7737789, 4795319, 2815639, 2283733, 3602218, 3182878, 2740543, 4793971,
     5269599, 2101410, 3704823, 1159875, 394148, 928749, 1095468, 4874037, 2071829, 4361428, 3241972, 2156050,
     3415069, 1759347, 7562881, 4805951, 3756790, 6444618, 6663429, 4430364, 5483103, 3192354, 556856, 3870317,
     2917338, 1853806, 3345963, 1858416, 3073009, 1277625, 5744944, 3852015, 4183372, 5157610, 5258977, 8106357,
     2508980, 2028118, 1937570, 4564692, 2811291, 5396636, 7270901, 4158088, 1528066, 482649, 1148858, 5418153,
     7814814, 169688, 2462444, 5046034, 4213992, 4892034, 1987814, 5183169, 1736313, 235407, 5130263, 3258457,
     5801164, 1787943, 5989328, 6125690, 3482206, 4197502, 7080401, 6018354, 7062739, 2461387, 3035980, 621164,
     3901472, 7153756, 2925816, 3374250, 1356448, 5604662, 2683270, 5601629, 4912752, 2312838, 7727142, 7921254,
     348812, 8052569, 1011223, 6026202, 4561790, 6458164, 6143691, 1744507, 1753, 6444997, 5720892, 6924527,
     2660408, 6600190, 8321269, 2772600, 1182243, 87208, 636927, 4415111, 4423672, 6084020, 5095502, 4663471,
     8352605, 822541, 1009365, 5926272, 6400920, 1596822, 4423473, 4620952, 6695264, 4969849, 2678278, 4611469,
     4829411, 635956, 8129971, 5925040, 4234153, 6607829, 2192938, 6653329, 2387513, 4768667, 8111961, 5199961,
     3747250, 2296099, 1239911, 4541938, 3195676, 2642980, 1254190, 8368000, 2998219, 141835, 8291116, 2513018,
     7025525, 613238, 7070156, 6161950, 7921677, 6458423, 4040196, 4908348, 2039144, 6500539, 7561656, 6201452,
     6757063, 2105286, 6006015, 6346610, 586241, 7200804, 527981, 5637006, 6903432, 1994046, 2491325, 6987258,
     507927, 7192532, 7655613, 6545891, 5346675, 8041997, 2647994, 3009748, 5767564, 4148469, 749577, 4357667,
     3980599, 2569011, 6764887, 1723229, 1665318, 2028038, 1163598, 5011144, 3994671, 8368538, 7009900, 3020393,
     3363542, 214880, 545376, 7609976, 3105558, 7277073, 508145, 7826699, 860144, 3430436, 140244, 6866265,
     6195333, 3123762, 2358373, 6187330, 5365997, 6663603, 2926054, 7987710, 8077412, 3531229, 4405932, 4606686,
     1900052, 7598542, 1054478, 7648983
    ]"

lemma ZETAS_fips: "map (\<lambda>z. (z * MONT_INV) mod Q_CONST) ZETAS = fips_zetas"
  by code_simp

lemma length_fips_zetas: "length fips_zetas = 256"
  by (simp add: fips_zetas_def)

lemma zr_eq: "n < 256 \<Longrightarrow> zr n = fips_zetas ! n"
  by (simp add: zr_def ZETAS_fips [symmetric] length_ZETAS)

text \<open>
  The entries form a binary tree: node \<open>n\<close> is a square root of the value of the branch that leads
  to it, \<open>zr (n div 2)\<close> for an even and \<open>- zr (n div 2)\<close> for an odd child; the root is a square root of -1.
\<close>

fun tree_ok :: "int list \<Rightarrow> int list \<Rightarrow> bool" where
  "tree_ok (p # ps) (x # y # zs) \<longleftrightarrow> (x * x - p) mod Q_CONST = 0 \<and> (y * y + p) mod Q_CONST = 0 \<and> tree_ok ps zs"
| "tree_ok _ [] \<longleftrightarrow> True"
| "tree_ok _ _ \<longleftrightarrow> False"

lemma tree_ok_nth:
  "tree_ok ps zs \<Longrightarrow> 2 * n + 1 < length zs \<Longrightarrow>
   eqm (zs ! (2 * n) * zs ! (2 * n)) (ps ! n) \<and> eqm (zs ! (2 * n + 1) * zs ! (2 * n + 1)) (- (ps ! n))"
proof (induction ps zs arbitrary: n rule: tree_ok.induct)
  case (1 p ps x y zs)
  then show ?case by (cases n) (auto simp: eqm_def dvd_eq_mod_eq_0)
qed simp_all

lemma zr_tree_ok: "tree_ok (drop 1 fips_zetas) (drop 2 fips_zetas)"
  by code_simp

lemma zr_root: "eqm (zr 1 * zr 1) (- 1)"
  by (simp add: zr_eq fips_zetas_def eqm_def)

lemma zr_children:
  assumes "1 \<le> n" "n < 128"
  shows "eqm (zr (2 * n) * zr (2 * n)) (zr n)" "eqm (zr (2 * n + 1) * zr (2 * n + 1)) (- zr n)"
proof -
  note len = length_fips_zetas
  from assms obtain k where k: "n = k + 1" by (metis add.commute le_Suc_ex)
  from tree_ok_nth [OF zr_tree_ok, of k] assms len k
  show "eqm (zr (2 * n) * zr (2 * n)) (zr n)" "eqm (zr (2 * n + 1) * zr (2 * n + 1)) (- zr n)"
    by (simp_all add: zr_eq)
qed

text \<open>Within a layer of \<open>m\<close> blocks, the inverse uses the entries in reverse order.\<close>

definition mirror_ok :: "nat \<Rightarrow> bool" where
  "mirror_ok m \<longleftrightarrow>
     list_all2 (\<lambda>x y. (x * y + 1) mod Q_CONST = 0) (chunk m m fips_zetas) (rev (chunk m m fips_zetas))"

lemma mirror_ok_all: "list_all mirror_ok [1, 2, 4, 8, 16, 32, 64, 128]"
  by (simp add: mirror_ok_def chunk_def fips_zetas_def)

lemma zr_mirror:
  assumes "m \<in> {1, 2, 4, 8, 16, 32, 64, 128}" "b < m"
  shows "eqm (zr (m + b) * zr (2 * m - 1 - b)) (- 1)"
proof -
  note len = length_fips_zetas
  have m: "m + m \<le> 256" "mirror_ok m" using assms(1) mirror_ok_all by auto
  have rev: "rev (chunk m m fips_zetas) ! b = fips_zetas ! (2 * m - 1 - b)"
    using assms(2) m len by (simp add: rev_nth mult_2)
  have "(chunk m m fips_zetas ! b * rev (chunk m m fips_zetas) ! b + 1) mod Q_CONST = 0"
    using m assms(2) len by (simp add: mirror_ok_def list_all2_conv_all_nth)
  then show ?thesis
    using assms(2) m len by (simp add: rev zr_eq eqm_def dvd_eq_mod_eq_0)
qed

subsection \<open>No overflow\<close>

definition bounded :: "int \<Rightarrow> poly \<Rightarrow> bool" where
  "bounded B a \<longleftrightarrow> length a = N \<and> list_all (\<lambda>x. \<bar>x\<bar> < B) a"

lemma boundedI: "length a = 256 \<Longrightarrow> (\<And>i. i < 256 \<Longrightarrow> \<bar>a ! i\<bar> < B) \<Longrightarrow> bounded B a"
  by (simp add: bounded_def list_all_length)

lemma bounded_nth: "bounded B a \<Longrightarrow> i < 256 \<Longrightarrow> \<bar>a ! i\<bar> < B"
  by (simp add: bounded_def list_all_length)

lemma bounded_length: "bounded B a \<Longrightarrow> length a = 256"
  by (simp add: bounded_def)

lemma bounded_mono: "bounded B a \<Longrightarrow> B \<le> C \<Longrightarrow> bounded C a"
  by (auto simp: bounded_def list_all_iff)

text \<open>Montgomery products, also for the final factor 41978 of the inverse.\<close>

lemma mont_correct:
  assumes "\<bar>z\<bar> \<le> 4194304" "\<bar>x\<bar> < 2147483648"
  shows "eqm (4294967296 * mont z x) (z * x)" "\<bar>mont z x\<bar> < Q_CONST"
    "2 * \<bar>mont z x\<bar> \<le> Q_CONST + \<bar>z * x\<bar> div 2147483648 + 1"
proof -
  have "\<bar>z\<bar> * \<bar>x\<bar> \<le> 4194304 * 2147483648"
    using assms by (intro mult_mono) simp_all
  then have b: "\<bar>z * x\<bar> \<le> 4194304 * 2147483648" by (simp add: abs_mult)
  then have m: "mont z x = montgomery_reduce (z * x)" by (simp add: mont_def abs_le_iff)
  from b have b': "\<bar>z * x\<bar> < 2147483648 * Q_CONST" by simp
  show "eqm (4294967296 * mont z x) (z * x)" "\<bar>mont z x\<bar> < Q_CONST"
    unfolding m by (rule montgomery_reduce_eqm [OF b'] montgomery_reduce_exact(2) [OF b'])+
  have "- 2147483648 \<le> i32 (i32 (z * x) * Q_INV)" "i32 (i32 (z * x) * Q_INV) < 2147483648" by (rule i32_range)+
  then show "2 * \<bar>mont z x\<bar> \<le> Q_CONST + \<bar>z * x\<bar> div 2147483648 + 1"
    using montgomery_reduce_exact(1) [OF b'] unfolding m by linarith
qed

lemma mont_zr:
  assumes "n < 256" "\<bar>x\<bar> < 2147483648"
  shows "eqm (mont (ZETAS ! n) x) (zr n * x)" "eqm (mont (i32 (- (ZETAS ! n))) x) (- (zr n * x))"
    "\<bar>mont (ZETAS ! n) x\<bar> < Q_CONST" "\<bar>mont (i32 (- (ZETAS ! n))) x\<bar> < Q_CONST"
proof -
  have z: "\<bar>ZETAS ! n\<bar> \<le> 4108315" by (rule ZETAS_bound [OF assms(1)])
  then have i: "i32 (- (ZETAS ! n)) = - (ZETAS ! n)" by simp
  have zx: "eqm (4294967296 * (zr n * x)) (ZETAS ! n * x)"
    using eqm_mult [OF zr_mont [of n] eqm_refl [of x]] by (simp add: mult.assoc)
  have p: "eqm (4294967296 * mont (ZETAS ! n) x) (ZETAS ! n * x)"
    using z assms(2) by (intro mont_correct) simp_all
  show "eqm (mont (ZETAS ! n) x) (zr n * x)"
    by (rule eqm_cancel_mont) (rule eqm_trans [OF p eqm_sym [OF zx]])
  have "eqm (4294967296 * mont (- (ZETAS ! n)) x) (- (ZETAS ! n) * x)"
    using z assms(2) by (intro mont_correct) simp_all
  with eqm_minus [OF zx] have "eqm (4294967296 * mont (- (ZETAS ! n)) x) (4294967296 * (- (zr n * x)))"
    by (simp add: eqm_mod)
  then show "eqm (mont (i32 (- (ZETAS ! n))) x) (- (zr n * x))"
    unfolding i by (rule eqm_cancel_mont)
  show "\<bar>mont (ZETAS ! n) x\<bar> < Q_CONST" "\<bar>mont (i32 (- (ZETAS ! n))) x\<bar> < Q_CONST"
    unfolding i using z assms(2) by (simp_all add: mont_correct)
qed

subsection \<open>The layers modulo q\<close>

definition eqml :: "poly \<Rightarrow> poly \<Rightarrow> bool" where
  "eqml a b \<longleftrightarrow> length a = N \<and> length b = N \<and> (\<forall>i < N. eqm (a ! i) (b ! i))"

definition scale :: "int \<Rightarrow> poly \<Rightarrow> poly" where
  "scale k a = map ((*) k) a"

definition pmap :: "(nat \<Rightarrow> int) \<Rightarrow> poly" where
  "pmap f = map f [0..<N]"

lemma nth_pmap [simp]: "i < 256 \<Longrightarrow> pmap f ! i = f i" "length (pmap f) = 256"
  by (simp_all add: pmap_def)

lemma nth_scale [simp]: "i < length a \<Longrightarrow> scale k a ! i = k * a ! i" "length (scale k a) = length a"
  by (simp_all add: scale_def)

lemma eqml_refl: "length a = 256 \<Longrightarrow> eqml a a"
  by (simp add: eqml_def)

lemma eqml_sym: "eqml a b \<Longrightarrow> eqml b a"
  by (simp add: eqml_def eqm_sym)

lemma eqml_trans [trans]: "eqml a b \<Longrightarrow> eqml b c \<Longrightarrow> eqml a c"
  unfolding eqml_def using eqm_trans by blast

lemma eqml_nth: "eqml a b \<Longrightarrow> i < 256 \<Longrightarrow> eqm (a ! i) (b ! i)"
  by (simp add: eqml_def)

lemma eqml_length: "eqml a b \<Longrightarrow> length a = 256 \<and> length b = 256"
  by (simp add: eqml_def)

lemma eqml_scale: "eqml a b \<Longrightarrow> eqm k l \<Longrightarrow> eqml (scale k a) (scale l b)"
  by (simp add: eqml_def eqm_mult)

lemma scale_scale: "scale k (scale l a) = scale (k * l) a"
  by (simp add: scale_def mult.assoc)

text \<open>One layer over the integers modulo q: no wrap-around and no Montgomery factor.\<close>

definition fz :: "nat \<Rightarrow> poly \<Rightarrow> poly" where
  "fz c a = pmap (\<lambda>i. (let z = zr (128 div c + i div (2 * c))
     in if i mod (2 * c) < c then a ! i + z * a ! (i + c) else a ! (i - c) - z * a ! i))"

definition gz :: "nat \<Rightarrow> poly \<Rightarrow> poly" where
  "gz c a = pmap (\<lambda>i. (let z = zr (256 div c - 1 - i div (2 * c))
     in if i mod (2 * c) < c then a ! i + a ! (i + c) else - (z * (a ! (i - c) - a ! i))))"

abbreviation (input) layer_counts :: "nat list" where
  "layer_counts \<equiv> [128, 64, 32, 16, 8, 4, 2, 1]"

text \<open>A layer of \<open>m\<close> blocks of \<open>2 c\<close> coefficients, and the two halves of block \<open>b\<close>.\<close>

lemma layer_cases:
  assumes "c \<in> set layer_counts"
  obtains m where "m \<in> {1, 2, 4, 8, 16, 32, 64, 128}" "m * (2 * c) = 256" "0 < c" "128 div c = m" "256 div c = 2 * m"
proof (rule that [of "128 div c"])
  show "128 div c \<in> {1, 2, 4, 8, 16, 32, 64, 128}" "128 div c * (2 * c) = 256" "0 < c"
    "128 div c = 128 div c" "256 div c = 2 * (128 div c)"
    using assms unfolding set_simps insert_iff by (elim disjE; simp)+
qed

lemma layer_index:
  fixes b c r m :: nat
  assumes "m * (2 * c) = 256" "b < m" "r < c"
  shows "b * (2 * c) + r < 256" "b * (2 * c) + c + r < 256"
    "(b * (2 * c) + r) div (2 * c) = b" "(b * (2 * c) + c + r) div (2 * c) = b"
    "(b * (2 * c) + r) mod (2 * c) = r" "(b * (2 * c) + c + r) mod (2 * c) = c + r"
proof -
  have "b * (2 * c) + 2 * c \<le> 256"
    using assms(2) mult_le_mono1 [of "b + 1" m "2 * c"] unfolding assms(1) by simp
  with assms(3) show "b * (2 * c) + r < 256" "b * (2 * c) + c + r < 256" by simp_all
  show "(b * (2 * c) + r) div (2 * c) = b" "(b * (2 * c) + c + r) div (2 * c) = b"
    "(b * (2 * c) + r) mod (2 * c) = r" "(b * (2 * c) + c + r) mod (2 * c) = c + r"
    using assms(3) block_index [of b c "b * (2 * c) + r"] block_index [of b c "b * (2 * c) + c + r"] by simp_all
qed

lemma eqml_blocksI:
  assumes "m * (2 * c) = 256" "length x = 256" "length y = 256"
    and "\<And>b r. b < m \<Longrightarrow> r < c \<Longrightarrow> eqm (x ! (b * (2 * c) + r)) (y ! (b * (2 * c) + r))"
    and "\<And>b r. b < m \<Longrightarrow> r < c \<Longrightarrow> eqm (x ! (b * (2 * c) + c + r)) (y ! (b * (2 * c) + c + r))"
  shows "eqml x y"
  unfolding eqml_def using assms by (auto elim!: block_cases [OF assms(1)])

lemma fz_lo: "m * (2 * c) = 256 \<Longrightarrow> 128 div c = m \<Longrightarrow> b < m \<Longrightarrow> r < c \<Longrightarrow>
    fz c a ! (b * (2 * c) + r) = a ! (b * (2 * c) + r) + zr (m + b) * a ! (b * (2 * c) + c + r)"
  and fz_hi: "m * (2 * c) = 256 \<Longrightarrow> 128 div c = m \<Longrightarrow> b < m \<Longrightarrow> r < c \<Longrightarrow>
    fz c a ! (b * (2 * c) + c + r) = a ! (b * (2 * c) + r) - zr (m + b) * a ! (b * (2 * c) + c + r)"
  using layer_index [of m c b r] by (simp_all add: fz_def Let_def ac_simps)

lemma gz_lo: "m * (2 * c) = 256 \<Longrightarrow> 256 div c = 2 * m \<Longrightarrow> b < m \<Longrightarrow> r < c \<Longrightarrow>
    gz c a ! (b * (2 * c) + r) = a ! (b * (2 * c) + r) + a ! (b * (2 * c) + c + r)"
  and gz_hi: "m * (2 * c) = 256 \<Longrightarrow> 256 div c = 2 * m \<Longrightarrow> b < m \<Longrightarrow> r < c \<Longrightarrow>
    gz c a ! (b * (2 * c) + c + r) = - (zr (2 * m - 1 - b) * (a ! (b * (2 * c) + r) - a ! (b * (2 * c) + c + r)))"
  using layer_index [of m c b r] by (simp_all add: gz_def Let_def ac_simps)

lemma length_fz [simp]: "length (fz c a) = 256" "length (gz c a) = 256"
  by (simp_all add: fz_def gz_def)

lemma fz_cong:
  assumes "c \<in> set layer_counts" "eqml a b"
  shows "eqml (fz c a) (fz c b)"
proof -
  from assms(1) obtain m where m: "m * (2 * c) = 256" "128 div c = m" by (rule layer_cases)
  show ?thesis
  proof (rule eqml_blocksI [OF m(1)])
    fix k r assume kr: "k < m" "r < c"
    have e: "eqm (a ! (k * (2 * c) + r)) (b ! (k * (2 * c) + r))"
      "eqm (a ! (k * (2 * c) + c + r)) (b ! (k * (2 * c) + c + r))"
      by (rule eqml_nth [OF assms(2)], rule layer_index [OF m(1) kr])+
    show "eqm (fz c a ! (k * (2 * c) + r)) (fz c b ! (k * (2 * c) + r))"
      "eqm (fz c a ! (k * (2 * c) + c + r)) (fz c b ! (k * (2 * c) + c + r))"
      unfolding fz_lo [OF m kr] fz_hi [OF m kr] by (intro eqm_intros e eqm_refl)+
  qed simp_all
qed

lemma gz_cong:
  assumes "c \<in> set layer_counts" "eqml a b"
  shows "eqml (gz c a) (gz c b)"
proof -
  from assms(1) obtain m where m: "m * (2 * c) = 256" "256 div c = 2 * m" by (rule layer_cases)
  show ?thesis
  proof (rule eqml_blocksI [OF m(1)])
    fix k r assume kr: "k < m" "r < c"
    have e: "eqm (a ! (k * (2 * c) + r)) (b ! (k * (2 * c) + r))"
      "eqm (a ! (k * (2 * c) + c + r)) (b ! (k * (2 * c) + c + r))"
      by (rule eqml_nth [OF assms(2)], rule layer_index [OF m(1) kr])+
    show "eqm (gz c a ! (k * (2 * c) + r)) (gz c b ! (k * (2 * c) + r))"
      "eqm (gz c a ! (k * (2 * c) + c + r)) (gz c b ! (k * (2 * c) + c + r))"
      unfolding gz_lo [OF m kr] gz_hi [OF m kr] by (intro eqm_intros e eqm_refl)+
  qed simp_all
qed

lemma eqm_mult_minus1:
  assumes "eqm (z * y) (- 1)"
  shows "eqm (z * (y * x)) (- x)" "eqm (y * (z * x)) (- x)"
  using eqm_mult [OF assms eqm_refl [of x]] by (simp_all add: ac_simps)

lemma gz_fz:
  assumes "c \<in> set layer_counts" "length a = 256"
  shows "eqml (gz c (fz c a)) (scale 2 a)"
proof -
  from assms(1) obtain m where ms: "m \<in> {1, 2, 4, 8, 16, 32, 64, 128}"
    and m: "m * (2 * c) = 256" "128 div c = m" "256 div c = 2 * m" by (rule layer_cases)
  show ?thesis
  proof (rule eqml_blocksI [OF m(1)])
    fix k r assume kr: "k < m" "r < c"
    let ?z = "zr (m + k)" and ?y = "zr (2 * m - 1 - k)"
    note ix = layer_index(1,2) [OF m(1) kr]
    note lohi = gz_lo [OF m(1,3) kr] gz_hi [OF m(1,3) kr] fz_lo [OF m(1,2) kr] fz_hi [OF m(1,2) kr]
    show "eqm (gz c (fz c a) ! (k * (2 * c) + r)) (scale 2 a ! (k * (2 * c) + r))"
      using assms(2) ix by (simp add: lohi)
    have "eqm (?y * (?z * (2 * a ! (k * (2 * c) + c + r)))) (- (2 * a ! (k * (2 * c) + c + r)))"
      by (rule eqm_mult_minus1(2) [OF zr_mirror [OF ms kr(1)]])
    from eqm_minus [OF this]
    show "eqm (gz c (fz c a) ! (k * (2 * c) + c + r)) (scale 2 a ! (k * (2 * c) + c + r))"
      using assms(2) ix by (simp add: lohi) (simp add: algebra_simps)
  qed (simp_all add: assms)
qed

lemma fz_gz:
  assumes "c \<in> set layer_counts" "length a = 256"
  shows "eqml (fz c (gz c a)) (scale 2 a)"
proof -
  from assms(1) obtain m where ms: "m \<in> {1, 2, 4, 8, 16, 32, 64, 128}"
    and m: "m * (2 * c) = 256" "128 div c = m" "256 div c = 2 * m" by (rule layer_cases)
  show ?thesis
  proof (rule eqml_blocksI [OF m(1)])
    fix k r assume kr: "k < m" "r < c"
    let ?z = "zr (m + k)" and ?y = "zr (2 * m - 1 - k)"
    let ?x = "a ! (k * (2 * c) + r)" and ?w = "a ! (k * (2 * c) + c + r)"
    note ix = layer_index(1,2) [OF m(1) kr]
    note lohi = gz_lo [OF m(1,3) kr] gz_hi [OF m(1,3) kr] fz_lo [OF m(1,2) kr] fz_hi [OF m(1,2) kr]
    have e: "eqm (?z * (?y * (?x - ?w))) (- (?x - ?w))"
      by (rule eqm_mult_minus1(1) [OF zr_mirror [OF ms kr(1)]])
    show "eqm (fz c (gz c a) ! (k * (2 * c) + r)) (scale 2 a ! (k * (2 * c) + r))"
      using assms(2) ix eqm_diff [OF eqm_refl [of "?x + ?w"] e] by (simp add: lohi)
    show "eqm (fz c (gz c a) ! (k * (2 * c) + c + r)) (scale 2 a ! (k * (2 * c) + c + r))"
      using assms(2) ix eqm_add [OF eqm_refl [of "?x + ?w"] e] by (simp add: lohi)
  qed (simp_all add: assms)
qed

lemma gz_scale: "length a = 256 \<Longrightarrow> c \<in> set layer_counts \<Longrightarrow> eqml (gz c (scale k a)) (scale k (gz c a))"
proof (erule layer_cases)
  fix m assume m: "m * (2 * c) = 256" "256 div c = 2 * m" and len: "length a = 256"
  show "eqml (gz c (scale k a)) (scale k (gz c a))"
    using layer_index(1,2) [OF m(1)] len
    by (intro eqml_blocksI [OF m(1)]) (simp_all add: gz_lo [OF m] gz_hi [OF m], simp_all add: algebra_simps)
qed

lemma fz_scale: "length a = 256 \<Longrightarrow> c \<in> set layer_counts \<Longrightarrow> eqml (fz c (scale k a)) (scale k (fz c a))"
proof (erule layer_cases)
  fix m assume m: "m * (2 * c) = 256" "128 div c = m" and len: "length a = 256"
  show "eqml (fz c (scale k a)) (scale k (fz c a))"
    using layer_index(1,2) [OF m(1)] len
    by (intro eqml_blocksI [OF m(1)]) (simp_all add: fz_lo [OF m] fz_hi [OF m], simp_all add: algebra_simps)
qed

end
