(* ===== verification/NTT_Ring.thy ===== *)
theory NTT_Ring
  imports NTT
begin

text \<open>
  The transforms of \<open>ntt.c\<close> as ring operations: the layers of \<open>ntt\<close> and \<open>inv_ntt_to_mont\<close> do not
  overflow, the forward transform evaluates a polynomial at the roots of \<open>X^256 + 1\<close>, and a
  pointwise Montgomery product between the two transforms is the product modulo \<open>X^256 + 1\<close>.
\<close>

subsection \<open>The code computes the layers\<close>

lemma fwd_layer_correct:
  assumes "c \<in> set layer_counts" "bounded B a" "B + 8380417 \<le> 2147483648"
  shows "bounded (B + 8380417) (fwd_layer c a)" "eqml (fwd_layer c a) (fz c a)"
proof -
  from assms(1) obtain m where ms: "m \<in> {1, 2, 4, 8, 16, 32, 64, 128}"
    and m: "m * (2 * c) = 256" "128 div c = m" by (rule layer_cases)
  have zi: "m + b < 256" if "b < m" for b using ms that by auto
  have nths: "fwd_layer c a ! (b * (2 * c) + r) = a ! (b * (2 * c) + r) + mont (ZETAS ! (m + b)) (a ! (b * (2 * c) + c + r))"
    "fwd_layer c a ! (b * (2 * c) + c + r) = a ! (b * (2 * c) + r) - mont (ZETAS ! (m + b)) (a ! (b * (2 * c) + c + r))"
    "\<bar>mont (ZETAS ! (m + b)) (a ! (b * (2 * c) + c + r))\<bar> < 8380417"
    "eqm (mont (ZETAS ! (m + b)) (a ! (b * (2 * c) + c + r))) (zr (m + b) * a ! (b * (2 * c) + c + r))"
    "\<bar>a ! (b * (2 * c) + r)\<bar> < B"
    if br: "b < m" "r < c" for b r
  proof -
    note ix = layer_index [OF m(1) br]
    have bd: "\<bar>a ! (b * (2 * c) + r)\<bar> < B" "\<bar>a ! (b * (2 * c) + c + r)\<bar> < B"
      by (rule bounded_nth [OF assms(2)], rule ix)+
    then have x: "\<bar>a ! (b * (2 * c) + c + r)\<bar> < 2147483648" using assms(3) by simp
    note mz = mont_zr [OF zi [OF br(1)] x]
    show "\<bar>mont (ZETAS ! (m + b)) (a ! (b * (2 * c) + c + r))\<bar> < 8380417"
      "eqm (mont (ZETAS ! (m + b)) (a ! (b * (2 * c) + c + r))) (zr (m + b) * a ! (b * (2 * c) + c + r))"
      "\<bar>a ! (b * (2 * c) + r)\<bar> < B" by (rule mz bd)+
    let ?t = "mont (ZETAS ! (m + b)) (a ! (b * (2 * c) + c + r))"
    have w: "i32 (a ! (b * (2 * c) + r) + ?t) = a ! (b * (2 * c) + r) + ?t"
      "i32 (a ! (b * (2 * c) + r) - ?t) = a ! (b * (2 * c) + r) - ?t"
      using bd mz(3) assms(3) by simp_all
    have comm: "b * (2 * c) + r + c = b * (2 * c) + c + r" by simp
    show "fwd_layer c a ! (b * (2 * c) + r) = a ! (b * (2 * c) + r) + ?t"
      using ix br m by (simp add: fwd_layer_def fwd_at_def comm w)
    show "fwd_layer c a ! (b * (2 * c) + c + r) = a ! (b * (2 * c) + r) - ?t"
      using ix br m by (simp add: fwd_layer_def fwd_at_def w)
  qed
  show "eqml (fwd_layer c a) (fz c a)"
    by (rule eqml_blocksI [OF m(1)]) (simp_all add: nths fz_lo [OF m] fz_hi [OF m] eqm_add eqm_diff)
  show "bounded (B + 8380417) (fwd_layer c a)"
  proof (rule boundedI)
    fix i :: nat assume "i < 256"
    with m(1) show "\<bar>fwd_layer c a ! i\<bar> < B + 8380417"
    proof (cases rule: block_cases)
      case (lo b r)
      with nths [of b r] show ?thesis by simp
    next
      case (hi b r)
      with nths [of b r] show ?thesis by simp
    qed
  qed simp
qed

lemma inv_layer_correct:
  assumes "c \<in> set layer_counts" "bounded B a" "8380417 \<le> B" "2 * B \<le> 2147483648"
  shows "bounded (2 * B) (inv_layer c a)" "eqml (inv_layer c a) (gz c a)"
proof -
  from assms(1) obtain m where ms: "m \<in> {1, 2, 4, 8, 16, 32, 64, 128}"
    and m: "m * (2 * c) = 256" "256 div c = 2 * m" by (rule layer_cases)
  have zi: "2 * m - 1 - b < 256" if "b < m" for b using ms that by auto
  have nths: "inv_layer c a ! (b * (2 * c) + r) = a ! (b * (2 * c) + r) + a ! (b * (2 * c) + c + r)"
    "inv_layer c a ! (b * (2 * c) + c + r) = mont (i32 (- (ZETAS ! (2 * m - 1 - b)))) (a ! (b * (2 * c) + r) - a ! (b * (2 * c) + c + r))"
    "\<bar>a ! (b * (2 * c) + r) + a ! (b * (2 * c) + c + r)\<bar> < 2 * B"
    "\<bar>a ! (b * (2 * c) + r) - a ! (b * (2 * c) + c + r)\<bar> < 2147483648"
    if br: "b < m" "r < c" for b r
  proof -
    note ix = layer_index [OF m(1) br]
    have bd: "\<bar>a ! (b * (2 * c) + r)\<bar> < B" "\<bar>a ! (b * (2 * c) + c + r)\<bar> < B"
      by (rule bounded_nth [OF assms(2)], rule ix)+
    then show s: "\<bar>a ! (b * (2 * c) + r) + a ! (b * (2 * c) + c + r)\<bar> < 2 * B"
      "\<bar>a ! (b * (2 * c) + r) - a ! (b * (2 * c) + c + r)\<bar> < 2147483648" using assms(4) by simp_all
    have w: "i32 (a ! (b * (2 * c) + r) + a ! (b * (2 * c) + c + r)) = a ! (b * (2 * c) + r) + a ! (b * (2 * c) + c + r)"
      "i32 (a ! (b * (2 * c) + r) - a ! (b * (2 * c) + c + r)) = a ! (b * (2 * c) + r) - a ! (b * (2 * c) + c + r)"
      using s assms(4) by (auto intro!: i32_id)
    have comm: "b * (2 * c) + r + c = b * (2 * c) + c + r" by simp
    show "inv_layer c a ! (b * (2 * c) + r) = a ! (b * (2 * c) + r) + a ! (b * (2 * c) + c + r)"
      using ix br m by (simp add: inv_layer_def inv_at_def comm w)
    show "inv_layer c a ! (b * (2 * c) + c + r) = mont (i32 (- (ZETAS ! (2 * m - 1 - b)))) (a ! (b * (2 * c) + r) - a ! (b * (2 * c) + c + r))"
      using ix br m by (simp add: inv_layer_def inv_at_def w)
  qed
  show "eqml (inv_layer c a) (gz c a)"
    by (rule eqml_blocksI [OF m(1)]) (simp_all only: nths gz_lo [OF m] gz_hi [OF m] length_layer length_fz eqm_refl mont_zr(2) [OF zi])
  show "bounded (2 * B) (inv_layer c a)"
  proof (rule boundedI)
    fix i :: nat assume "i < 256"
    with m(1) show "\<bar>inv_layer c a ! i\<bar> < 2 * B"
    proof (cases rule: block_cases)
      case (lo b r)
      with nths [of b r] show ?thesis by simp
    next
      case (hi b r)
      with nths [of b r] mont_zr(4) [OF zi, of b] assms(3) show ?thesis by fastforce
    qed
  qed simp
qed

lemma fold_fz_cong: "set cs \<subseteq> set layer_counts \<Longrightarrow> eqml a b \<Longrightarrow> eqml (fold fz cs a) (fold fz cs b)"
  by (induction cs arbitrary: a b) (simp_all add: fz_cong)

lemma fold_gz_cong: "set cs \<subseteq> set layer_counts \<Longrightarrow> eqml a b \<Longrightarrow> eqml (fold gz cs a) (fold gz cs b)"
  by (induction cs arbitrary: a b) (simp_all add: gz_cong)

lemma length_fold_fz [simp]: "length a = 256 \<Longrightarrow> length (fold fz cs a) = 256"
  by (induction cs arbitrary: a) simp_all

lemma length_fold_gz [simp]: "length a = 256 \<Longrightarrow> length (fold gz cs a) = 256"
  by (induction cs arbitrary: a) simp_all

lemma fold_fwd_correct:
  assumes "set cs \<subseteq> set layer_counts" "bounded B a" "B + int (length cs) * 8380417 \<le> 2147483648"
  shows "bounded (B + int (length cs) * 8380417) (fold fwd_layer cs a) \<and> eqml (fold fwd_layer cs a) (fold fz cs a)"
  using assms
proof (induction cs arbitrary: a B)
  case Nil
  then show ?case by (simp add: eqml_refl bounded_length)
next
  case (Cons c cs)
  have l: "bounded (B + 8380417) (fwd_layer c a)" "eqml (fwd_layer c a) (fz c a)"
    using fwd_layer_correct [of c B a] Cons.prems by simp_all
  have "eqml (fold fz cs (fwd_layer c a)) (fold fz cs (fz c a))"
    using Cons.prems(1) l(2) by (intro fold_fz_cong) simp_all
  with Cons.IH [OF _ l(1)] Cons.prems show ?case
    by (auto simp: algebra_simps intro: eqml_trans)
qed

lemma fold_inv_correct:
  assumes "set cs \<subseteq> set layer_counts" "bounded B a" "8380417 \<le> B" "2 ^ length cs * B \<le> 2147483648"
  shows "bounded (2 ^ length cs * B) (fold inv_layer cs a) \<and> eqml (fold inv_layer cs a) (fold gz cs a)"
  using assms
proof (induction cs arbitrary: a B)
  case Nil
  then show ?case by (simp add: eqml_refl bounded_length)
next
  case (Cons c cs)
  have "(2::int) * B \<le> 2 ^ length (c # cs) * B"
    using Cons.prems(3) by (intro mult_right_mono) simp_all
  then have "2 * B \<le> 2147483648" using Cons.prems(4) by linarith
  then have l: "bounded (2 * B) (inv_layer c a)" "eqml (inv_layer c a) (gz c a)"
    using inv_layer_correct [of c B a] Cons.prems by simp_all
  have "eqml (fold gz cs (inv_layer c a)) (fold gz cs (gz c a))"
    using Cons.prems(1) l(2) by (intro fold_gz_cong) simp_all
  with Cons.IH [OF _ l(1)] Cons.prems show ?case
    by (auto simp: ac_simps intro: eqml_trans)
qed

lemma fold_gz_fz:
  assumes "set cs \<subseteq> set layer_counts" "length a = 256"
  shows "eqml (fold gz (rev cs) (fold fz cs a)) (scale (2 ^ length cs) a)"
  using assms
proof (induction cs arbitrary: a)
  case Nil
  then show ?case by (simp add: eqml_def)
next
  case (Cons c cs)
  then have c: "c \<in> set layer_counts" by simp
  have "eqml (fold gz (rev cs) (fold fz cs (fz c a))) (scale (2 ^ length cs) (fz c a))"
    using Cons by simp
  from gz_cong [OF c this] gz_scale [OF length_fz(1) c]
  have "eqml (fold gz (rev (c # cs)) (fold fz (c # cs) a)) (scale (2 ^ length cs) (gz c (fz c a)))"
    by (auto intro: eqml_trans)
  also have "eqml \<dots> (scale (2 ^ length cs) (scale 2 a))"
    using gz_fz [OF c Cons.prems(2)] by (intro eqml_scale) simp_all
  finally show ?case by (simp add: scale_scale mult.commute)
qed

lemma fold_fz_scale:
  assumes "set cs \<subseteq> set layer_counts" "length a = 256"
  shows "eqml (fold fz cs (scale k a)) (scale k (fold fz cs a))"
  using assms
proof (induction cs arbitrary: a)
  case (Cons c cs)
  have "eqml (fold fz cs (fz c (scale k a))) (fold fz cs (scale k (fz c a)))"
    using Cons.prems by (intro fold_fz_cong fz_scale) simp_all
  also have "eqml \<dots> (scale k (fold fz cs (fz c a)))"
    using Cons by simp
  finally show ?case by simp
qed (simp add: eqml_refl)

lemma fold_gz_scale:
  assumes "set cs \<subseteq> set layer_counts" "length a = 256"
  shows "eqml (fold gz cs (scale k a)) (scale k (fold gz cs a))"
  using assms
proof (induction cs arbitrary: a)
  case (Cons c cs)
  have "eqml (fold gz cs (gz c (scale k a))) (fold gz cs (scale k (gz c a)))"
    using Cons.prems by (intro fold_gz_cong gz_scale) simp_all
  also have "eqml \<dots> (scale k (fold gz cs (gz c a)))"
    using Cons by simp
  finally show ?case by simp
qed (simp add: eqml_refl)

lemma eqml_cancel_mont: "eqml (scale 4294967296 a) (scale 4294967296 b) \<Longrightarrow> eqml a b"
  by (auto simp: eqml_def intro: eqm_cancel_mont)

lemma fold_fz_gz:
  assumes "set cs \<subseteq> set layer_counts" "length a = 256"
  shows "eqml (fold fz cs (fold gz (rev cs) a)) (scale (2 ^ length cs) a)"
  using assms
proof (induction cs arbitrary: a)
  case Nil
  then show ?case by (simp add: eqml_def)
next
  case (Cons c cs)
  let ?y = "fold gz (rev cs) a"
  have c: "c \<in> set layer_counts" "set cs \<subseteq> set layer_counts" using Cons.prems by simp_all
  have "eqml (fold fz cs (fz c (gz c ?y))) (fold fz cs (scale 2 ?y))"
    using Cons.prems by (intro fold_fz_cong [OF c(2)] fz_gz [OF c(1)]) simp_all
  also have "eqml \<dots> (scale 2 (fold fz cs ?y))"
    using Cons.prems by (intro fold_fz_scale [OF c(2)]) simp_all
  also have "eqml \<dots> (scale 2 (scale (2 ^ length cs) a))"
    using Cons by (intro eqml_scale) simp_all
  finally show ?case by (simp add: scale_scale)
qed

lemma ntt_layers_correct:
  assumes "bounded B a" "B \<le> 2147483648 - 8 * 8380417"
  shows "bounded (B + 8 * 8380417) (ntt a)" "eqml (ntt a) (fold fz layer_counts a)"
  using fold_fwd_correct [of layer_counts B a] assms ntt_eq_layers [OF bounded_length [OF assms(1)]]
  by (simp_all del: fold_simps)

lemma mont_f:
  assumes "\<bar>x\<bar> < 2147483648"
  shows "eqm (mont 41978 x) (16382 * x)" "\<bar>mont 41978 x\<bar> \<le> 4211198"
proof -
  have "eqm (4294967296 * 16382 * x) (41978 * x)" by (rule eqm_mult [OF _ eqm_refl]) (simp add: eqm_def)
  then have e: "eqm (41978 * x) (4294967296 * (16382 * x))" using eqm_sym by (simp add: mult.assoc [symmetric])
  have "eqm (4294967296 * mont 41978 x) (41978 * x)" using assms by (intro mont_correct(1)) simp_all
  from eqm_trans [OF this e] show "eqm (mont 41978 x) (16382 * x)" by (rule eqm_cancel_mont)
  have "\<bar>41978 * x\<bar> \<le> 41978 * 2147483648" using assms by simp
  then show "\<bar>mont 41978 x\<bar> \<le> 4211198"
    using mont_correct(3) [of 41978 x] assms by simp
qed

lemma inv_ntt_correct:
  assumes "bounded B a" "B \<le> 8388608"
  shows "bounded 4211199 (inv_ntt_to_mont a)"
    "eqml (inv_ntt_to_mont a) (scale 16382 (fold gz (rev layer_counts) a))"
proof -
  have b: "bounded 8388608 a" by (rule bounded_mono [OF assms])
  define y where "y = fold inv_layer [1, 2, 4, 8, 16, 32, 64, 128] a"
  have y: "bounded 2147483648 y" "eqml y (fold gz (rev layer_counts) a)"
    using fold_inv_correct [of "[1, 2, 4, 8, 16, 32, 64, 128]" 8388608 a] b
    by (simp_all add: y_def del: fold_simps)
  have i: "inv_ntt_to_mont a = map (mont 41978) y"
    unfolding y_def by (rule inv_ntt_eq_layers [OF bounded_length [OF b]])
  have len: "length y = 256" by (rule bounded_length [OF y(1)])
  have m: "eqm (mont 41978 (y ! j)) (16382 * y ! j)" "\<bar>mont 41978 (y ! j)\<bar> \<le> 4211198" if "j < 256" for j
    using mont_f [OF bounded_nth [OF y(1) that]] .
  show "bounded 4211199 (inv_ntt_to_mont a)"
    unfolding i using len m(2) by (intro boundedI) (simp_all, fastforce)
  have "eqml (map (mont 41978) y) (scale 16382 y)"
    using len m(1) by (simp add: eqml_def)
  also have "eqml (scale 16382 y) (scale 16382 (fold gz (rev layer_counts) a))"
    by (rule eqml_scale [OF y(2) eqm_refl])
  finally show "eqml (inv_ntt_to_mont a) (scale 16382 (fold gz (rev layer_counts) a))"
    unfolding i .
qed

text \<open>The two transforms are inverse to each other up to the Montgomery factor.\<close>

lemma mont_scale: "eqml x (scale 256 y) \<Longrightarrow> eqml (scale 16382 x) (scale 4294967296 y)"
proof -
  assume "eqml x (scale 256 y)"
  then have "eqml (scale 16382 x) (scale 16382 (scale 256 y))" by (rule eqml_scale [OF _ eqm_refl])
  also have "eqml (scale 16382 (scale 256 y)) (scale 4294967296 y)"
    using eqml_length [OF \<open>eqml x (scale 256 y)\<close>] unfolding scale_scale
    by (intro eqml_scale) (simp_all add: eqm_def eqml_def)
  finally show ?thesis .
qed

lemma inv_ntt_ntt:
  assumes "bounded B a" "bounded 8388608 y" "eqml y (ntt a)" "B \<le> 2147483648 - 8 * 8380417"
  shows "eqml (inv_ntt_to_mont y) (scale 4294967296 a)"
proof -
  have "eqml y (fold fz layer_counts a)" using ntt_layers_correct(2) [OF assms(1,4)] assms(3) by (rule eqml_trans [rotated])
  then have "eqml (fold gz (rev layer_counts) y) (fold gz (rev layer_counts) (fold fz layer_counts a))"
    by (intro fold_gz_cong) simp_all
  also have "eqml \<dots> (scale (2 ^ length layer_counts) a)"
    using assms(1) by (intro fold_gz_fz) (simp_all add: bounded_length)
  finally have "eqml (fold gz (rev layer_counts) y) (scale 256 a)" by (simp del: fold_simps)
  from mont_scale [OF this] show ?thesis
    using inv_ntt_correct(2) [OF assms(2) order_refl] eqml_trans by blast
qed

lemma ntt_inv_ntt:
  assumes "bounded 8388608 a"
  shows "eqml (ntt (inv_ntt_to_mont a)) (scale 4294967296 a)"
proof -
  let ?x = "inv_ntt_to_mont a" and ?g = "fold gz (rev layer_counts) a"
  note x = inv_ntt_correct [OF assms order_refl]
  have len: "length a = 256" by (rule bounded_length [OF assms])
  have "eqml (ntt ?x) (fold fz layer_counts ?x)" using ntt_layers_correct(2) [OF x(1)] by simp
  also have "eqml \<dots> (fold fz layer_counts (scale 16382 ?g))" by (intro fold_fz_cong x(2)) simp
  also have "eqml \<dots> (scale 16382 (fold fz layer_counts ?g))" using len by (intro fold_fz_scale) (simp_all del: fold_simps)
  also have "eqml \<dots> (scale 4294967296 a)"
    using fold_fz_gz [of layer_counts a] len by (intro mont_scale) (simp_all del: fold_simps)
  finally show ?thesis .
qed

subsection \<open>Evaluation at the roots of \<open>X^256 + 1\<close>\<close>

lemma eqm_sum: "(\<And>i. i \<in> S \<Longrightarrow> eqm (f i) (g i)) \<Longrightarrow> eqm (sum f S) (sum g S)"
  by (induction S rule: infinite_finite_induct) (auto intro: eqm_add)

lemma eqm_power: "eqm a b \<Longrightarrow> eqm (a ^ n) (b ^ n)"
  by (induction n) (auto intro: eqm_mult)

text \<open>The value of a node of the tree: \<open>node (256 + i)\<close> is the root that \<open>ntt\<close> evaluates at in place \<open>i\<close>.\<close>

definition node :: "nat \<Rightarrow> int" where
  "node n = (if n = 1 then - 1 else if even n then zr (n div 2) else - zr (n div 2))"

lemma zr_square: "1 \<le> n \<Longrightarrow> n < 256 \<Longrightarrow> eqm (zr n * zr n) (node n)"
proof (cases "n = 1")
  case True
  then show ?thesis using zr_root by (simp add: node_def)
next
  case False
  assume "1 \<le> n" "n < 256"
  with False have k: "1 \<le> n div 2" "n div 2 < 128" by linarith+
  then show ?thesis
    using zr_children [OF k] False by (cases "even n") (auto simp: node_def elim!: evenE oddE)
qed

lemma node_square: "2 \<le> n \<Longrightarrow> n < 512 \<Longrightarrow> eqm (node n * node n) (node (n div 2))"
  using zr_square [of "n div 2"] by (simp add: node_def [of n] div_le_mono [of 2 n 2, simplified] less_mult_imp_div_less)

lemma node_power:
  assumes "s \<le> 8" "256 \<le> n" "n < 512"
  shows "eqm (node n ^ 2 ^ s) (node (n div 2 ^ s))"
  using assms(1)
proof (induction s)
  case (Suc s)
  have "(2::nat) * 2 ^ s \<le> 2 ^ 8" using Suc.prems power_increasing [of "Suc s" 8 "2::nat"] by simp
  then have "2 * 2 ^ s \<le> n" using assms(2) by simp
  then have "2 \<le> n div 2 ^ s" by (simp add: less_eq_div_iff_mult_less_eq)
  moreover have "n div 2 ^ s < 512" using assms(3) div_le_dividend le_less_trans by blast
  ultimately have "eqm (node (n div 2 ^ s) * node (n div 2 ^ s)) (node (n div 2 ^ s div 2))"
    by (rule node_square)
  moreover have "eqm (node n ^ 2 ^ s * node n ^ 2 ^ s) (node (n div 2 ^ s) * node (n div 2 ^ s))"
    using Suc by (intro eqm_mult) simp_all
  moreover have "node n ^ 2 ^ Suc s = node n ^ 2 ^ s * node n ^ 2 ^ s"
    by (simp add: mult_2 power_add)
  moreover have "n div 2 ^ s div 2 = n div 2 ^ Suc s"
    by (simp add: div_mult2_eq [symmetric] mult.commute)
  ultimately show ?case using eqm_trans by metis
qed simp

text \<open>The value at \<open>x\<close> of the block of \<open>n\<close> coefficients from \<open>s\<close>.\<close>

definition bev :: "poly \<Rightarrow> nat \<Rightarrow> nat \<Rightarrow> int \<Rightarrow> int" where
  "bev a s n x = (\<Sum>j<n. a ! (s + j) * x ^ j)"

lemma sum_lessThan_add: "(\<Sum>j<c + d. f j) = (\<Sum>j<c. f j) + (\<Sum>j<d. f (c + j :: nat))" for f :: "nat \<Rightarrow> int"
  by (induction d) simp_all

lemma bev_split: "bev a s (2 * c) x = bev a s c x + x ^ c * bev a (s + c) c x"
proof -
  have "bev a s (c + c) x = bev a s c x + (\<Sum>j<c. a ! (s + (c + j)) * x ^ (c + j))"
    unfolding bev_def by (rule sum_lessThan_add)
  also have "(\<Sum>j<c. a ! (s + (c + j)) * x ^ (c + j)) = x ^ c * bev a (s + c) c x"
    unfolding bev_def sum_distrib_left by (intro sum.cong refl) (simp add: power_add ac_simps)
  finally show ?thesis by (simp only: mult_2)
qed

lemma bev_fz:
  assumes "m * (2 * c) = 256" "128 div c = m" "b < m"
  shows "eqm (x ^ c) (zr (m + b)) \<Longrightarrow> eqm (bev (fz c a) (b * (2 * c)) c x) (bev a (b * (2 * c)) (2 * c) x)"
    and "eqm (x ^ c) (- zr (m + b)) \<Longrightarrow> eqm (bev (fz c a) (b * (2 * c) + c) c x) (bev a (b * (2 * c)) (2 * c) x)"
proof -
  let ?s = "b * (2 * c)"
  have "bev (fz c a) ?s c x = bev a ?s c x + zr (m + b) * bev a (?s + c) c x"
    by (simp add: bev_def fz_lo [OF assms] distrib_right mult.assoc sum.distrib sum_distrib_left)
  moreover assume "eqm (x ^ c) (zr (m + b))"
  ultimately show "eqm (bev (fz c a) ?s c x) (bev a ?s (2 * c) x)"
    unfolding bev_split by (auto intro!: eqm_add eqm_mult intro: eqm_sym)
next
  let ?s = "b * (2 * c)"
  have "bev (fz c a) (?s + c) c x = bev a ?s c x + - zr (m + b) * bev a (?s + c) c x"
    by (simp add: bev_def fz_hi [OF assms] left_diff_distrib mult.assoc sum_subtractf sum_distrib_left sum_negf)
  moreover assume "eqm (x ^ c) (- zr (m + b))"
  then have "eqm (bev a ?s c x + - zr (m + b) * bev a (?s + c) c x) (bev a ?s (2 * c) x)"
    unfolding bev_split by (intro eqm_add eqm_refl eqm_mult) (rule eqm_sym)
  ultimately show "eqm (bev (fz c a) (?s + c) c x) (bev a ?s (2 * c) x)" by simp
qed

lemma bev_fz_root:
  assumes "s < 8" "i < 256"
  shows "eqm (bev (fz (2 ^ s) a) (i div 2 ^ s * 2 ^ s) (2 ^ s) (node (256 + i)))
             (bev a (i div (2 * 2 ^ s) * (2 * 2 ^ s)) (2 * 2 ^ s) (node (256 + i)))"
proof -
  let ?c = "2 ^ s :: nat" and ?b = "i div (2 * 2 ^ s)" and ?x = "node (256 + i)"
  have "?c \<in> set layer_counts"
  proof -
    have "s \<in> {0, 1, 2, 3, 4, 5, 6, 7}" using assms(1) by auto
    then show ?thesis by auto
  qed
  then obtain m where m: "m * (2 * ?c) = 256" "128 div ?c = m" by (rule layer_cases)
  have b: "?b < m" by (rule less_mult_imp_div_less) (simp only: m assms(2))
  have ib: "i div ?c div 2 = ?b" by (simp add: div_mult2_eq [symmetric] mult.commute)
  have n: "(256 + i) div ?c = 2 * m + i div ?c"
  proof -
    have "256 + i = i + 2 * m * ?c" using m(1) by simp
    then have "(256 + i) div ?c = (i + 2 * m * ?c) div ?c" by (simp only:)
    also have "\<dots> = 2 * m + i div ?c" by (rule div_mult_self1) simp
    finally show ?thesis .
  qed
  have p: "eqm (?x ^ ?c) (node (2 * m + i div ?c))"
    using node_power [of s "256 + i"] assms by (simp add: n)
  have m0: "0 < m" using m(1) by (cases m) simp_all
  show ?thesis
  proof (cases "even (i div ?c)")
    case True
    then have "i div ?c * ?c = ?b * (2 * ?c)" using ib by (auto elim!: evenE)
    moreover from True p m0 have "eqm (?x ^ ?c) (zr (m + ?b))" by (simp add: node_def ib)
    ultimately show ?thesis using bev_fz(1) [OF m b, of ?x a] by (simp only:)
  next
    case False
    then have "i div ?c * ?c = ?b * (2 * ?c) + ?c" using ib by (auto elim!: oddE)
    moreover from False p m0 have "eqm (?x ^ ?c) (- zr (m + ?b))" by (simp add: node_def ib)
    ultimately show ?thesis using bev_fz(2) [OF m b, of ?x a] by (simp only:)
  qed
qed

definition peval :: "poly \<Rightarrow> int \<Rightarrow> int" where
  "peval a x = (\<Sum>j<N. a ! j * x ^ j)"

lemma fold_fz_eval:
  assumes "i < 256"
  shows "eqm (fold fz layer_counts a ! i) (peval a (node (256 + i)))"
proof -
  let ?x = "node (256 + i)"
  let ?B = "\<lambda>s a. bev a (i div 2 ^ s * 2 ^ s) (2 ^ s) ?x"
  have step: "eqm (?B s (fz (2 ^ s) a)) (?B (Suc s) a)" if "s < 8" for s a
    using bev_fz_root [OF that assms] by simp
  have "eqm (?B 0 (fz (2 ^ 0) A)) (?B 1 A)" for A using step [of 0] by simp
  moreover have "eqm (?B 1 (fz 2 A)) (?B 2 A)" for A using step [of 1] by (simp add: numeral_2_eq_2)
  moreover have "eqm (?B 2 (fz 4 A)) (?B 3 A)" for A using step [of 2] by simp
  moreover have "eqm (?B 3 (fz 8 A)) (?B 4 A)" for A using step [of 3] by simp
  moreover have "eqm (?B 4 (fz 16 A)) (?B 5 A)" for A using step [of 4] by simp
  moreover have "eqm (?B 5 (fz 32 A)) (?B 6 A)" for A using step [of 5] by simp
  moreover have "eqm (?B 6 (fz 64 A)) (?B 7 A)" for A using step [of 6] by simp
  moreover have "eqm (?B 7 (fz 128 A)) (?B 8 A)" for A using step [of 7] by simp
  ultimately have "eqm (?B 0 (fold fz layer_counts a)) (?B 8 a)"
    by simp (meson eqm_trans)
  moreover have "?B 0 (fold fz layer_counts a) = fold fz layer_counts a ! i" by (simp add: bev_def)
  moreover have "?B 8 a = peval a ?x" using assms by (simp add: bev_def peval_def)
  ultimately show ?thesis by simp
qed

text \<open>The product of two polynomials modulo \<open>X^256 + 1\<close>.\<close>

definition nega_mul :: "poly \<Rightarrow> poly \<Rightarrow> poly" where
  "nega_mul a b = pmap (\<lambda>k. \<Sum>i<N. if i \<le> k then a ! i * b ! (k - i) else - (a ! i * b ! (N + k - i)))"

lemma shifted_eval:
  assumes "eqm (x ^ 256) (- 1)" "i < 256"
  shows "eqm (\<Sum>k<256. (if i \<le> k then b ! (k - i) else - (b ! (256 + k - i))) * x ^ k)
             (x ^ i * peval b x)"
proof -
  let ?f = "\<lambda>k. (if i \<le> k then b ! (k - i) else - (b ! (256 + k - i))) * x ^ k"
  let ?d = "256 - i"
  have i: "256 = i + ?d" using assms(2) by simp
  have "(\<Sum>k<i + ?d. ?f k) = (\<Sum>k<i. ?f k) + (\<Sum>k<?d. ?f (i + k))"
    by (rule sum_lessThan_add)
  moreover have "(\<Sum>k<i. ?f k) = (\<Sum>k<i. b ! (?d + k) * (- 1 * x ^ k))"
    using assms(2) by (intro sum.cong) auto
  moreover have "eqm (\<Sum>k<i. b ! (?d + k) * (- 1 * x ^ k)) (\<Sum>k<i. b ! (?d + k) * (x ^ 256 * x ^ k))"
    by (intro eqm_sum eqm_mult eqm_refl eqm_sym [OF assms(1)])
  moreover have "(\<Sum>k<i. b ! (?d + k) * (x ^ 256 * x ^ k)) = x ^ i * (\<Sum>k<i. b ! (?d + k) * x ^ (?d + k))"
    unfolding sum_distrib_left using i by (intro sum.cong refl) (simp add: power_add [symmetric])
  moreover have "(\<Sum>k<?d. ?f (i + k)) = x ^ i * (\<Sum>k<?d. b ! k * x ^ k)"
    unfolding sum_distrib_left by (intro sum.cong refl) (simp add: power_add)
  moreover have "peval b x = (\<Sum>k<?d. b ! k * x ^ k) + (\<Sum>k<i. b ! (?d + k) * x ^ (?d + k))"
    using sum_lessThan_add [of "\<lambda>k. b ! k * x ^ k" ?d i] assms(2) by (simp add: peval_def)
  ultimately have e: "eqm (\<Sum>k<i + ?d. ?f k) (x ^ i * peval b x)"
    by (simp only: distrib_left add.commute [of "x ^ i * (\<Sum>k<?d. b ! k * x ^ k)"])
      (rule eqm_add, simp_all)
  then show ?thesis by (simp only: i [symmetric])
qed

lemma nega_mul_eval:
  assumes "eqm (x ^ 256) (- 1)"
  shows "eqm (peval (nega_mul a b) x) (peval a x * peval b x)"
proof -
  let ?g = "\<lambda>i k. if i \<le> k then b ! (k - i) else - (b ! (256 + k - i))"
  have "peval (nega_mul a b) x = (\<Sum>k<256. (\<Sum>i<256. a ! i * ?g i k) * x ^ k)"
    unfolding peval_def nega_mul_def by (intro sum.cong refl) (simp, simp add: if_distrib [of "(*) _"] cong: if_cong)
  also have "\<dots> = (\<Sum>k<256. \<Sum>i<256. a ! i * (?g i k * x ^ k))"
    by (simp add: sum_distrib_right mult.assoc)
  also have "\<dots> = (\<Sum>i<256. a ! i * (\<Sum>k<256. ?g i k * x ^ k))"
    by (subst sum.swap) (simp add: sum_distrib_left)
  also have "eqm \<dots> (\<Sum>i<256. a ! i * (x ^ i * peval b x))"
    using shifted_eval [OF assms] by (intro eqm_sum eqm_mult eqm_refl) simp
  also have "(\<Sum>i<256. a ! i * (x ^ i * peval b x)) = peval a x * peval b x"
    by (simp add: peval_def sum_distrib_right mult.assoc)
  finally show ?thesis .
qed

lemma root_256: "i < 256 \<Longrightarrow> eqm (node (256 + i) ^ 256) (- 1)"
proof -
  assume "i < 256"
  moreover from this have "(256 + i) div 2 ^ 8 = 1" by simp
  ultimately show ?thesis using node_power [of 8 "256 + i"] by (simp add: node_def [of "Suc 0"])
qed

lemma ntt_eval:
  assumes "bounded B a" "B \<le> 2147483648 - 8 * 8380417" "i < 256"
  shows "eqm (ntt a ! i) (peval a (node (256 + i)))"
  using eqml_nth [OF ntt_layers_correct(2) [OF assms(1,2)] assms(3)] fold_fz_eval [OF assms(3)]
  by (rule eqm_trans)

lemma ntt_bounds:
  assumes "bounded B a" "B \<le> 2147483648 - 8 * 8380417"
  shows "bounded (B + 67043336) (ntt a)"
  using ntt_layers_correct(1) [OF assms] by simp

text \<open>Linearity, as the signature code uses it.\<close>

lemma peval_add: "length a = 256 \<Longrightarrow> length b = 256 \<Longrightarrow> peval (map2 (+) a b) x = peval a x + peval b x"
  by (simp add: peval_def distrib_right sum.distrib)

lemma peval_cong: "eqml a b \<Longrightarrow> eqm (peval a x) (peval b x)"
  by (auto simp: peval_def intro!: eqm_sum eqm_mult dest: eqml_nth)

text \<open>
  Multiplication: for any pointwise product \<open>y\<close> of the two transforms in Montgomery form, the inverse
  transform of \<open>y\<close> is the product of the polynomials.
\<close>

lemma inv_ntt_product:
  assumes "bounded B a" "bounded B b" "B \<le> 2147483648 - 8 * 8380417" "bounded 8388608 y"
    and y: "\<And>i. i < 256 \<Longrightarrow> eqm (4294967296 * y ! i) (ntt a ! i * ntt b ! i)"
  shows "eqml (inv_ntt_to_mont y) (nega_mul a b)"
proof -
  define p where "p = map (\<lambda>x. x mod 8380417) (nega_mul a b)"
  have len: "length (nega_mul a b) = 256" by (simp add: nega_mul_def)
  then have p: "bounded 8380417 p" "eqml p (nega_mul a b)"
    by (auto simp: p_def bounded_def list_all_iff eqml_def eqm_mod)
  have "eqm (4294967296 * y ! i) (ntt p ! i)" if i: "i < 256" for i
  proof -
    have "eqm (ntt a ! i * ntt b ! i) (peval a (node (256 + i)) * peval b (node (256 + i)))"
      by (intro eqm_mult ntt_eval [OF _ assms(3) i] assms)
    also have "eqm \<dots> (peval (nega_mul a b) (node (256 + i)))"
      by (rule eqm_sym [OF nega_mul_eval [OF root_256 [OF i]]])
    also have "eqm \<dots> (peval p (node (256 + i)))" by (rule peval_cong [OF eqml_sym [OF p(2)]])
    also have "eqm \<dots> (ntt p ! i)" using ntt_eval [OF p(1) _ i] by (simp add: eqm_sym)
    finally show ?thesis using y [OF i] eqm_trans by blast
  qed
  then have e: "eqml (scale 4294967296 y) (fold fz layer_counts p)"
    using ntt_layers_correct(2) [OF p(1)] assms(4)
    by (auto simp: eqml_def bounded_length intro: eqm_trans simp del: fold_simps)
  have "eqml (scale 4294967296 (fold gz (rev layer_counts) y)) (fold gz (rev layer_counts) (scale 4294967296 y))"
    using assms(4) by (intro eqml_sym [OF fold_gz_scale]) (simp_all add: bounded_length)
  also have "eqml \<dots> (fold gz (rev layer_counts) (fold fz layer_counts p))"
    by (intro fold_gz_cong e) simp
  also have "eqml \<dots> (scale 256 p)"
    using fold_gz_fz [of layer_counts p] p(1) by (simp add: bounded_length del: fold_simps)
  finally have "eqml (scale 4294967296 (fold gz (rev layer_counts) y)) (scale 256 p)" .
  from mont_scale [OF this]
  have "eqml (scale 4294967296 (scale 16382 (fold gz (rev layer_counts) y))) (scale 4294967296 p)"
    by (simp add: scale_scale mult.commute)
  then have "eqml (scale 16382 (fold gz (rev layer_counts) y)) p"
    by (rule eqml_cancel_mont)
  with inv_ntt_correct(2) [OF assms(4) order_refl] p(2) show ?thesis by (blast intro: eqml_trans)
qed

text \<open>
  \<open>ntt\<close> is the number theoretic transform: for every array of coefficients below 2080440312 in absolute
  value no \<open>int32_t\<close> overflows, every output grows by at most \<open>8 q\<close>, and output \<open>i\<close> is the value of the
  polynomial at a root of \<open>X^256 + 1\<close> modulo q.
\<close>

theorem ntt_is_evaluation:
  assumes "bounded B a" "B \<le> 2080440312"
  shows "bounded (B + 8 * 8380417) (ntt a) \<and>
    (\<forall>i < 256. (ntt a ! i) mod 8380417 = peval a (node (256 + i)) mod 8380417
             \<and> (node (256 + i) ^ 256) mod 8380417 = 8380416)"
proof -
  have B: "B \<le> 2147483648 - 8 * 8380417" using assms(2) by simp
  have "(node (256 + i) ^ 256) mod 8380417 = 8380416" if "i < 256" for i
    using root_256 [OF that] by (simp add: eqm_mod)
  with ntt_eval [OF assms(1) B] ntt_layers_correct(1) [OF assms(1) B] show ?thesis
    by (simp add: eqm_mod)
qed

theorem ntt_is_evaluation_witness:
  "bounded (2 + 8 * 8380417) (ntt (replicate 256 1)) \<and>
   (ntt (replicate 256 1) ! 0) mod 8380417 = peval (replicate 256 1) (node 256) mod 8380417"
proof -
  have "bounded 2 (replicate 256 1)" by (simp add: bounded_def list_all_length)
  from ntt_is_evaluation [OF this] show ?thesis by simp
qed

text \<open>
  \<open>ntt\<close> and \<open>inv_ntt_to_mont\<close> undo each other: on reduced coefficients the inverse transform of
  the transform, and the transform of the inverse transform, are the argument times \<open>2^32\<close> modulo q,
  and the inverse transform leaves every coefficient below 4211199 (about \<open>q / 2\<close>) in absolute value.
\<close>

theorem ntt_round_trip:
  assumes "bounded 8388608 a" "bounded 8388608 y" "eqml y (ntt a)"
  shows "eqml (inv_ntt_to_mont y) (scale 4294967296 a) \<and> bounded 4211199 (inv_ntt_to_mont y) \<and>
         eqml (ntt (inv_ntt_to_mont y)) (scale 4294967296 y)"
  using inv_ntt_ntt [OF assms] inv_ntt_correct(1) [OF assms(2)] ntt_inv_ntt [OF assms(2)] by simp

theorem ntt_round_trip_witness:
  "eqml (inv_ntt_to_mont (map (\<lambda>x. x mod 8380417) (ntt (replicate 256 3)))) (scale 4294967296 (replicate 256 3))"
proof -
  have a: "bounded 8388608 (replicate 256 3)" by (simp add: bounded_def list_all_length)
  then have len: "length (ntt (replicate 256 3)) = 256"
    using ntt_bounds [of 8388608 "replicate 256 3"] by (simp add: bounded_length)
  have "bounded 8388608 (map (\<lambda>x. x mod 8380417) (ntt (replicate 256 3)))"
  proof (rule boundedI)
    fix i :: nat assume "i < 256"
    then show "\<bar>map (\<lambda>x. x mod 8380417) (ntt (replicate 256 3)) ! i\<bar> < 8388608"
      using len pos_mod_bound [of 8380417 "ntt (replicate 256 3) ! i"] pos_mod_sign [of 8380417 "ntt (replicate 256 3) ! i"]
      by simp
  qed (simp add: len)
  moreover have "eqml (map (\<lambda>x. x mod 8380417) (ntt (replicate 256 3))) (ntt (replicate 256 3))"
    by (simp add: eqml_def len eqm_mod)
  ultimately show ?thesis using ntt_round_trip [OF a] by blast
qed

end
