(* ===== verification/Packing.thy ===== *)
theory Packing
  imports NTT_Ring
begin

text \<open>
  The packing routines of \<open>poly.c\<close>: coefficient arrays to bytes and back, with the shifts and masks
  of the code.  Each pair of routines is shown to be a bijection between the coefficients in the
  range of the format and the byte strings of its length, through the interface \<open>block_codec\<close>.
\<close>

subsection \<open>The loop bodies\<close>

text \<open>
  \<open>byte_of x\<close> is the conversion \<open>(uint8_t) x\<close>; a byte that is read in an expression is promoted to
  \<open>int\<close>, which is \<open>uint\<close>.
\<close>

abbreviation byte_of :: "int \<Rightarrow> byte" where
  "byte_of \<equiv> word_of_int"

definition eta_pack8 :: "int list \<Rightarrow> byte list" where
  "eta_pack8 c =
     (let t = (\<lambda>k. uint (byte_of (ETA - c ! k)))
      in [byte_of (t 0 OR push_bit 3 (t 1) OR push_bit 6 (t 2)),
          byte_of (drop_bit 2 (t 2) OR push_bit 1 (t 3) OR push_bit 4 (t 4) OR push_bit 7 (t 5)),
          byte_of (drop_bit 1 (t 5) OR push_bit 2 (t 6) OR push_bit 5 (t 7))])"

definition eta_unpack8 :: "byte list \<Rightarrow> int list" where
  "eta_unpack8 b =
     (let a = (\<lambda>k. uint (b ! k))
      in map (\<lambda>x. ETA - x)
         [a 0 AND 7,
          drop_bit 3 (a 0) AND 7,
          (drop_bit 6 (a 0) OR push_bit 2 (a 1)) AND 7,
          drop_bit 1 (a 1) AND 7,
          drop_bit 4 (a 1) AND 7,
          (drop_bit 7 (a 1) OR push_bit 1 (a 2)) AND 7,
          drop_bit 2 (a 2) AND 7,
          drop_bit 5 (a 2) AND 7])"

definition t1_pack4 :: "int list \<Rightarrow> byte list" where
  "t1_pack4 c =
     [byte_of (c ! 0),
      byte_of (asr (c ! 0) 8 OR i32 (push_bit 2 (c ! 1))),
      byte_of (asr (c ! 1) 6 OR i32 (push_bit 4 (c ! 2))),
      byte_of (asr (c ! 2) 4 OR i32 (push_bit 6 (c ! 3))),
      byte_of (asr (c ! 3) 2)]"

definition t1_unpack4 :: "byte list \<Rightarrow> int list" where
  "t1_unpack4 b =
     (let a = (\<lambda>k. uint (b ! k))
      in [(a 0 OR push_bit 8 (a 1)) AND 0x3FF,
          (drop_bit 2 (a 1) OR push_bit 6 (a 2)) AND 0x3FF,
          (drop_bit 4 (a 2) OR push_bit 4 (a 3)) AND 0x3FF,
          (drop_bit 6 (a 3) OR push_bit 2 (a 4)) AND 0x3FF])"

definition t0_pack8 :: "int list \<Rightarrow> byte list" where
  "t0_pack8 c =
     (let t = (\<lambda>k. uw32 (2 ^ (D - 1) - c ! k))
      in [byte_of (t 0),
          byte_of (drop_bit 8 (t 0)) OR byte_of (push_bit 5 (t 1)),
          byte_of (drop_bit 3 (t 1)),
          byte_of (drop_bit 11 (t 1)) OR byte_of (push_bit 2 (t 2)),
          byte_of (drop_bit 6 (t 2)) OR byte_of (push_bit 7 (t 3)),
          byte_of (drop_bit 1 (t 3)),
          byte_of (drop_bit 9 (t 3)) OR byte_of (push_bit 4 (t 4)),
          byte_of (drop_bit 4 (t 4)),
          byte_of (drop_bit 12 (t 4)) OR byte_of (push_bit 1 (t 5)),
          byte_of (drop_bit 7 (t 5)) OR byte_of (push_bit 6 (t 6)),
          byte_of (drop_bit 2 (t 6)),
          byte_of (drop_bit 10 (t 6)) OR byte_of (push_bit 3 (t 7)),
          byte_of (drop_bit 5 (t 7))])"

definition t0_unpack8 :: "byte list \<Rightarrow> int list" where
  "t0_unpack8 b =
     (let a = (\<lambda>k. uint (b ! k))
      in map (\<lambda>x. 2 ^ (D - 1) - x)
         [(a 0 OR push_bit 8 (a 1)) AND 0x1FFF,
          (drop_bit 5 (a 1) OR push_bit 3 (a 2) OR push_bit 11 (a 3)) AND 0x1FFF,
          (drop_bit 2 (a 3) OR push_bit 6 (a 4)) AND 0x1FFF,
          (drop_bit 7 (a 4) OR push_bit 1 (a 5) OR push_bit 9 (a 6)) AND 0x1FFF,
          (drop_bit 4 (a 6) OR push_bit 4 (a 7) OR push_bit 12 (a 8)) AND 0x1FFF,
          (drop_bit 1 (a 8) OR push_bit 7 (a 9)) AND 0x1FFF,
          (drop_bit 6 (a 9) OR push_bit 2 (a 10) OR push_bit 10 (a 11)) AND 0x1FFF,
          (drop_bit 3 (a 11) OR push_bit 5 (a 12)) AND 0x1FFF])"

definition z_pack2 :: "int list \<Rightarrow> byte list" where
  "z_pack2 c =
     (let t = (\<lambda>k. uw32 (GAMMA1 - c ! k))
      in [byte_of (t 0),
          byte_of (drop_bit 8 (t 0)),
          byte_of (drop_bit 16 (t 0)) OR byte_of (push_bit 4 (t 1)),
          byte_of (drop_bit 4 (t 1)),
          byte_of (drop_bit 12 (t 1))])"

definition z_unpack2 :: "byte list \<Rightarrow> int list" where
  "z_unpack2 b =
     (let a = (\<lambda>k. uint (b ! k))
      in map (\<lambda>x. GAMMA1 - x)
         [((a 0 OR push_bit 8 (a 1) OR push_bit 16 (a 2)) AND 0xFFFFF) AND 0xFFFFF,
          drop_bit 4 (a 2) OR push_bit 4 (a 3) OR push_bit 12 (a 4)])"

definition w1_pack2 :: "int list \<Rightarrow> byte list" where
  "w1_pack2 c = [byte_of (c ! 0 OR i32 (push_bit 4 (c ! 1)))]"

subsection \<open>The routines of poly.c\<close>

definition poly_eta_pack :: "poly \<Rightarrow> byte list" where
  "poly_eta_pack a = encode_blocks (N div 8) 8 eta_pack8 a"

definition poly_eta_unpack :: "byte list \<Rightarrow> poly" where
  "poly_eta_unpack a = encode_blocks (N div 8) 3 eta_unpack8 a"

definition poly_t1_pack :: "poly \<Rightarrow> byte list" where
  "poly_t1_pack a = encode_blocks (N div 4) 4 t1_pack4 a"

definition poly_t1_unpack :: "byte list \<Rightarrow> poly" where
  "poly_t1_unpack a = encode_blocks (N div 4) 5 t1_unpack4 a"

definition poly_t0_pack :: "poly \<Rightarrow> byte list" where
  "poly_t0_pack a = encode_blocks (N div 8) 8 t0_pack8 a"

definition poly_t0_unpack :: "byte list \<Rightarrow> poly" where
  "poly_t0_unpack a = encode_blocks (N div 8) 13 t0_unpack8 a"

definition poly_z_pack :: "poly \<Rightarrow> byte list" where
  "poly_z_pack a = encode_blocks (N div 2) 2 z_pack2 a"

definition poly_z_unpack :: "byte list \<Rightarrow> poly" where
  "poly_z_unpack a = encode_blocks (N div 2) 5 z_unpack2 a"

definition poly_w1_pack :: "poly \<Rightarrow> byte list" where
  "poly_w1_pack a = encode_blocks (N div 2) 2 w1_pack2 a"

subsection \<open>Bits of bounded integers\<close>

lemma take_bit_eqI:
  "list_all (\<lambda>n. bit x n = bit y n) [0..<k] \<Longrightarrow> take_bit k x = take_bit k (y :: int)"
  by (auto simp: list_all_iff bit_simps intro!: bit_eqI)

lemma byte_eqI: "list_all (\<lambda>n. bit x n = bit y n) [0..<8] \<Longrightarrow> x = (y :: byte)"
  by (auto simp: list_all_iff intro!: bit_word_eqI)

lemma and_masks:
  "x AND 7 = take_bit 3 x" "x AND 0x3FF = take_bit 10 x" "x AND 0x1FFF = take_bit 13 x"
  "x AND 0xFFFFF = take_bit 20 x" for x :: int
  by (simp_all add: take_bit_eq_mask mask_eq_exp_minus_1)

lemma uint_byte_of: "uint (byte_of x) = take_bit 8 x"
  by (simp add: uint_word_of_int take_bit_eq_mod)

lemma uint_or_byte: "uint (a OR b) = uint a OR uint b" for a b :: byte
  by (simp add: unsigned_or_eq)

lemma bit_byte_of: "bit (byte_of x) n \<longleftrightarrow> n < 8 \<and> bit x n"
  by (simp add: bit_word_of_int_iff)

lemma bit_uint_byte: "bit (uint (b :: byte)) n \<longleftrightarrow> bit b n"
  using bit_imp_le_length [of b n] by (auto simp: bit_uint_iff)

lemma bit_byte_high: "8 \<le> n \<Longrightarrow> \<not> bit (b :: byte) n"
  using bit_imp_le_length [of b n] by auto

lemma bit_i32: "n < 32 \<Longrightarrow> bit (i32 x) n \<longleftrightarrow> bit x n"
  by (cases "n = 31") (auto simp: i32_def bit_signed_take_bit_iff)

lemmas pack_bits = uint_byte_of uint_or_byte bit_byte_of bit_uint_byte bit_byte_high bit_i32 bit_or_iff
  bit_push_bit_iff bit_drop_bit_eq bit_take_bit_iff

lemmas bit_distribs = take_bit_or push_bit_or drop_bit_or take_bit_take_bit take_bit_push_bit drop_bit_push_bit push_bit_take_bit drop_bit_take_bit push_bit_push_bit
  push_bit_Suc

lemma take_bit_range: "0 \<le> x \<Longrightarrow> x < 2 ^ k \<Longrightarrow> take_bit k x = (x :: int)"
  by (simp add: take_bit_int_eq_self)

lemma exhaust2: "length c = 2 \<Longrightarrow> \<exists>x y. c = [x, y]"
  by (auto simp: length_Suc_conv numeral_2_eq_2)

lemma exhaust3: "length c = 3 \<Longrightarrow> \<exists>x y z. c = [x, y, z]"
  by (auto simp: length_Suc_conv numeral_3_eq_3)

lemma exhaust4: "length c = 4 \<Longrightarrow> \<exists>x y z w. c = [x, y, z, w]"
  by (auto simp: length_Suc_conv eval_nat_numeral)

lemma exhaust5: "length c = 5 \<Longrightarrow> \<exists>x y z w v. c = [x, y, z, w, v]"
  by (auto simp: length_Suc_conv eval_nat_numeral)

lemma exhaust8: "length c = 8 \<Longrightarrow> \<exists>x0 x1 x2 x3 x4 x5 x6 x7. c = [x0, x1, x2, x3, x4, x5, x6, x7]"
  by (auto simp: length_Suc_conv eval_nat_numeral)

lemma exhaust13: "length c = 13 \<Longrightarrow> \<exists>x0 x1 x2 x3 x4 x5 x6 x7 x8 x9 x10 x11 x12.
    c = [x0, x1, x2, x3, x4, x5, x6, x7, x8, x9, x10, x11, x12]"
  by (auto simp: length_Suc_conv eval_nat_numeral)

subsection \<open>The formats are codecs\<close>

definition t1_ok :: "int \<Rightarrow> bool" where "t1_ok c \<longleftrightarrow> 0 \<le> c \<and> c < 1024"

lemma upts:
  "[0..<3] = [0, 1, 2]"
  "[0..<8] = [0, 1, 2, 3, 4, 5, 6, 7]"
  "[0..<10] = [0, 1, 2, 3, 4, 5, 6, 7, 8, 9]"
  "[0..<13] = [0, 1, 2, 3, 4, 5, 6, 7, 8, 9, 10, 11, 12]"
  "[0..<20] = [0, 1, 2, 3, 4, 5, 6, 7, 8, 9, 10, 11, 12, 13, 14, 15, 16, 17, 18, 19]"
  by (simp_all add: upt_rec)

lemmas pack_eval = upts list.pred_inject pack_bits numeral_2_eq_2 [symmetric]

lemma take_bit_less:
  "take_bit 3 x < 8" "take_bit 10 x < 1024" "take_bit 13 x < 8192" "take_bit 20 x < 1048576" for x :: int
  using take_bit_int_less_exp [of 3 x] take_bit_int_less_exp [of 10 x] take_bit_int_less_exp [of 13 x]
    take_bit_int_less_exp [of 20 x] by simp_all

text \<open>Fields of bounded width; the round trips are stated on truncated fields first.\<close>

lemma map_take_bit_id:
  assumes "list_all (\<lambda>x. 0 \<le> x \<and> x < 2 ^ k) c"
  shows "map (take_bit k) c = (c :: int list)"
  using assms by (induction c) (simp_all add: take_bit_int_eq_self)

lemma t1_up_pk_bits:
  "length c = 4 \<Longrightarrow> t1_unpack4 (t1_pack4 (map (take_bit 10) c)) = map (take_bit 10) c"
  by (drule exhaust4, clarsimp simp: t1_pack4_def t1_unpack4_def Let_def asr_def and_masks simp del: bit_distribs)
    (intro conjI take_bit_eqI; simp add: pack_eval del: push_bit_Suc)

lemma t1_pk_up_bits: "length b = 5 \<Longrightarrow> t1_pack4 (t1_unpack4 b) = b"
  by (drule exhaust5, clarsimp simp: t1_pack4_def t1_unpack4_def Let_def asr_def and_masks simp del: bit_distribs)
    (intro conjI byte_eqI; simp add: pack_eval del: push_bit_Suc)

interpretation t1c: block_codec t1_pack4 t1_unpack4 t1_ok 4 5
proof
  fix c assume "length c = 4" "list_all t1_ok c"
  moreover from this have "map (take_bit 10) c = c" by (intro map_take_bit_id) (simp add: t1_ok_def [abs_def])
  ultimately show "t1_unpack4 (t1_pack4 c) = c" using t1_up_pk_bits [of c] by simp
qed (simp_all only: t1_pk_up_bits, simp_all add: t1_pack4_def t1_unpack4_def t1_ok_def Let_def and_masks take_bit_less del: bit_distribs)

text \<open>The formats with an offset: \<open>t = K - c\<close> for \<open>K = ETA\<close>, \<open>2^12\<close> and \<open>GAMMA1\<close>.\<close>

definition eta_ok :: "int \<Rightarrow> bool" where "eta_ok c \<longleftrightarrow> - 6 < c \<and> c \<le> ETA"
definition t0_ok :: "int \<Rightarrow> bool" where "t0_ok c \<longleftrightarrow> - 4096 < c \<and> c \<le> 4096"
definition z_ok :: "int \<Rightarrow> bool" where "z_ok c \<longleftrightarrow> - GAMMA1 < c \<and> c \<le> GAMMA1"

lemma map_offset_id:
  assumes "list_all (\<lambda>x. 0 \<le> k - x \<and> k - x < 2 ^ n) c"
  shows "map (\<lambda>x. k - take_bit n (k - x)) c = (c :: int list)"
  using assms by (induction c) (simp_all add: take_bit_int_eq_self)

lemma uw32_take_bit: "n \<le> 32 \<Longrightarrow> uw32 (take_bit n x) = take_bit n x"
  by (simp add: uw32_def take_bit_take_bit)

lemma eta_up_pk_bits:
  "length c = 8 \<Longrightarrow>
   eta_unpack8 (eta_pack8 (map (\<lambda>x. ETA - take_bit 3 (ETA - x)) c)) = map (\<lambda>x. ETA - take_bit 3 (ETA - x)) c"
  by (drule exhaust8, clarsimp simp: eta_pack8_def eta_unpack8_def Let_def and_masks uint_byte_of simp del: bit_distribs)
    (intro conjI take_bit_eqI; simp add: pack_eval del: push_bit_Suc)

lemma eta_pk_up_bits: "length b = 3 \<Longrightarrow> eta_pack8 (eta_unpack8 b) = b"
  by (drule exhaust3, clarsimp simp: eta_pack8_def eta_unpack8_def Let_def and_masks uint_byte_of simp del: bit_distribs)
    (intro conjI byte_eqI; simp add: pack_eval del: push_bit_Suc)

lemma t0_up_pk_bits:
  "length c = 8 \<Longrightarrow>
   t0_unpack8 (t0_pack8 (map (\<lambda>x. 4096 - take_bit 13 (4096 - x)) c)) = map (\<lambda>x. 4096 - take_bit 13 (4096 - x)) c"
  by (drule exhaust8, clarsimp simp: t0_pack8_def t0_unpack8_def Let_def and_masks uw32_take_bit simp del: bit_distribs)
    (intro conjI take_bit_eqI; simp add: pack_eval del: push_bit_Suc)

lemma t0_pk_up_bits: "length b = 13 \<Longrightarrow> t0_pack8 (t0_unpack8 b) = b"
  by (drule exhaust13, clarsimp simp: t0_pack8_def t0_unpack8_def Let_def and_masks uw32_take_bit simp del: bit_distribs)
    (intro conjI byte_eqI; simp add: pack_eval del: push_bit_Suc)

text \<open>The second coefficient of a group of \<open>poly_z_unpack\<close> is not masked; its three bytes fit.\<close>

lemma z_second: "drop_bit 4 (uint a) OR push_bit 4 (uint b) OR push_bit 12 (uint c) =
    take_bit 20 (drop_bit 4 (uint a) OR push_bit 4 (uint b) OR push_bit 12 (uint c))" for a b c :: byte
  by (rule bit_eqI) (auto simp: pack_bits dest: bit_imp_le_length)

lemma z_unpack2_alt: "z_unpack2 b =
     map (\<lambda>x. GAMMA1 - x)
         [(uint (b ! 0) OR push_bit 8 (uint (b ! 1)) OR push_bit 16 (uint (b ! 2))) AND 0xFFFFF AND 0xFFFFF,
          take_bit 20 (drop_bit 4 (uint (b ! 2)) OR push_bit 4 (uint (b ! 3)) OR push_bit 12 (uint (b ! 4)))]"
  unfolding z_unpack2_def Let_def z_second [symmetric] by (simp add: and.assoc)

lemma z_up_pk_bits:
  "length c = 2 \<Longrightarrow>
   z_unpack2 (z_pack2 (map (\<lambda>x. GAMMA1 - take_bit 20 (GAMMA1 - x)) c)) = map (\<lambda>x. GAMMA1 - take_bit 20 (GAMMA1 - x)) c"
  by (drule exhaust2, clarsimp simp: z_pack2_def z_unpack2_alt Let_def and_masks uw32_take_bit simp del: bit_distribs)
    (intro conjI take_bit_eqI; simp add: pack_eval del: push_bit_Suc)

lemma z_pk_up_bits: "length b = 5 \<Longrightarrow> z_pack2 (z_unpack2 b) = b"
  by (drule exhaust5, clarsimp simp: z_pack2_def z_unpack2_alt Let_def and_masks uw32_take_bit simp del: bit_distribs)
    (intro conjI byte_eqI; simp add: pack_eval del: push_bit_Suc)

interpretation etac: block_codec eta_pack8 eta_unpack8 eta_ok 8 3
proof
  fix c assume "length c = 8" "list_all eta_ok c"
  moreover from this have "map (\<lambda>x. ETA - take_bit 3 (ETA - x)) c = c"
    by (intro map_offset_id) (auto simp: eta_ok_def list_all_iff)
  ultimately show "eta_unpack8 (eta_pack8 c) = c" using eta_up_pk_bits [of c] by simp
qed (simp_all only: eta_pk_up_bits, simp_all add: eta_pack8_def eta_unpack8_def eta_ok_def Let_def and_masks take_bit_less del: bit_distribs)

interpretation t0c: block_codec t0_pack8 t0_unpack8 t0_ok 8 13
proof
  fix c assume "length c = 8" "list_all t0_ok c"
  moreover from this have "map (\<lambda>x. 4096 - take_bit 13 (4096 - x)) c = c"
    by (intro map_offset_id) (auto simp: t0_ok_def list_all_iff)
  ultimately show "t0_unpack8 (t0_pack8 c) = c" using t0_up_pk_bits [of c] by simp
next
  fix b :: "byte list"
  have "- 4096 < 4096 - take_bit 13 x \<and> 4096 - take_bit 13 x \<le> 4096" for x :: int
    using take_bit_less(3) [of x] by simp
  then show "list_all t0_ok (t0_unpack8 b)"
    by (simp add: t0_unpack8_def t0_ok_def Let_def and_masks del: bit_distribs)
qed (simp_all only: t0_pk_up_bits, simp_all add: t0_pack8_def t0_unpack8_def Let_def)

interpretation zc: block_codec z_pack2 z_unpack2 z_ok 2 5
proof
  fix c assume "length c = 2" "list_all z_ok c"
  moreover from this have "map (\<lambda>x. GAMMA1 - take_bit 20 (GAMMA1 - x)) c = c"
    by (intro map_offset_id) (auto simp: z_ok_def list_all_iff)
  ultimately show "z_unpack2 (z_pack2 c) = c" using z_up_pk_bits [of c] by simp
next
  fix b :: "byte list"
  have "- GAMMA1 < GAMMA1 - take_bit 20 x \<and> GAMMA1 - take_bit 20 x \<le> GAMMA1" for x :: int
    using take_bit_less(4) [of x] by simp
  then show "list_all z_ok (z_unpack2 b)"
    by (simp add: z_unpack2_alt z_ok_def and_masks del: bit_distribs)
qed (simp_all only: z_pk_up_bits, simp_all add: z_pack2_def z_unpack2_def Let_def)

text \<open>Packing of the high bits \<open>w1\<close>, which is only hashed: two 4-bit values per byte, without loss.\<close>

definition w1_ok :: "int \<Rightarrow> bool" where "w1_ok c \<longleftrightarrow> 0 \<le> c \<and> c < 16"

definition w1_split :: "byte list \<Rightarrow> int list" where
  "w1_split b = [take_bit 4 (uint (b ! 0)), take_bit 4 (drop_bit 4 (uint (b ! 0)))]"

lemma w1_split_bits: "length c = 2 \<Longrightarrow> w1_split (w1_pack2 (map (take_bit 4) c)) = map (take_bit 4) c"
  by (drule exhaust2, clarsimp simp: w1_pack2_def w1_split_def simp del: bit_distribs)
    (intro conjI take_bit_eqI; simp add: pack_eval upt_rec del: push_bit_Suc)

lemma w1_pack_bits: "length b = 1 \<Longrightarrow> w1_pack2 (w1_split b) = b"
  by (clarsimp simp: w1_pack2_def w1_split_def length_Suc_conv simp del: bit_distribs)
    (rule byte_eqI, simp add: pack_eval del: push_bit_Suc)

interpretation w1c: block_codec w1_pack2 w1_split w1_ok 2 1
proof
  fix c assume "length c = 2" "list_all w1_ok c"
  moreover from this have "map (take_bit 4) c = c" by (intro map_take_bit_id) (auto simp: w1_ok_def list_all_iff)
  ultimately show "w1_split (w1_pack2 c) = c" using w1_split_bits [of c] by simp
next
  fix b :: "byte list"
  show "list_all w1_ok (w1_split b)"
    using take_bit_int_less_exp [of 4 "uint (b ! 0)"] take_bit_int_less_exp [of 4 "drop_bit 4 (uint (b ! 0))"]
    by (simp add: w1_split_def w1_ok_def)
qed (simp_all only: w1_pack_bits, simp_all add: w1_pack2_def w1_split_def)

lemma poly_w1_pack_inj:
  assumes "length a = 256" "length b = 256" "list_all w1_ok a" "list_all w1_ok b" "poly_w1_pack a = poly_w1_pack b"
  shows "a = b"
proof -
  have "encode_blocks 128 1 w1_split (poly_w1_pack x) = x" if "length x = 256" "list_all w1_ok x" for x
    using w1c.decode_encode [of x 128] that by (simp add: poly_w1_pack_def)
  with assms show ?thesis by metis
qed

lemma length_packs [wf_intros]:
  "length a = 256 \<Longrightarrow> list_all eta_ok a \<Longrightarrow> length (poly_eta_pack a) = 96"
  "length a = 256 \<Longrightarrow> list_all t1_ok a \<Longrightarrow> length (poly_t1_pack a) = 320"
  "length a = 256 \<Longrightarrow> list_all t0_ok a \<Longrightarrow> length (poly_t0_pack a) = 416"
  "length a = 256 \<Longrightarrow> list_all z_ok a \<Longrightarrow> length (poly_z_pack a) = 640"
  "length a = 256 \<Longrightarrow> list_all w1_ok a \<Longrightarrow> length (poly_w1_pack a) = 128"
  using etac.encode_length [of a 32] t1c.encode_length [of a 64] t0c.encode_length [of a 32]
    zc.encode_length [of a 128] w1c.encode_length [of a 128]
  by (simp_all add: poly_eta_pack_def poly_t1_pack_def poly_t0_pack_def poly_z_pack_def poly_w1_pack_def)

lemma length_pack_all [simp]: "length (poly_t1_pack a) = 320" "length (poly_z_pack a) = 640" "length (poly_w1_pack a) = 128"
proof -
  have t1: "length (t1_pack4 c) = 5" and z: "length (z_pack2 c) = 5" and w1: "length (w1_pack2 c) = 1" for c
    by (simp_all add: t1_pack4_def z_pack2_def w1_pack2_def Let_def)
  show "length (poly_t1_pack a) = 320" "length (poly_z_pack a) = 640" "length (poly_w1_pack a) = 128"
    unfolding poly_t1_pack_def poly_z_pack_def poly_w1_pack_def
    by (simp_all add: length_encode_blocks [OF t1] length_encode_blocks [OF z] length_encode_blocks [OF w1])
qed

lemma z_pack_unpack [codec_simps]:
  "length a = 256 \<Longrightarrow> list_all z_ok a \<Longrightarrow> poly_z_unpack (poly_z_pack a) = a"
  "length b = 640 \<Longrightarrow> poly_z_pack (poly_z_unpack b) = b"
  "length b = 640 \<Longrightarrow> length (poly_z_unpack b) = 256"
  "length b = 640 \<Longrightarrow> list_all z_ok (poly_z_unpack b)"
  using zc.decode_encode [of a 128] zc.encode_decode [of b 128] zc.decode_length [of b 128] zc.decode_range [of b 128]
  by (simp_all add: poly_z_pack_def poly_z_unpack_def)

text \<open>
  C30.  The packings of \<open>poly.c\<close> are lossless: for each of the formats eta, t1, t0 and z, unpacking what
  was packed gives back every polynomial whose coefficients are in the range of the format, and the
  packed form has the length that \<open>constant.h\<close> states for it.
\<close>

theorem packing_round_trips:
  assumes "length a = 256"
  shows "(list_all eta_ok a \<longrightarrow> length (poly_eta_pack a) = 96 \<and> poly_eta_unpack (poly_eta_pack a) = a)
    \<and> (list_all t1_ok a \<longrightarrow> length (poly_t1_pack a) = 320 \<and> poly_t1_unpack (poly_t1_pack a) = a)
    \<and> (list_all t0_ok a \<longrightarrow> length (poly_t0_pack a) = 416 \<and> poly_t0_unpack (poly_t0_pack a) = a)
    \<and> (list_all z_ok a \<longrightarrow> length (poly_z_pack a) = 640 \<and> poly_z_unpack (poly_z_pack a) = a)"
  using assms length_packs [of a] etac.decode_encode [of a 32] t1c.decode_encode [of a 64]
    t0c.decode_encode [of a 32] zc.decode_encode [of a 128]
  by (simp add: poly_eta_pack_def poly_t1_pack_def poly_t0_pack_def poly_z_pack_def
      poly_eta_unpack_def poly_t1_unpack_def poly_t0_unpack_def poly_z_unpack_def)

theorem packing_round_trips_witness:
  "poly_eta_unpack (poly_eta_pack (replicate 256 (- 2))) = replicate 256 (- 2) \<and>
   poly_t1_unpack (poly_t1_pack (replicate 256 1023)) = replicate 256 1023 \<and>
   poly_t0_unpack (poly_t0_pack (replicate 256 4096)) = replicate 256 4096 \<and>
   poly_z_unpack (poly_z_pack (replicate 256 (- 524287))) = replicate 256 (- 524287)"
  using packing_round_trips [of "replicate 256 (- 2)"] packing_round_trips [of "replicate 256 1023"]
    packing_round_trips [of "replicate 256 4096"] packing_round_trips [of "replicate 256 (- 524287)"]
  by (simp add: eta_ok_def t1_ok_def t0_ok_def z_ok_def list_all_length)

text \<open>
  The unpacking routines are total and canonical: every byte string of the right length unpacks
  to a polynomial in the range of the format, and packing it again gives the same bytes, so no two
  byte strings stand for the same polynomial.
\<close>

theorem packing_canonical:
  "(length b = 96 \<longrightarrow> list_all eta_ok (poly_eta_unpack b) \<and> poly_eta_pack (poly_eta_unpack b) = b)
   \<and> (length b = 320 \<longrightarrow> list_all t1_ok (poly_t1_unpack b) \<and> poly_t1_pack (poly_t1_unpack b) = b)
   \<and> (length b = 416 \<longrightarrow> list_all t0_ok (poly_t0_unpack b) \<and> poly_t0_pack (poly_t0_unpack b) = b)
   \<and> (length b = 640 \<longrightarrow> list_all z_ok (poly_z_unpack b) \<and> poly_z_pack (poly_z_unpack b) = b)"
  using etac.decode_range [of b 32] t1c.decode_range [of b 64] t0c.decode_range [of b 32] zc.decode_range [of b 128]
    etac.encode_decode [of b 32] t1c.encode_decode [of b 64] t0c.encode_decode [of b 32] zc.encode_decode [of b 128]
  by (simp add: poly_eta_pack_def poly_t1_pack_def poly_t0_pack_def poly_z_pack_def
      poly_eta_unpack_def poly_t1_unpack_def poly_t0_unpack_def poly_z_unpack_def)

theorem packing_canonical_witness:
  "poly_eta_pack (poly_eta_unpack (replicate 96 0x92)) = replicate 96 0x92 \<and>
   poly_z_pack (poly_z_unpack (replicate 640 0xA5)) = replicate 640 0xA5"
  using packing_canonical [of "replicate 96 0x92"] packing_canonical [of "replicate 640 0xA5"] by simp

end
