(* ===== verification/Poly.thy ===== *)
theory Poly
  imports Packing
begin

text \<open>
  The arithmetic of \<open>poly.c\<close> on one polynomial.  A \<open>Poly\<close> is the list of its 256 coefficients; a
  function that stores into \<open>c->coeffs[i]\<close> for all \<open>i\<close> returns the new list (every loop reads and writes
  the same index, so it also describes the calls in which the result overwrites an argument).
  The lemmas give ranges and residues, the exact meaning of the norm check, and multiplication in
  the ring through the transforms.
\<close>

subsection \<open>poly.c\<close>

definition poly_c_addq :: "poly \<Rightarrow> poly" where
  "poly_c_addq a = map c_addq a"

definition poly_reduce :: "poly \<Rightarrow> poly" where
  "poly_reduce a = map reduce_32 a"

definition poly_add :: "poly \<Rightarrow> poly \<Rightarrow> poly" where
  "poly_add a b = map2 (\<lambda>x y. i32 (x + y)) a b"

definition poly_sub :: "poly \<Rightarrow> poly \<Rightarrow> poly" where
  "poly_sub a b = map2 (\<lambda>x y. i32 (x - y)) a b"

definition poly_shitf_l :: "poly \<Rightarrow> poly" where
  "poly_shitf_l a = map (\<lambda>x. i32 (push_bit D x)) a"

definition poly_ntt :: "poly \<Rightarrow> poly" where
  "poly_ntt a = ntt a"

definition poly_inv_ntt_to_mont :: "poly \<Rightarrow> poly" where
  "poly_inv_ntt_to_mont a = inv_ntt_to_mont a"

definition poly_pointwise_montgomery :: "poly \<Rightarrow> poly \<Rightarrow> poly" where
  "poly_pointwise_montgomery a b = map2 (\<lambda>x y. montgomery_reduce (i64 (x * y))) a b"

text \<open>The pair of the polynomials \<open>a1\<close> and \<open>a0\<close> the code stores.\<close>

definition poly_power2_round :: "poly \<Rightarrow> poly \<times> poly" where
  "poly_power2_round a = (map (\<lambda>x. fst (power2_round x)) a, map (\<lambda>x. snd (power2_round x)) a)"

definition poly_decompose :: "poly \<Rightarrow> poly \<times> poly" where
  "poly_decompose a = (map (\<lambda>x. fst (decompose x)) a, map (\<lambda>x. snd (decompose x)) a)"

text \<open>The hint polynomial and its number of ones, counted in a \<open>uint32_t\<close>.\<close>

definition poly_make_hint :: "poly \<Rightarrow> poly \<Rightarrow> poly \<times> int" where
  "poly_make_hint a0 a1 =
     (let h = map2 make_hint a0 a1 in (h, fold (\<lambda>x s. uw32 (s + uw32 x)) h 0))"

definition poly_use_hint :: "poly \<Rightarrow> poly \<Rightarrow> poly" where
  "poly_use_hint a h = map2 use_hint a h"

text \<open>The body of the loop of \<open>poly_chk_norm\<close>.\<close>

definition chk_norm_step :: "int \<Rightarrow> int \<Rightarrow> int \<Rightarrow> int" where
  "chk_norm_step B x violation =
     (let t = asr x 31;
          t = i32 (x - (t AND i32 (2 * x)))
      in violation OR (1 XOR sign_bit (i32 (t - B))))"

definition poly_chk_norm :: "poly \<Rightarrow> int \<Rightarrow> int" where
  "poly_chk_norm a B =
     (if B > (Q_CONST - 1) div 8 then 1 else fold (chk_norm_step B) a 0 AND 1)"

subsection \<open>The norm check\<close>

lemma chk_norm_abs:
  assumes "\<bar>x\<bar> < 1073741824"
  shows "i32 (x - (asr x 31 AND i32 (2 * x))) = \<bar>x\<bar>"
proof -
  have "asr x 31 = (if x < 0 then - 1 else 0)" using assms by (intro asr_31) simp_all
  then show ?thesis using assms by simp
qed

lemma chk_norm_step_eq:
  assumes "\<bar>x\<bar> < 1073741824" "0 \<le> B" "B \<le> 1047552" "v \<in> {0, 1}"
  shows "chk_norm_step B x v = (if v = 1 \<or> \<not> \<bar>x\<bar> < B then 1 else 0)"
proof -
  have "sign_bit (i32 (\<bar>x\<bar> - B)) = (if \<bar>x\<bar> < B then 1 else 0)"
    using assms by (simp add: sign_bit_eq)
  then show ?thesis
    using assms(4) unfolding chk_norm_step_def Let_def chk_norm_abs [OF assms(1)] by auto
qed

lemma chk_norm_fold:
  assumes "list_all (\<lambda>x. \<bar>x\<bar> < 1073741824) a" "0 \<le> B" "B \<le> 1047552" "v \<in> {0, 1}"
  shows "fold (chk_norm_step B) a v = (if v = 1 \<or> \<not> list_all (\<lambda>x. \<bar>x\<bar> < B) a then 1 else 0)"
  using assms by (induction a arbitrary: v) (auto simp: chk_norm_step_eq)

lemma poly_chk_norm_eq:
  assumes "bounded 1073741824 a" "0 \<le> B"
  shows "poly_chk_norm a B = (if B \<le> 1047552 \<and> list_all (\<lambda>x. \<bar>x\<bar> < B) a then 0 else 1)"
proof (cases "B \<le> 1047552")
  case True
  have "list_all (\<lambda>x. \<bar>x\<bar> < 1073741824) a" using assms(1) by (simp add: bounded_def)
  from chk_norm_fold [OF this assms(2) True, of 0] True show ?thesis
    by (simp add: poly_chk_norm_def)
qed (simp add: poly_chk_norm_def)

text \<open>
  The branchless norm check decides the infinity norm: for coefficients below \<open>2^30\<close> in absolute
  value and a bound up to \<open>(q - 1) / 8\<close>, \<open>poly_chk_norm\<close> returns 0 exactly if every coefficient is
  strictly smaller than the bound, and 1 otherwise; every larger bound is refused.
\<close>

theorem chk_norm_decides:
  assumes "bounded 1073741824 a" "0 \<le> B"
  shows "poly_chk_norm a B \<in> {0, 1} \<and>
    (poly_chk_norm a B = 0 \<longleftrightarrow> B \<le> (8380417 - 1) div 8 \<and> (\<forall>x \<in> set a. \<bar>x\<bar> < B))"
  using poly_chk_norm_eq [OF assms] by (auto simp: list_all_iff)

theorem chk_norm_decides_witness:
  "poly_chk_norm (replicate 256 (- 524168)) 524168 = 1 \<and> poly_chk_norm (replicate 256 (- 524167)) 524168 = 0"
  using chk_norm_decides [of "replicate 256 (- 524168)" 524168] chk_norm_decides [of "replicate 256 (- 524167)" 524168]
  by (auto simp: bounded_def list_all_length)

subsection \<open>Ranges and residues of the polynomial operations\<close>

lemma length_poly_ops [wf_intros]:
  "length a = 256 \<Longrightarrow> length (poly_c_addq a) = 256"
  "length a = 256 \<Longrightarrow> length (poly_reduce a) = 256"
  "length a = 256 \<Longrightarrow> length b = 256 \<Longrightarrow> length (poly_add a b) = 256"
  "length a = 256 \<Longrightarrow> length b = 256 \<Longrightarrow> length (poly_sub a b) = 256"
  "length a = 256 \<Longrightarrow> length (poly_shitf_l a) = 256"
  "length a = 256 \<Longrightarrow> length b = 256 \<Longrightarrow> length (poly_pointwise_montgomery a b) = 256"
  "length a = 256 \<Longrightarrow> length b = 256 \<Longrightarrow> length (poly_use_hint a b) = 256"
  by (simp_all add: poly_c_addq_def poly_reduce_def poly_add_def poly_sub_def poly_shitf_l_def
      poly_pointwise_montgomery_def poly_use_hint_def)

lemma poly_reduce_correct:
  assumes "bounded 2143289344 a"
  shows "bounded 6283010 (poly_reduce a)" "eqml (poly_reduce a) a"
proof -
  have "eqm (reduce_32 (a ! i)) (a ! i)" "\<bar>reduce_32 (a ! i)\<bar> < 6283010" if "i < 256" for i
    using reduce_32_correct [of "a ! i"] bounded_nth [OF assms that] by (simp_all add: abs_less_iff)
  with bounded_length [OF assms] show "bounded 6283010 (poly_reduce a)" "eqml (poly_reduce a) a"
    by (simp_all add: poly_reduce_def bounded_def list_all_length eqml_def)
qed

lemma poly_c_addq_correct:
  assumes "bounded 8380417 a"
  shows "poly_c_addq a = map (\<lambda>x. x mod 8380417) a"
  using assms by (auto simp: poly_c_addq_def bounded_def list_all_iff abs_less_iff intro!: c_addq_correct)

lemma poly_add_correct:
  assumes "bounded A a" "bounded B b" "A + B \<le> 2147483648"
  shows "poly_add a b = map2 (+) a b" "bounded (A + B) (poly_add a b)"
    "poly_sub a b = map2 (-) a b" "bounded (A + B) (poly_sub a b)"
proof -
  note len = bounded_length [OF assms(1)] bounded_length [OF assms(2)]
  have b: "\<bar>a ! i + b ! i\<bar> < A + B" "\<bar>a ! i - b ! i\<bar> < A + B" if "i < 256" for i
    using bounded_nth [OF assms(1) that] bounded_nth [OF assms(2) that] by linarith+
  have w: "i32 (a ! i + b ! i) = a ! i + b ! i" "i32 (a ! i - b ! i) = a ! i - b ! i" if "i < 256" for i
    using b [OF that] assms(3) by (auto intro!: i32_id)
  show e: "poly_add a b = map2 (+) a b" "poly_sub a b = map2 (-) a b"
    by (simp_all add: poly_add_def poly_sub_def list_eq_iff_nth_eq len w)
  show "bounded (A + B) (poly_add a b)" "bounded (A + B) (poly_sub a b)"
    unfolding e using b len by (simp_all add: bounded_def list_all_length)
qed

lemma pointwise_correct:
  assumes "bounded A a" "bounded B b" "A * B \<le> 2147483648 * 8380417"
  shows "bounded 8380417 (poly_pointwise_montgomery a b)"
    "\<And>i. i < 256 \<Longrightarrow> eqm (4294967296 * poly_pointwise_montgomery a b ! i) (a ! i * b ! i)"
proof -
  note len = bounded_length [OF assms(1)] bounded_length [OF assms(2)]
  have m: "montgomery_reduce (i64 (a ! i * b ! i)) = montgomery_reduce (a ! i * b ! i)"
    "\<bar>a ! i * b ! i\<bar> < 2147483648 * 8380417" if "i < 256" for i
  proof -
    have "\<bar>a ! i\<bar> * \<bar>b ! i\<bar> < A * B"
      using bounded_nth [OF assms(1) that] bounded_nth [OF assms(2) that] by (intro mult_strict_mono') simp_all
    then show "\<bar>a ! i * b ! i\<bar> < 2147483648 * 8380417" using assms(3) by (simp add: abs_mult)
    then have "i64 (a ! i * b ! i) = a ! i * b ! i" by (auto intro!: i64_id)
    then show "montgomery_reduce (i64 (a ! i * b ! i)) = montgomery_reduce (a ! i * b ! i)" by simp
  qed
  show "bounded 8380417 (poly_pointwise_montgomery a b)"
    using len montgomery_reduce_exact(2) [OF m(2)] m(1)
    by (simp add: bounded_def list_all_length poly_pointwise_montgomery_def)
  show "eqm (4294967296 * poly_pointwise_montgomery a b ! i) (a ! i * b ! i)" if "i < 256" for i
    using that len montgomery_reduce_eqm [OF m(2)] m(1) by (simp add: poly_pointwise_montgomery_def)
qed

text \<open>
  Multiplication of polynomials: transforming two reduced polynomials with \<open>poly_ntt\<close>, multiplying
  them with \<open>poly_pointwise_montgomery\<close> and transforming back with \<open>poly_inv_ntt_to_mont\<close> gives their
  product modulo \<open>X^256 + 1\<close> and modulo q, with coefficients of about \<open>q / 2\<close> and no overflow on the way.
\<close>

theorem poly_multiplication:
  assumes "bounded 8380417 a" "bounded 8380417 b"
  shows "eqml (poly_inv_ntt_to_mont (poly_pointwise_montgomery (poly_ntt a) (poly_ntt b))) (nega_mul a b)
    \<and> bounded 4211199 (poly_inv_ntt_to_mont (poly_pointwise_montgomery (poly_ntt a) (poly_ntt b)))"
proof -
  have n: "bounded 75423753 (ntt a)" "bounded 75423753 (ntt b)"
    using ntt_bounds [OF assms(1)] ntt_bounds [OF assms(2)] by simp_all
  let ?y = "poly_pointwise_montgomery (ntt a) (ntt b)"
  have y: "bounded 8380417 ?y" "\<And>i. i < 256 \<Longrightarrow> eqm (4294967296 * ?y ! i) (ntt a ! i * ntt b ! i)"
    by (rule pointwise_correct [OF n], simp)+
  have y': "bounded 8388608 ?y" by (rule bounded_mono [OF y(1)]) simp
  show ?thesis
    unfolding poly_ntt_def poly_inv_ntt_to_mont_def
    using inv_ntt_product [OF assms _ y' y(2)] inv_ntt_correct(1) [OF y'] by simp
qed

theorem poly_multiplication_witness:
  "eqml (poly_inv_ntt_to_mont (poly_pointwise_montgomery (poly_ntt (replicate 256 1)) (poly_ntt (replicate 256 (- 8380416)))))
        (nega_mul (replicate 256 1) (replicate 256 (- 8380416)))"
  using poly_multiplication [of "replicate 256 1" "replicate 256 (- 8380416)"]
  by (simp add: bounded_def list_all_length)

end
