(* ===== verification/Sampling.thy ===== *)
theory Sampling
  imports Keccak Poly
begin

text \<open>
  The samplers: \<open>rej_uniform\<close>, \<open>rej_eta\<close>, \<open>poly_uniform_eta\<close>, \<open>poly_uniform_gamma1\<close> and \<open>poly_challenge\<close> of
  \<open>poly.c\<close>, and the copies of the matrix sampler and of the challenge sampler inside \<open>sign.c\<close>.  The
  rejection loops run until enough bytes are accepted, which no bound on the loop guarantees, so
  they are partial functions and \<open>None\<close> is a loop that never ends.  The theorems say exactly when
  they return and what: a prefix of the accepted values of the SHAKE stream.
\<close>

subsection \<open>The rejection steps\<close>

definition coeff3 :: "byte \<Rightarrow> byte \<Rightarrow> byte \<Rightarrow> u32" where
  "coeff3 b0 b1 b2 = (ucast b0 OR push_bit 8 (ucast b1) OR push_bit 16 (ucast b2)) AND 0x7fffff"

text \<open>
  The loop of \<open>rej_uniform\<close> from the current \<open>pos\<close> on, with \<open>a_len\<close> places left; the result is the list
  of the stored coefficients, so its length is the returned \<open>ctr\<close>.
\<close>

fun rej_uniform :: "nat \<Rightarrow> byte list \<Rightarrow> int list" where
  "rej_uniform a_len (b0 # b1 # b2 # buf) =
     (if a_len = 0 then []
      else let t = coeff3 b0 b1 b2
           in if t < 8380417 then uint t # rej_uniform (a_len - 1) buf else rej_uniform a_len buf)"
| "rej_uniform a_len _ = []"

definition eta_coeff :: "u32 \<Rightarrow> int" where
  "eta_coeff t = sint (2 - (t - drop_bit 10 (205 * t) * 5))"

fun rej_eta :: "nat \<Rightarrow> byte list \<Rightarrow> int list" where
  "rej_eta a_len [] = []"
| "rej_eta a_len (b # buf) =
     (if a_len = 0 then []
      else let t0 = ucast (b AND 0x0F) :: u32; t1 = ucast (drop_bit 4 b) :: u32;
               c0 = (if t0 < 15 then [eta_coeff t0] else []);
               c1 = (if t1 < 15 \<and> length c0 < a_len then [eta_coeff t1] else [])
           in c0 @ c1 @ rej_eta (a_len - length c0 - length c1) buf)"

subsection \<open>The refill loops\<close>

text \<open>
  \<open>while (ctr < N)\<close>: fetch a buffer with \<open>sq\<close>, which also advances the state, and append what the
  rejection step accepts.
\<close>

partial_function (option) refill ::
  "('s \<Rightarrow> byte list \<times> 's) \<Rightarrow> (nat \<Rightarrow> byte list \<Rightarrow> int list) \<Rightarrow> 's \<Rightarrow> int list \<Rightarrow> int list option"
  where
  "refill sq rej s a =
     (if length a < N
      then (let (buf, s') = sq s in refill sq rej s' (a @ rej (N - length a) buf))
      else Some a)"

text \<open>The two bytes of a \<open>uint16_t\<close> nonce, least significant first.\<close>

definition nonce_bytes :: "16 word \<Rightarrow> byte list" where
  "nonce_bytes nonce = [ucast nonce, ucast (drop_bit 8 nonce)]"

definition poly_uniform_eta :: "byte list \<Rightarrow> 16 word \<Rightarrow> poly option" where
  "poly_uniform_eta seed nonce =
     (let ctx = shake256_finalize (shake256_absorb (shake256_absorb shake256_init seed) (nonce_bytes nonce));
          (buf, ctx) = shake256_squeeze ctx 136
      in refill (\<lambda>ctx. shake256_squeeze ctx 136) rej_eta ctx (rej_eta N buf))"

text \<open>
  The refill of the matrix sampler of \<open>combined_method\<close>: the state holds the context, \<open>bufLen\<close> and the
  buffer; the \<open>bufLen % 3\<close> bytes left over move to the front and a block is squeezed behind them.
\<close>

definition uniform_fetch :: "keccak_ctx \<times> nat \<times> byte list \<Rightarrow> byte list \<times> (keccak_ctx \<times> nat \<times> byte list)" where
  "uniform_fetch s =
     (let (ctx, bufLen, buf) = s;
          off = bufLen mod 3;
          (blk, ctx) = shake128_squeeze ctx 168;
          buf = chunk (bufLen - off) off buf @ blk
      in (buf, ctx, 168 + off, buf))"

text \<open>
  One entry of the matrix in \<open>combined_method\<close>.  The first 842 bytes are squeezed at once, 840 of
  them are used.
\<close>

definition matrix_entry :: "byte list \<Rightarrow> nat \<Rightarrow> nat \<Rightarrow> poly option" where
  "matrix_entry rho i j =
     (let nonce = push_bit 8 (of_nat i) + of_nat j :: 16 word;
          ctx = shake128_finalize (shake128_absorb (shake128_absorb shake128_init rho) (nonce_bytes nonce));
          (buf, ctx) = shake128_squeeze ctx (840 + 2)
      in refill uniform_fetch rej_uniform (ctx, 840, buf) (rej_uniform N buf))"

definition poly_uniform_gamma1 :: "byte list \<Rightarrow> 16 word \<Rightarrow> poly" where
  "poly_uniform_gamma1 seed nonce =
     (let ctx = shake256_finalize (shake256_absorb (shake256_absorb shake256_init seed) (nonce_bytes nonce));
          (buf, ctx) = shake256_squeeze ctx 680
      in poly_z_unpack buf)"

subsection \<open>The challenge\<close>

text \<open>The inner loop: the next byte that is at most \<open>i\<close>.\<close>

partial_function (option) next_index ::
  "nat \<Rightarrow> keccak_ctx \<Rightarrow> byte list \<Rightarrow> nat \<Rightarrow> (nat \<times> keccak_ctx \<times> byte list \<times> nat) option"
  where
  "next_index i ctx buf pos =
     (let (buf, ctx, pos) =
            (if pos \<ge> 136 then (let (buf, ctx) = shake256_squeeze ctx 136 in (buf, ctx, 0)) else (buf, ctx, pos));
          b = unat (buf ! pos);
          pos = pos + 1
      in if b > i then next_index i ctx buf pos else Some (b, ctx, buf, pos))"

definition challenge_swap :: "nat \<Rightarrow> nat \<Rightarrow> u64 \<Rightarrow> poly \<Rightarrow> poly" where
  "challenge_swap i b signs c =
     (let c = c[i := c ! b] in c[b := i32 (uint (1 - 2 * (signs AND 1)))])"

fun challenge_loop :: "nat list \<Rightarrow> keccak_ctx \<Rightarrow> byte list \<Rightarrow> nat \<Rightarrow> u64 \<Rightarrow> poly \<Rightarrow> poly option" where
  "challenge_loop [] ctx buf pos signs c = Some c"
| "challenge_loop (i # is) ctx buf pos signs c =
     (case next_index i ctx buf pos of
        None \<Rightarrow> None
      | Some (b, ctx, buf, pos) \<Rightarrow>
          challenge_loop is ctx buf pos (drop_bit 1 signs) (challenge_swap i b signs c))"

definition challenge_signs :: "byte list \<Rightarrow> u64" where
  "challenge_signs buf = fold (\<lambda>i signs. signs OR push_bit (8 * i) (ucast (buf ! i))) [0..<8] 0"

text \<open>\<open>poly_challenge_volatile\<close> of \<open>sign.c\<close>; the polynomial it writes to NVM.\<close>

definition poly_challenge_volatile :: "byte list \<Rightarrow> poly option" where
  "poly_challenge_volatile seed =
     (let ctx = shake256_finalize (shake256_absorb shake256_init seed);
          (buf, ctx) = shake256_squeeze ctx 136
      in challenge_loop [N - TAU..<N] ctx buf 8 (challenge_signs buf) (replicate N 0))"

text \<open>\<open>poly_challenge\<close> of \<open>poly.c\<close> checks the length of the seed first; \<open>Inl\<close> is the error it returns.\<close>

datatype error_code =
  ERR_NONE | ERR_FAILED_GENERATE_RANDOM_SEED | ERR_FAILED_DECODE_HEXSEED | ERR_INVALID_SIGB_LENGTH
| ERR_INVALID_CONTEXT_LENGTH | ERR_INVALID_SEED_LENGTH | ERR_INVALID_LENGTH | ERR_DECODE_HEX_STRING
| ERR_INVALID_DESCRIPTOR | ERR_INVALID_MESSAGE | ERR_INVALID_SIGNATURE

definition poly_challenge :: "byte list \<Rightarrow> (error_code + poly) option" where
  "poly_challenge seed =
     (if length seed \<noteq> CTILDE_BYTES then Some (Inl ERR_INVALID_SEED_LENGTH)
      else (let ctx = shake256_finalize (shake256_absorb shake256_init seed);
                (buf, ctx) = shake256_squeeze ctx 136
            in map_option Inr (challenge_loop [N - TAU..<N] ctx buf 8 (challenge_signs buf) (replicate N 0))))"

subsection \<open>The rejection steps as filters\<close>

text \<open>All values a stream of bytes offers, without a limit on their number.\<close>

fun accept3 :: "byte list \<Rightarrow> int list" where
  "accept3 (b0 # b1 # b2 # bs) =
     (let z = (int (unat b0) + 256 * int (unat b1) + 65536 * int (unat b2)) mod 2 ^ 23
      in if z < Q_CONST then z # accept3 bs else accept3 bs)"
| "accept3 _ = []"

definition accept_half :: "nat \<Rightarrow> int list" where
  "accept_half z = (if z < 15 then [2 - int (z mod 5)] else [])"

definition accept_eta :: "byte list \<Rightarrow> int list" where
  "accept_eta bs = concat (map (\<lambda>b. accept_half (unat b mod 16) @ accept_half (unat b div 16)) bs)"

lemma uint_coeff3: "uint (coeff3 b0 b1 b2) = (int (unat b0) + 256 * int (unat b1) + 65536 * int (unat b2)) mod 2 ^ 23"
proof -
  have u: "uint (ucast b :: u32) = uint b" for b :: byte
    by (simp add: unsigned_ucast_eq take_bit_int_eq_self order.strict_trans [OF uint_lt2p])
  have "uint (ucast b0 OR push_bit 8 (ucast b1) OR push_bit 16 (ucast b2) :: u32)
      = uint b0 OR push_bit 8 (uint b1) OR push_bit 16 (uint b2)"
    by (rule bit_eqI) (auto simp: bit_simps dest: bit_imp_le_length)
  also have "\<dots> = uint b0 + push_bit 8 (uint b1) + push_bit 16 (uint b2)"
  proof -
    have "uint b0 OR push_bit 8 (uint b1) = uint b0 + push_bit 8 (uint b1)"
      by (rule disjunctive_add [symmetric]) (auto simp: bit_simps dest: bit_imp_le_length)
    moreover have "(uint b0 OR push_bit 8 (uint b1)) OR push_bit 16 (uint b2)
        = (uint b0 OR push_bit 8 (uint b1)) + push_bit 16 (uint b2)"
      by (rule disjunctive_add [symmetric]) (auto simp: bit_simps dest: bit_imp_le_length)
    ultimately show ?thesis by (metis or.assoc)
  qed
  finally have "uint (coeff3 b0 b1 b2) = take_bit 23 (uint b0 + push_bit 8 (uint b1) + push_bit 16 (uint b2))"
    by (simp add: coeff3_def uint_and take_bit_eq_mask mask_eq_exp_minus_1)
  then show ?thesis by (simp add: take_bit_eq_mod push_bit_eq_mult algebra_simps)
qed

lemma rej_uniform_take: "rej_uniform n buf = take n (accept3 buf)"
proof (induction buf arbitrary: n rule: accept3.induct)
  case (1 b0 b1 b2 bs)
  have "coeff3 b0 b1 b2 < 8380417 \<longleftrightarrow> uint (coeff3 b0 b1 b2) < 8380417" by (simp add: word_less_def)
  with 1 show ?case by (cases n) (simp_all add: Let_def uint_coeff3)
qed simp_all

lemma eta_coeff_eq: "z < 15 \<Longrightarrow> eta_coeff (of_nat z) = 2 - int (z mod 5)"
proof -
  have "list_all (\<lambda>z. eta_coeff (of_nat z) = 2 - int (z mod 5)) [0..<15]" by code_simp
  then show "z < 15 \<Longrightarrow> ?thesis" by (simp add: list_all_iff)
qed

lemma half_byte: "z < 16 \<Longrightarrow> (if (of_nat z :: u32) < 15 then [eta_coeff (of_nat z)] else []) = accept_half z"
  by (auto simp: accept_half_def eta_coeff_eq word_less_nat_alt unat_of_nat take_bit_nat_eq_self)

lemma unat_nibbles: "unat (drop_bit 4 b) = unat b div 16" "unat (b AND 0x0F) = unat b mod 16" for b :: byte
proof -
  show "unat (drop_bit 4 b) = unat b div 16" by (simp only: unat_drop_bit_eq) (simp add: drop_bit_eq_div)
  have "b AND 0x0F = take_bit 4 b" by (simp add: take_bit_eq_mask mask_eq_exp_minus_1)
  then have "unat (b AND 0x0F) = take_bit 4 (unat b)" by (simp only: unsigned_take_bit_eq)
  then show "unat (b AND 0x0F) = unat b mod 16" by (simp add: take_bit_eq_mod)
qed

lemma nibbles:
  "(ucast (b AND 0x0F) :: u32) = of_nat (unat b mod 16)" "(ucast (drop_bit 4 b) :: u32) = of_nat (unat b div 16)"
  for b :: byte
proof -
  have "ucast x = (of_nat (unat x) :: u32)" for x :: byte by simp
  then show "(ucast (b AND 0x0F) :: u32) = of_nat (unat b mod 16)"
    "(ucast (drop_bit 4 b) :: u32) = of_nat (unat b div 16)" by (metis unat_nibbles)+
qed

lemma rej_eta_take: "rej_eta n buf = take n (accept_eta buf)"
proof (induction buf arbitrary: n)
  case (Cons b buf)
  have m: "unat b mod 16 < 16" "unat b div 16 < 16" using unat_byte_less [of b] by simp_all
  have lt: "(of_nat z :: u32) < 15 \<longleftrightarrow> z < 15" if "z < 16" for z
    using that by (simp add: word_less_nat_alt unat_of_nat take_bit_nat_eq_self)
  obtain n1 where "n = 0 \<or> n = 1 \<or> n = Suc (Suc n1)" by (metis One_nat_def not0_implies_Suc)
  then show ?case
    using Cons.IH m eta_coeff_eq [of "unat b mod 16"] eta_coeff_eq [of "unat b div 16"]
    unfolding rej_eta.simps nibbles Let_def lt [OF m(1)] lt [OF m(2)]
    by (cases "unat b mod 16 < 15"; cases "unat b div 16 < 15") (auto simp: accept_eta_def accept_half_def)
qed (simp add: accept_eta_def)

subsection \<open>What the refill loop returns\<close>

text \<open>The buffers of the first \<open>k\<close> rounds.\<close>

fun fetches :: "('s \<Rightarrow> 'b \<times> 's) \<Rightarrow> nat \<Rightarrow> 's \<Rightarrow> 'b list" where
  "fetches sq 0 s = []"
| "fetches sq (Suc k) s = fst (sq s) # fetches sq k (snd (sq s))"

definition offered :: "(byte list \<Rightarrow> int list) \<Rightarrow> ('s \<Rightarrow> byte list \<times> 's) \<Rightarrow> nat \<Rightarrow> 's \<Rightarrow> int list" where
  "offered acc sq k s = concat (map acc (fetches sq k s))"

lemma offered_Suc: "offered acc sq (Suc k) s = acc (fst (sq s)) @ offered acc sq k (snd (sq s))"
  by (simp add: offered_def)

text \<open>
  A rejection step that takes as many values as there is room for from all the values a buffer
  offers turns the loop into a search for the first prefix of the buffers with enough values.
\<close>

locale rejection =
  fixes sq :: "'s \<Rightarrow> byte list \<times> 's" and rej :: "nat \<Rightarrow> byte list \<Rightarrow> int list"
    and acc :: "byte list \<Rightarrow> int list"
  assumes rej_take: "rej n buf = take n (acc buf)"
begin

lemma refill_step:
  "refill sq rej s a =
     (if length a < 256 then refill sq rej (snd (sq s)) (take 256 (a @ acc (fst (sq s)))) else Some a)"
  by (subst refill.simps) (simp add: case_prod_beta rej_take)

lemma refill_complete:
  assumes "length a \<le> 256" "256 \<le> length (a @ offered acc sq k s)"
  shows "refill sq rej s a = Some (take 256 (a @ offered acc sq k s))"
  using assms
proof (induction k arbitrary: s a)
  case 0
  then show ?case by (subst refill_step) (simp add: offered_def)
next
  case (Suc k)
  show ?case
  proof (cases "length a < 256")
    case True
    let ?a = "take 256 (a @ acc (fst (sq s)))"
    have "256 \<le> length (?a @ offered acc sq k (snd (sq s)))" using Suc.prems(2) by (simp add: offered_Suc)
    with Suc.IH [of ?a "snd (sq s)"] have "refill sq rej (snd (sq s)) ?a = Some (take 256 (?a @ offered acc sq k (snd (sq s))))"
      by simp
    moreover have "take 256 (?a @ offered acc sq k (snd (sq s))) = take 256 (a @ offered acc sq (Suc k) s)"
      using True by (cases "length (a @ acc (fst (sq s))) \<le> 256") (simp_all add: offered_Suc)
    ultimately show ?thesis using True by (subst refill_step) simp
  next
    case False
    with Suc.prems show ?thesis by (subst refill_step) simp
  qed
qed

lemma refill_sound:
  assumes "refill sq rej s a = Some p" "length a \<le> 256"
  shows "\<exists>k. 256 \<le> length (a @ offered acc sq k s) \<and> p = take 256 (a @ offered acc sq k s)"
proof -
  have "sq = sq \<longrightarrow> rej = rej \<longrightarrow> length a \<le> 256 \<longrightarrow>
    (\<exists>k. 256 \<le> length (a @ offered acc sq k s) \<and> p = take 256 (a @ offered acc sq k s))"
  proof (rule refill.raw_induct [where P = "\<lambda>sq' rej' s a p. sq' = sq \<longrightarrow> rej' = rej \<longrightarrow> length a \<le> 256 \<longrightarrow>
    (\<exists>k. 256 \<le> length (a @ offered acc sq k s) \<and> p = take 256 (a @ offered acc sq k s))",
    OF _ assms(1)], intro impI)
  fix f sq' rej' s a p
  assume IH: "\<And>sq' rej' s a p. f sq' rej' s a = Some p \<Longrightarrow> sq' = sq \<longrightarrow> rej' = rej \<longrightarrow> length a \<le> 256 \<longrightarrow>
      (\<exists>k. 256 \<le> length (a @ offered acc sq k s) \<and> p = take 256 (a @ offered acc sq k s))"
    and "(if length a < 256 then let (buf, s') = sq' s in f sq' rej' s' (a @ rej' (256 - length a) buf) else Some a) = Some p"
    and "sq' = sq" "rej' = rej" "length a \<le> 256"
  note eq = this(2) and same = this(3,4) and len = this(5)
  show "\<exists>k. 256 \<le> length (a @ offered acc sq k s) \<and> p = take 256 (a @ offered acc sq k s)"
  proof (cases "length a < 256")
    case True
    let ?a = "take 256 (a @ acc (fst (sq s)))"
    have "f sq rej (snd (sq s)) ?a = Some p" using eq True same by (simp add: case_prod_beta rej_take)
    from IH [OF this] obtain k where "256 \<le> length (?a @ offered acc sq k (snd (sq s)))" "p = take 256 (?a @ offered acc sq k (snd (sq s)))"
      by auto
    moreover have "take 256 (?a @ offered acc sq k (snd (sq s))) = take 256 (a @ offered acc sq (Suc k) s)"
      using True by (cases "length (a @ acc (fst (sq s))) \<le> 256") (simp_all add: offered_Suc)
    moreover have "256 \<le> length (a @ offered acc sq (Suc k) s)" using calculation(1) by (simp add: offered_Suc)
    ultimately show ?thesis by blast
  next
    case False
    with eq len have "256 \<le> length (a @ offered acc sq 0 s) \<and> p = take 256 (a @ offered acc sq 0 s)" by (simp add: offered_def)
    then show ?thesis by blast
  qed
  qed
  then show ?thesis using assms(2) by blast
qed

lemma refill_iff:
  assumes "length a \<le> 256"
  shows "refill sq rej s a = Some p \<longleftrightarrow> (\<exists>k. 256 \<le> length (a @ offered acc sq k s) \<and> p = take 256 (a @ offered acc sq k s))"
  using refill_sound [OF _ assms] refill_complete [OF assms] by blast

end

interpretation eta_rej: rejection "\<lambda>ctx. shake256_squeeze ctx 136" rej_eta accept_eta
  by unfold_locales (rule rej_eta_take)

interpretation uni_rej: rejection uniform_fetch rej_uniform accept3
  by unfold_locales (rule rej_uniform_take)

lemma accept_eta_append: "accept_eta (xs @ ys) = accept_eta xs @ accept_eta ys"
  by (simp add: accept_eta_def)

lemma accept3_append: "length xs = 3 * n \<Longrightarrow> accept3 (xs @ ys) = accept3 xs @ accept3 ys"
proof (induction n arbitrary: xs)
  case (Suc n)
  then obtain b0 b1 b2 bs where "xs = b0 # b1 # b2 # bs" "length bs = 3 * n"
    by (auto simp: length_Suc_conv numeral_3_eq_3)
  with Suc.IH show ?case by (simp add: Let_def)
qed simp

lemma eta_offered: "offered accept_eta (\<lambda>ctx. shake256_squeeze ctx 136) k ctx = accept_eta (fst (shake256_squeeze ctx (k * 136)))"
proof (induction k arbitrary: ctx)
  case 0
  then show ?case by (simp add: offered_def accept_eta_def shake256_squeeze_def)
next
  case (Suc k)
  then show ?case using sh256.squeeze_add [of ctx 136 "k * 136"] by (simp add: offered_Suc accept_eta_append)
qed

lemma uniform_fetch_eq:
  "bufLen mod 3 = 0 \<Longrightarrow> fst (uniform_fetch (ctx, bufLen, buf)) = fst (shake128_squeeze ctx 168) \<and>
    (\<exists>buf'. snd (uniform_fetch (ctx, bufLen, buf)) = (snd (shake128_squeeze ctx 168), 168, buf'))"
  by (simp add: uniform_fetch_def case_prod_beta Let_def chunk_def)

lemma uni_offered:
  "bufLen mod 3 = 0 \<Longrightarrow> offered accept3 uniform_fetch k (ctx, bufLen, buf) = accept3 (fst (shake128_squeeze ctx (k * 168)))"
proof (induction k arbitrary: ctx bufLen buf)
  case 0
  then show ?case by (simp add: offered_def shake128_squeeze_def)
next
  case (Suc k)
  obtain buf' where f: "fst (uniform_fetch (ctx, bufLen, buf)) = fst (shake128_squeeze ctx 168)"
    "snd (uniform_fetch (ctx, bufLen, buf)) = (snd (shake128_squeeze ctx 168), 168, buf')"
    using uniform_fetch_eq [OF Suc.prems] by blast
  have "accept3 (fst (shake128_squeeze ctx (Suc k * 168))) =
      accept3 (fst (shake128_squeeze ctx 168)) @ accept3 (fst (shake128_squeeze (snd (shake128_squeeze ctx 168)) (k * 168)))"
    using sh128.squeeze_add [of ctx 168 "k * 168"] accept3_append [of "fst (shake128_squeeze ctx 168)" 56] sh128.length_squeeze by simp
  then show ?case using Suc.IH [of 168] by (simp add: offered_Suc f)
qed

text \<open>The values offered by the first \<open>n\<close> bytes of the SHAKE-256 stream of a seed and a nonce.\<close>

definition eta_stream :: "byte list \<Rightarrow> 16 word \<Rightarrow> nat \<Rightarrow> int list" where
  "eta_stream seed nonce n = accept_eta (spec_sponge 136 0x1F (seed @ nonce_bytes nonce) n)"

text \<open>
  The values the matrix sampler sees: those of the first 840 bytes of the SHAKE-128 stream and
  those from byte 842 on.
\<close>

definition matrix_stream :: "byte list \<Rightarrow> nat \<Rightarrow> nat \<Rightarrow> nat \<Rightarrow> int list" where
  "matrix_stream rho i j n =
     (let s = spec_sponge 168 0x1F (rho @ nonce_bytes (push_bit 8 (of_nat i) + of_nat j)) (842 + n)
      in accept3 (take 840 s) @ accept3 (drop 842 s))"

lemma poly_uniform_eta_iff:
  "poly_uniform_eta seed nonce = Some p \<longleftrightarrow>
     (\<exists>k. 256 \<le> length (eta_stream seed nonce (136 + k * 136)) \<and> p = take 256 (eta_stream seed nonce (136 + k * 136)))"
proof -
  let ?c = "shake256_finalize (shake256_absorb shake256_init (seed @ nonce_bytes nonce))"
  let ?b = "fst (shake256_squeeze ?c 136)" and ?d = "snd (shake256_squeeze ?c 136)"
  have e: "eta_stream seed nonce (136 + k * 136) = accept_eta ?b @ accept_eta (fst (shake256_squeeze ?d (k * 136)))" for k
    unfolding eta_stream_def sh256.digest_spec [symmetric]
    by (subst sh256.squeeze_add) (simp add: accept_eta_append)
  have t: "take 256 (take 256 xs @ ys) = take 256 (xs @ ys) \<and> (256 \<le> length (take 256 xs @ ys) \<longleftrightarrow> 256 \<le> length (xs @ ys))"
    for xs ys :: "int list" by (cases "length xs \<le> 256") simp_all
  have eq: "poly_uniform_eta seed nonce = refill (\<lambda>ctx. shake256_squeeze ctx 136) rej_eta ?d (take 256 (accept_eta ?b))"
    by (simp add: poly_uniform_eta_def case_prod_beta Let_def rej_eta_take sh256.absorb_append)
  show ?thesis
    unfolding eq e using t by (subst eta_rej.refill_iff) (simp_all add: eta_offered)
qed

lemma matrix_entry_iff:
  "matrix_entry rho i j = Some p \<longleftrightarrow>
     (\<exists>k. 256 \<le> length (matrix_stream rho i j (k * 168)) \<and> p = take 256 (matrix_stream rho i j (k * 168)))"
proof -
  let ?n = "nonce_bytes (push_bit 8 (of_nat i) + of_nat j)"
  let ?c = "shake128_finalize (shake128_absorb shake128_init (rho @ ?n))"
  let ?b = "fst (shake128_squeeze ?c 842)" and ?d = "snd (shake128_squeeze ?c 842)"
  have l: "length ?b = 842" by (rule sh128.length_squeeze)
  have b: "accept3 ?b = accept3 (take 840 ?b)"
  proof -
    have "length (drop 840 ?b) = 2" using l by simp
    then obtain x y where "drop 840 ?b = [x, y]" using exhaust2 by blast
    then have "accept3 (drop 840 ?b) = []" by simp
    then show ?thesis
      using accept3_append [of "take 840 ?b" 280 "drop 840 ?b"] l unfolding append_take_drop_id by simp
  qed
  have e: "matrix_stream rho i j (k * 168) = accept3 ?b @ accept3 (fst (shake128_squeeze ?d (k * 168)))" for k
    unfolding matrix_stream_def Let_def sh128.digest_spec [symmetric] b
    by (subst (1 2) sh128.squeeze_add) (use l in simp)
  have t: "take 256 (take 256 xs @ ys) = take 256 (xs @ ys) \<and> (256 \<le> length (take 256 xs @ ys) \<longleftrightarrow> 256 \<le> length (xs @ ys))"
    for xs ys :: "int list" by (cases "length xs \<le> 256") simp_all
  have eq: "matrix_entry rho i j = refill uniform_fetch rej_uniform (?d, 840, ?b) (take 256 (accept3 ?b))"
    by (simp add: matrix_entry_def case_prod_beta Let_def rej_uniform_take sh128.absorb_append)
  show ?thesis
    unfolding eq e using t by (subst uni_rej.refill_iff) (simp_all add: uni_offered)
qed

text \<open>
  C37.  The rejection samplers of \<open>poly_uniform_eta\<close> and of the matrix in \<open>combined_method\<close> return exactly when
  some prefix of the SHAKE stream offers 256 acceptable values, and then return the first 256 of
  them in order.  The matrix sampler skips bytes 840 and 841 of its stream.
\<close>

theorem samplers_return_first_accepted:
  "(poly_uniform_eta seed nonce = Some p \<longleftrightarrow>
      (\<exists>k. 256 \<le> length (eta_stream seed nonce (136 + k * 136)) \<and> p = take 256 (eta_stream seed nonce (136 + k * 136))))
   \<and> (matrix_entry rho i j = Some p \<longleftrightarrow>
      (\<exists>k. 256 \<le> length (matrix_stream rho i j (k * 168)) \<and> p = take 256 (matrix_stream rho i j (k * 168))))"
  using poly_uniform_eta_iff matrix_entry_iff by simp

subsection \<open>Ranges of the sampled polynomials\<close>

lemma accept3_range: "x \<in> set (accept3 bs) \<Longrightarrow> 0 \<le> x \<and> x < 8380417"
  by (induction bs rule: accept3.induct) (auto simp: Let_def split: if_splits)

lemma accept_eta_range: "x \<in> set (accept_eta bs) \<Longrightarrow> - 2 \<le> x \<and> x \<le> 2"
  by (auto simp: accept_eta_def accept_half_def split: if_splits)

lemma poly_uniform_eta_range:
  assumes "poly_uniform_eta seed nonce = Some p"
  shows "length p = 256" "x \<in> set p \<Longrightarrow> - 2 \<le> x \<and> x \<le> 2" "bounded 3 p"
proof -
  from assms obtain k where k: "256 \<le> length (eta_stream seed nonce k)" "p = take 256 (eta_stream seed nonce k)"
    unfolding poly_uniform_eta_iff by blast
  then show len: "length p = 256" by simp
  show r: "x \<in> set p \<Longrightarrow> - 2 \<le> x \<and> x \<le> 2" for x
    using k(2) accept_eta_range unfolding eta_stream_def by (metis in_set_takeD)
  show "bounded 3 p" using len r [OF nth_mem] by (intro boundedI) (auto simp: abs_less_iff, fastforce+)
qed

lemma matrix_entry_range:
  assumes "matrix_entry rho i j = Some p"
  shows "length p = 256" "x \<in> set p \<Longrightarrow> 0 \<le> x \<and> x < 8380417" "bounded 8380417 p"
proof -
  from assms obtain k where k: "256 \<le> length (matrix_stream rho i j k)" "p = take 256 (matrix_stream rho i j k)"
    unfolding matrix_entry_iff by blast
  then show len: "length p = 256" by simp
  show r: "x \<in> set p \<Longrightarrow> 0 \<le> x \<and> x < 8380417" for x
    using k(2) accept3_range unfolding matrix_stream_def Let_def by (metis UnE in_set_takeD set_append)
  show "bounded 8380417 p" using len r [OF nth_mem] by (intro boundedI) (auto simp: abs_less_iff)
qed

lemma poly_uniform_gamma1_range:
  "length (poly_uniform_gamma1 seed nonce) = 256" "list_all z_ok (poly_uniform_gamma1 seed nonce)"
  "bounded 524289 (poly_uniform_gamma1 seed nonce)"
proof -
  let ?c = "shake256_finalize (shake256_absorb (shake256_absorb shake256_init seed) (nonce_bytes nonce))"
  let ?b = "fst (shake256_squeeze ?c 680)"
  have "poly_uniform_gamma1 seed nonce = poly_z_unpack ?b" by (simp add: poly_uniform_gamma1_def case_prod_beta)
  also have "\<dots> = poly_z_unpack (take 640 ?b)"
    unfolding poly_z_unpack_def encode_blocks_def
    by (intro arg_cong [where f = concat] map_cong refl arg_cong [where f = z_unpack2])
       (auto simp: chunk_def drop_take min_def)
  finally have eq: "poly_uniform_gamma1 seed nonce = poly_z_unpack (take 640 ?b)" .
  have "length (take 640 ?b) = 640" by (simp add: sh256.length_squeeze)
  note z_pack_unpack(3,4) [OF this]
  then show "length (poly_uniform_gamma1 seed nonce) = 256" "list_all z_ok (poly_uniform_gamma1 seed nonce)"
    "bounded 524289 (poly_uniform_gamma1 seed nonce)"
    unfolding eq by (auto simp: bounded_def list_all_iff z_ok_def abs_less_iff)
qed

subsection \<open>The challenge polynomial\<close>

text \<open>
  \<open>SampleInBall\<close> of FIPS 204 over a finite piece of the stream: \<open>h\<close> are the sign bits, \<open>m\<close> counts them;
  the result is \<open>None\<close> if the piece is too short.
\<close>

fun sample_in_ball :: "nat list \<Rightarrow> byte list \<Rightarrow> (nat \<Rightarrow> bool) \<Rightarrow> nat \<Rightarrow> poly \<Rightarrow> poly option" where
  "sample_in_ball [] bs h m c = Some c"
| "sample_in_ball (i # is) bs h m c =
     (case dropWhile (\<lambda>b. unat b > i) bs of
        [] \<Rightarrow> None
      | j # bs' \<Rightarrow> sample_in_ball is bs' h (m + 1) ((c[i := c ! unat j])[unat j := (if h m then - 1 else 1)]))"

definition sign_bits :: "byte list \<Rightarrow> nat \<Rightarrow> bool" where
  "sign_bits s n = bit (s ! (n div 8)) (n mod 8)"

lemma challenge_sign: "i32 (uint (1 - 2 * (signs AND 1) :: u64)) = (if bit signs 0 then - 1 else 1)"
proof -
  have "signs AND 1 = of_bool (bit signs 0)" by (simp add: and_one_eq bit_0 mod_2_eq_odd)
  moreover have "i32 (uint (- 1 :: u64)) = - 1" by code_simp
  ultimately show ?thesis by simp
qed

lemma bit_challenge_signs:
  assumes "n < 64"
  shows "bit (challenge_signs buf) n = sign_bits buf n"
proof -
  have or: "bit (fold (\<lambda>i signs. signs OR push_bit (8 * i) (ucast (buf ! i))) is s0) n \<longleftrightarrow>
      bit s0 n \<or> (\<exists>i \<in> set is. 8 * i \<le> n \<and> bit (buf ! i) (n - 8 * i))" for "is" and s0 :: u64
    using assms by (induction "is" arbitrary: s0) (auto simp: bit_simps)
  have up: "i = n div 8 \<and> n - 8 * i = n mod 8" if le: "8 * i \<le> n" and b: "bit (buf ! i) (n - 8 * i)" for i
  proof -
    obtain r where r: "n = 8 * i + r" using le_Suc_ex [OF le] ..
    then have "r < 8" using bit_imp_le_length [OF b] by simp
    then show ?thesis using r by simp
  qed
  have "n div 8 \<in> set [0..<8]" "8 * (n div 8) \<le> n" "n - 8 * (n div 8) = n mod 8"
    using assms by (simp_all add: minus_mult_div_eq_mod less_mult_imp_div_less)
  then have "(\<exists>i \<in> set [0..<8]. 8 * i \<le> n \<and> bit (buf ! i) (n - 8 * i)) \<longleftrightarrow> bit (buf ! (n div 8)) (n mod 8)"
    using up by metis
  then show ?thesis unfolding challenge_signs_def or sign_bits_def by simp
qed

text \<open>What is left of the buffer and \<open>k\<close> more blocks.\<close>

definition ahead :: "nat \<Rightarrow> keccak_ctx \<Rightarrow> byte list \<Rightarrow> nat \<Rightarrow> byte list" where
  "ahead k ctx buf pos = drop pos buf @ fst (shake256_squeeze ctx (k * 136))"

lemma ahead_Suc:
  "ahead (Suc k) ctx buf 136 = ahead k (snd (shake256_squeeze ctx 136)) (fst (shake256_squeeze ctx 136)) 0"
  if "length buf = 136"
  using that sh256.squeeze_add [of ctx 136 "k * 136"] by (simp add: ahead_def)

lemma ahead_Cons:
  "pos < 136 \<Longrightarrow> length buf = 136 \<Longrightarrow> ahead k ctx buf pos = buf ! pos # ahead k ctx buf (pos + 1)"
  by (simp add: ahead_def Cons_nth_drop_Suc)

lemma next_index_here:
  assumes "pos < 136"
  shows "next_index i ctx buf pos =
    (if unat (buf ! pos) > i then next_index i ctx buf (pos + 1) else Some (unat (buf ! pos), ctx, buf, pos + 1))"
  using assms by (subst next_index.simps) simp

lemma next_index_refill:
  assumes "136 \<le> pos"
  shows "next_index i ctx buf pos = next_index i (snd (shake256_squeeze ctx 136)) (fst (shake256_squeeze ctx 136)) 0"
  using assms by (subst (1 2) next_index.simps) (simp add: case_prod_beta)

lemma next_index_complete:
  assumes "dropWhile (\<lambda>b. unat b > i) (ahead k ctx buf pos) = j # bs" "length buf = 136" "pos \<le> 136"
  shows "\<exists>ctx' buf' pos' k'. next_index i ctx buf pos = Some (unat j, ctx', buf', pos') \<and>
    ahead k' ctx' buf' pos' = bs \<and> length buf' = 136 \<and> pos' \<le> 136"
  using assms
proof (induction "k * 137 + (136 - pos)" arbitrary: k ctx buf pos rule: less_induct)
  case less
  show ?case
  proof (cases "pos < 136")
    case True
    note eq = next_index_here [OF True] ahead_Cons [OF True less.prems(2)]
    show ?thesis
    proof (cases "unat (buf ! pos) > i")
      case t: True
      have "k * 137 + (136 - (pos + 1)) < k * 137 + (136 - pos)" using True by simp
      from less.hyps [OF this _ less.prems(2)] show ?thesis using less.prems(1) t True unfolding eq by simp
    next
      case False
      then have "j = buf ! pos" "bs = ahead k ctx buf (pos + 1)" using less.prems(1) unfolding eq by simp_all
      then show ?thesis using False True less.prems(2) unfolding eq by auto
    qed
  next
    case False
    then have pos: "pos = 136" using less.prems(3) by simp
    show ?thesis
    proof (cases k)
      case 0
      then show ?thesis using less.prems(1,2) pos sh256.length_squeeze [of ctx 0] by (simp add: ahead_def)
    next
      case (Suc k0)
      have "k0 * 137 + (136 - 0) < k * 137 + (136 - pos)" using Suc pos by simp
      from less.hyps [OF this] show ?thesis
        using less.prems(1) sh256.length_squeeze [of ctx 136]
        unfolding Suc pos ahead_Suc [OF less.prems(2)] next_index_refill [of 136, simplified] by simp
    qed
  qed
qed

lemma challenge_complete:
  assumes "sample_in_ball is (ahead k ctx buf pos) h m c = Some p" "length buf = 136" "pos \<le> 136"
    "m + length is \<le> 64" "\<And>n. n + m < 64 \<Longrightarrow> bit signs n = h (m + n)"
  shows "challenge_loop is ctx buf pos signs c = Some p"
  using assms
proof (induction "is" arbitrary: k ctx buf pos m signs c)
  case (Cons i "is")
  then obtain j bs where dw: "dropWhile (\<lambda>b. unat b > i) (ahead k ctx buf pos) = j # bs"
    by (auto split: list.splits)
  from next_index_complete [OF dw Cons.prems(2,3)] obtain ctx' buf' pos' k' where n:
    "next_index i ctx buf pos = Some (unat j, ctx', buf', pos')" "ahead k' ctx' buf' pos' = bs" "length buf' = 136" "pos' \<le> 136"
    by blast
  have sg: "i32 (uint (1 - 2 * (signs AND 1))) = (if h m then - 1 else 1)"
    using Cons.prems(4) Cons.prems(5) [of 0] by (simp add: challenge_sign)
  have "bit (drop_bit 1 signs) n = h (m + 1 + n)" if "n + (m + 1) < 64" for n
    using Cons.prems(5) [of "Suc n"] that by (simp add: bit_drop_bit_eq)
  moreover have "sample_in_ball is (ahead k' ctx' buf' pos') h (m + 1) (challenge_swap i (unat j) signs c) = Some p"
    using Cons.prems(1) dw n(2) by (simp add: challenge_swap_def sg)
  ultimately show ?case using Cons.IH [of k' ctx' buf' pos' "m + 1"] n Cons.prems(4) by simp
qed simp

lemma next_index_sound:
  assumes "next_index i ctx buf pos = Some (b, ctx', buf', pos')" "length buf = 136" "pos \<le> 136"
  shows "length buf' = 136 \<and> pos' \<le> 136 \<and>
    (\<exists>k0 j. b = unat j \<and> (\<forall>k. dropWhile (\<lambda>b. unat b > i) (ahead (k0 + k) ctx buf pos) = j # ahead k ctx' buf' pos'))"
proof -
  define P where "P = (\<lambda>i ctx buf pos (b, ctx', buf', pos'). length (buf :: byte list) = 136 \<longrightarrow> pos \<le> 136 \<longrightarrow>
    length buf' = 136 \<and> pos' \<le> 136 \<and>
    (\<exists>k0 j. b = unat j \<and> (\<forall>k. dropWhile (\<lambda>b. unat b > i) (ahead (k0 + k) ctx buf pos) = j # ahead k ctx' buf' pos')))"
  have "P i ctx buf pos (b, ctx', buf', pos')"
  proof (rule next_index.raw_induct [where P = P, OF _ assms(1)])
    fix f i ctx buf pos and r :: "nat \<times> keccak_ctx \<times> byte list \<times> nat"
    obtain b ctx' buf' pos' where r: "r = (b, ctx', buf', pos')" by (cases r)
    assume IH: "\<And>i ctx buf pos r. f i ctx buf pos = Some r \<Longrightarrow> P i ctx buf pos r"
      and eq: "(let (buf, ctx, pos) = if 136 \<le> pos then let (buf, ctx) = shake256_squeeze ctx 136 in (buf, ctx, 0) else (buf, ctx, pos);
          b = unat (buf ! pos); pos = pos + 1 in if i < b then f i ctx buf pos else Some (b, ctx, buf, pos)) = Some r"
    have here: "P i ctx buf pos r"
      if "pos < 136" "(if i < unat (buf ! pos) then f i ctx buf (pos + 1) else Some (unat (buf ! pos), ctx, buf, pos + 1)) = Some r"
      for ctx buf and pos :: nat
    proof (cases "i < unat (buf ! pos)")
      case True
      with that(2) have "P i ctx buf (pos + 1) r" using IH by simp
      then show ?thesis using True that(1) unfolding r P_def by (auto simp: ahead_Cons)
    next
      case False
      with that r have rr: "b = unat (buf ! pos)" "ctx' = ctx" "buf' = buf" "pos' = pos + 1" by auto
      show ?thesis using False that(1) unfolding r P_def rr
        by (auto simp: ahead_Cons intro!: exI [of _ 0] exI [of _ "buf ! pos"])
    qed
    show "P i ctx buf pos r"
    proof (cases "pos < 136")
      case True
      with eq show ?thesis by (intro here) (auto simp: Let_def split: if_splits)
    next
      case False
      let ?b = "fst (shake256_squeeze ctx 136)" and ?c = "snd (shake256_squeeze ctx 136)"
      have "P i ?c ?b 0 r" using eq False by (intro here) (auto simp: case_prod_beta Let_def split: if_splits)
      then have p: "length buf' = 136 \<and> pos' \<le> 136 \<and>
        (\<exists>k0 j. b = unat j \<and> (\<forall>k. dropWhile (\<lambda>b. unat b > i) (ahead (k0 + k) ?c ?b 0) = j # ahead k ctx' buf' pos'))"
        unfolding r P_def by (simp add: sh256.length_squeeze)
      then obtain k0 j where kj: "b = unat j" "\<And>k. dropWhile (\<lambda>b. unat b > i) (ahead (k0 + k) ?c ?b 0) = j # ahead k ctx' buf' pos'"
        by blast
      show ?thesis unfolding r P_def
      proof (simp only: prod.case, intro impI conjI)
        assume l: "length buf = 136" and "pos \<le> 136"
        with False have pos: "pos = 136" by simp
        have "\<forall>k. dropWhile (\<lambda>b. unat b > i) (ahead (Suc k0 + k) ctx buf pos) = j # ahead k ctx' buf' pos'"
          using kj(2) by (simp add: pos ahead_Suc [OF l])
        then show "\<exists>k0 j. b = unat j \<and> (\<forall>k. dropWhile (\<lambda>b. unat b > i) (ahead (k0 + k) ctx buf pos) = j # ahead k ctx' buf' pos')"
          using kj(1) by blast
      qed (use p in simp_all)
    qed
  qed
  then show ?thesis using assms(2,3) unfolding P_def by simp
qed

lemma challenge_sound:
  assumes "challenge_loop is ctx buf pos signs c = Some p" "length buf = 136" "pos \<le> 136"
    "m + length is \<le> 64" "\<And>n. n + m < 64 \<Longrightarrow> bit signs n = h (m + n)"
  shows "\<exists>k. sample_in_ball is (ahead k ctx buf pos) h m c = Some p"
  using assms
proof (induction "is" arbitrary: ctx buf pos m signs c)
  case (Cons i "is")
  then obtain b ctx' buf' pos' where n: "next_index i ctx buf pos = Some (b, ctx', buf', pos')"
    "challenge_loop is ctx' buf' pos' (drop_bit 1 signs) (challenge_swap i b signs c) = Some p"
    by (auto split: option.splits)
  from next_index_sound [OF n(1) Cons.prems(2,3)] obtain k0 j where s: "length buf' = 136" "pos' \<le> 136"
    "b = unat j" "\<And>k. dropWhile (\<lambda>b. unat b > i) (ahead (k0 + k) ctx buf pos) = j # ahead k ctx' buf' pos'" by blast
  have sg: "i32 (uint (1 - 2 * (signs AND 1))) = (if h m then - 1 else 1)"
    using Cons.prems(4) Cons.prems(5) [of 0] by (simp add: challenge_sign)
  have "bit (drop_bit 1 signs) n = h (m + 1 + n)" if "n + (m + 1) < 64" for n
    using Cons.prems(5) [of "Suc n"] that by (simp add: bit_drop_bit_eq)
  then obtain k where "sample_in_ball is (ahead k ctx' buf' pos') h (m + 1) (challenge_swap i b signs c) = Some p"
    using Cons.IH [OF n(2) s(1,2), of "m + 1"] Cons.prems(4) by auto
  then have "sample_in_ball (i # is) (ahead (k0 + k) ctx buf pos) h m c = Some p"
    using s(3) s(4) [of k] by (simp add: challenge_swap_def sg)
  then show ?case by blast
qed simp

lemma sample_in_ball_cong:
  "(\<And>n. n < 64 \<Longrightarrow> h n = h' n) \<Longrightarrow> m + length is \<le> 64 \<Longrightarrow> sample_in_ball is bs h m c = sample_in_ball is bs h' m c"
proof (induction "is" arbitrary: bs m c)
  case (Cons i "is")
  then show ?case by (cases "dropWhile (\<lambda>b. unat b > i) bs") (simp_all del: dropWhile_eq_Nil_conv)
qed simp

lemma challenge_iff:
  "poly_challenge_volatile seed = Some c \<longleftrightarrow>
     (\<exists>k. let s = spec_sponge 136 0x1F seed (136 + k * 136)
          in sample_in_ball [196..<256] (drop 8 s) (sign_bits s) 0 (replicate 256 0) = Some c)"
proof -
  let ?c = "shake256_finalize (shake256_absorb shake256_init seed)"
  let ?b = "fst (shake256_squeeze ?c 136)" and ?d = "snd (shake256_squeeze ?c 136)"
  have l: "length ?b = 136" by (rule sh256.length_squeeze)
  have s: "spec_sponge 136 0x1F seed (136 + k * 136) = ?b @ fst (shake256_squeeze ?d (k * 136))" for k
    unfolding sh256.digest_spec [symmetric] by (subst sh256.squeeze_add) simp
  have h: "bit (challenge_signs ?b) n = sign_bits (?b @ bs) (0 + n)" if "n + 0 < 64" for n bs
  proof -
    have "n div 8 < length ?b" using that l by (simp add: less_mult_imp_div_less)
    then show ?thesis using bit_challenge_signs [of n ?b] that by (simp add: sign_bits_def nth_append)
  qed
  have a: "drop 8 (?b @ fst (shake256_squeeze ?d (k * 136))) = ahead k ?d ?b 8" for k using l by (simp add: ahead_def)
  have eq: "poly_challenge_volatile seed = challenge_loop [196..<256] ?d ?b 8 (challenge_signs ?b) (replicate 256 0)"
    by (simp add: poly_challenge_volatile_def case_prod_beta Let_def)
  have sb: "sample_in_ball [196..<256] bs (sign_bits (?b @ xs)) 0 (replicate 256 0)
      = sample_in_ball [196..<256] bs (sign_bits ?b) 0 (replicate 256 0)" for bs xs
    using l by (intro sample_in_ball_cong) (simp_all add: sign_bits_def nth_append less_mult_imp_div_less)
  show ?thesis
    unfolding eq s Let_def a sb
  proof
    assume "challenge_loop [196..<256] ?d ?b 8 (challenge_signs ?b) (replicate 256 0) = Some c"
    from challenge_sound [OF this l, of 0 "sign_bits ?b"] h [where bs = "[]"]
    show "\<exists>k. sample_in_ball [196..<256] (ahead k ?d ?b 8) (sign_bits ?b) 0 (replicate 256 0) = Some c" by simp
  next
    assume "\<exists>k. sample_in_ball [196..<256] (ahead k ?d ?b 8) (sign_bits ?b) 0 (replicate 256 0) = Some c"
    then obtain k where "sample_in_ball [196..<256] (ahead k ?d ?b 8) (sign_bits ?b) 0 (replicate 256 0) = Some c" ..
    from challenge_complete [OF this l, of "challenge_signs ?b"] h [where bs = "[]"]
    show "challenge_loop [196..<256] ?d ?b 8 (challenge_signs ?b) (replicate 256 0) = Some c" by simp
  qed
qed

text \<open>
  C36.  The challenge sampler is \<open>SampleInBall\<close>: it returns exactly when some prefix of the SHAKE-256 stream
  of the seed has enough bytes for it, and returns its result; the signs are the first 64 bits.
\<close>

theorem challenge_is_sample_in_ball:
  "poly_challenge_volatile seed = Some c \<longleftrightarrow>
     (\<exists>k. let s = spec_sponge 136 0x1F seed (136 + k * 136)
          in sample_in_ball [196..<256] (drop 8 s) (sign_bits s) 0 (replicate 256 0) = Some c)"
  by (rule challenge_iff)

text \<open>
  The loop invariant: only positions below \<open>i\<close> are non-zero, each non-zero entry is a sign, and there
  are as many as rounds done.
\<close>

definition ball_inv :: "nat \<Rightarrow> nat \<Rightarrow> poly \<Rightarrow> bool" where
  "ball_inv i t c \<longleftrightarrow> length c = N \<and> set c \<subseteq> {- 1, 0, 1} \<and> (\<forall>k < N. i \<le> k \<longrightarrow> c ! k = 0) \<and>
     card {k. k < N \<and> c ! k \<noteq> 0} = t"

lemma ball_inv_step:
  assumes "ball_inv i t c" "b \<le> i" "i < 256" "s \<in> {- 1, 1}"
  shows "ball_inv (Suc i) (Suc t) ((c[i := c ! b])[b := s])"
proof -
  let ?c = "(c[i := c ! b])[b := s]"
  from assms(1) have len: "length c = 256" and vals: "set c \<subseteq> {- 1, 0, 1}" and zero: "\<And>k. k < 256 \<Longrightarrow> i \<le> k \<Longrightarrow> c ! k = 0"
    and num: "card {k. k < 256 \<and> c ! k \<noteq> 0} = t" unfolding ball_inv_def by auto
  have cb: "c ! b \<in> {- 1, 0, 1}" using subsetD [OF vals nth_mem] len assms(2,3) by simp
  have nth: "?c ! k = (if k = b then s else if k = i then c ! b else c ! k)" if "k < 256" for k
    using that len assms(2,3) by (simp add: nth_list_update)
  have "set ?c \<subseteq> {- 1, 0, 1}"
    using vals cb assms(4) set_update_subset_insert [of "c[i := c ! b]" b s] set_update_subset_insert [of c i "c ! b"] by blast
  moreover have "?c ! k = 0" if "k < 256" "Suc i \<le> k" for k using that nth zero assms(2) by simp
  moreover have S: "{k. k < 256 \<and> ?c ! k \<noteq> 0} = {k. k < 256 \<and> (if k = b then s else if k = i then c ! b else c ! k) \<noteq> 0}"
    by (rule Collect_cong) (metis nth)
  have "card {k. k < 256 \<and> ?c ! k \<noteq> 0} = Suc t"
  proof (cases "b = i \<or> c ! b = 0")
    case True
    then have "{k. k < 256 \<and> ?c ! k \<noteq> 0} = insert b {k. k < 256 \<and> c ! k \<noteq> 0}" "b \<notin> {k. k < 256 \<and> c ! k \<noteq> 0}"
      using assms(2-4) zero [of i] unfolding S by (auto split: if_splits)
    then show ?thesis using num by simp
  next
    case False
    then have "{k. k < 256 \<and> ?c ! k \<noteq> 0} = insert i {k. k < 256 \<and> c ! k \<noteq> 0}" "i \<notin> {k. k < 256 \<and> c ! k \<noteq> 0}"
      using assms(2-4) zero [of i] unfolding S by (auto split: if_splits)
    then show ?thesis using num by simp
  qed
  with calculation show ?thesis unfolding ball_inv_def using len by simp
qed

lemma sample_in_ball_inv:
  assumes "sample_in_ball [i..<256] bs h m c = Some p" "ball_inv i t c" "i \<le> 256"
  shows "ball_inv 256 (t + (256 - i)) p"
  using assms
proof (induction "256 - i" arbitrary: i bs m c t)
  case (Suc d)
  then have i: "i < 256" "[i..<256] = i # [Suc i..<256]" by (simp_all add: upt_conv_Cons)
  from Suc.prems(1) obtain j bs' where dw: "dropWhile (\<lambda>b. unat b > i) bs = j # bs'"
    unfolding i(2) by (auto split: list.splits)
  then have "unat j \<le> i" by (metis dropWhile_eq_Cons_conv linorder_not_less)
  then have "ball_inv (Suc i) (Suc t) ((c[i := c ! unat j])[unat j := (if h m then - 1 else 1)])"
    using Suc.prems(2) i(1) by (intro ball_inv_step) auto
  moreover have "sample_in_ball [Suc i..<256] bs' h (m + 1) ((c[i := c ! unat j])[unat j := (if h m then - 1 else 1)]) = Some p"
    using Suc.prems(1) dw unfolding i(2) by simp
  moreover have "d = 256 - Suc i" "Suc i \<le> 256" using Suc.hyps(2) i(1) by simp_all
  ultimately have "ball_inv 256 (Suc t + (256 - Suc i)) p" by (intro Suc.hyps(1))
  moreover have "Suc t + (256 - Suc i) = t + (256 - i)" using i(1) by simp
  ultimately show ?case by metis
qed simp

lemma challenge_inv:
  assumes "poly_challenge_volatile seed = Some c"
  shows "ball_inv 256 60 c"
proof -
  let ?c = "shake256_finalize (shake256_absorb shake256_init seed)"
  let ?b = "fst (shake256_squeeze ?c 136)"
  have l: "length ?b = 136" by (rule sh256.length_squeeze)
  have "challenge_loop [196..<256] (snd (shake256_squeeze ?c 136)) ?b 8 (challenge_signs ?b) (replicate 256 0) = Some c"
    using assms by (simp add: poly_challenge_volatile_def case_prod_beta Let_def)
  from challenge_sound [OF this l, of 0 "bit (challenge_signs ?b)"]
  obtain k where "sample_in_ball [196..<256] (ahead k (snd (shake256_squeeze ?c 136)) ?b 8) (bit (challenge_signs ?b)) 0 (replicate 256 0) = Some c"
    by auto
  moreover have "ball_inv 196 0 (replicate 256 0)" by (auto simp: ball_inv_def)
  ultimately show ?thesis using sample_in_ball_inv by fastforce
qed

lemma challenge_bounded: "poly_challenge_volatile seed = Some c \<Longrightarrow> bounded 2 c"
  using challenge_inv [of seed c] unfolding ball_inv_def bounded_def by (auto simp: list_all_iff)

text \<open>
  Whatever challenge the sampler returns has 256 coefficients of which exactly 60 are non-zero, each
  1 or -1.  The two copies of the sampler agree on seeds of 64 bytes and the one in \<open>poly.c\<close> refuses
  all others.
\<close>

theorem challenge_has_weight_60:
  "(case poly_challenge_volatile seed of None \<Rightarrow> True
    | Some c \<Rightarrow> length c = 256 \<and> set c \<subseteq> {- 1, 0, 1} \<and> card {k. k < 256 \<and> c ! k \<noteq> 0} = 60)
   \<and> poly_challenge seed =
       (if length seed = 64 then map_option Inr (poly_challenge_volatile seed) else Some (Inl ERR_INVALID_SEED_LENGTH))"
  using challenge_inv [of seed]
  by (auto simp: ball_inv_def poly_challenge_def poly_challenge_volatile_def case_prod_beta Let_def split: option.splits)

end
