(* ===== verification/Polyvec.thy ===== *)
theory Polyvec
  imports Sampling
begin

text \<open>
  The vectors of \<open>polyvec.c\<close>: a \<open>PolyVecK\<close> is a list of 8 polynomials, a \<open>PolyVecL\<close> one of 7.  A function that
  runs a polynomial routine on every entry is a \<open>map\<close> over the entries; the argument lists are those
  of the C functions without the output pointers.
\<close>

type_synonym polyvec = "poly list"

definition polyvec_ok :: "nat \<Rightarrow> polyvec \<Rightarrow> bool" where
  "polyvec_ok n v \<longleftrightarrow> length v = n \<and> list_all (\<lambda>p. length p = N) v"

subsection \<open>Vectors of length L\<close>

definition poly_vec_l_uniform_gamma1 :: "byte list \<Rightarrow> 16 word \<Rightarrow> polyvec" where
  "poly_vec_l_uniform_gamma1 seed nonce = map (\<lambda>i. poly_uniform_gamma1 seed (of_nat L * nonce + of_nat i)) [0..<L]"

definition poly_vec_l_reduce :: "polyvec \<Rightarrow> polyvec" where
  "poly_vec_l_reduce v = map poly_reduce v"

definition poly_vec_l_add :: "polyvec \<Rightarrow> polyvec \<Rightarrow> polyvec" where
  "poly_vec_l_add u v = map2 poly_add u v"

definition poly_vec_l_ntt :: "polyvec \<Rightarrow> polyvec" where
  "poly_vec_l_ntt v = map poly_ntt v"

definition poly_vec_l_inv_ntt_to_mont :: "polyvec \<Rightarrow> polyvec" where
  "poly_vec_l_inv_ntt_to_mont v = map poly_inv_ntt_to_mont v"

definition poly_vec_l_pointwise_poly_montgomery :: "poly \<Rightarrow> polyvec \<Rightarrow> polyvec" where
  "poly_vec_l_pointwise_poly_montgomery a v = map (poly_pointwise_montgomery a) v"

text \<open>The first entry that exceeds the bound ends the loop with 1.\<close>

fun chk_norm_vec :: "polyvec \<Rightarrow> int \<Rightarrow> int" where
  "chk_norm_vec [] bound = 0"
| "chk_norm_vec (p # ps) bound = (if poly_chk_norm p bound \<noteq> 0 then 1 else chk_norm_vec ps bound)"

definition poly_vec_l_chk_norm :: "polyvec \<Rightarrow> int \<Rightarrow> int" where
  "poly_vec_l_chk_norm v bound = chk_norm_vec v bound"

text \<open>The \<open>nonce\<close> counts the entries; a sampler that does not return makes the whole call not return.\<close>

definition poly_vec_l_uniform_eta :: "byte list \<Rightarrow> 16 word \<Rightarrow> polyvec option" where
  "poly_vec_l_uniform_eta seed nonce = those (map (\<lambda>i. poly_uniform_eta seed (nonce + of_nat i)) [0..<L])"

text \<open>\<open>poly_vec_l_pointwise_acc_montgomery\<close>: the first product initialises the sum.\<close>

definition poly_vec_l_pointwise_acc_montgomery :: "polyvec \<Rightarrow> polyvec \<Rightarrow> poly" where
  "poly_vec_l_pointwise_acc_montgomery u v =
     fold (\<lambda>i w. poly_add w (poly_pointwise_montgomery (u ! i) (v ! i))) [1..<L]
       (poly_pointwise_montgomery (u ! 0) (v ! 0))"

subsection \<open>Vectors of length K\<close>

definition poly_vec_k_add :: "polyvec \<Rightarrow> polyvec \<Rightarrow> polyvec" where
  "poly_vec_k_add u v = map2 poly_add u v"

definition poly_vec_k_sub :: "polyvec \<Rightarrow> polyvec \<Rightarrow> polyvec" where
  "poly_vec_k_sub u v = map2 poly_sub u v"

definition poly_vec_k_shift_l :: "polyvec \<Rightarrow> polyvec" where
  "poly_vec_k_shift_l v = map poly_shitf_l v"

definition poly_vec_k_ntt :: "polyvec \<Rightarrow> polyvec" where
  "poly_vec_k_ntt v = map poly_ntt v"

definition poly_vec_k_inv_ntt_to_mont :: "polyvec \<Rightarrow> polyvec" where
  "poly_vec_k_inv_ntt_to_mont v = map poly_inv_ntt_to_mont v"

definition poly_vec_k_pointwise_poly_montgomery :: "poly \<Rightarrow> polyvec \<Rightarrow> polyvec" where
  "poly_vec_k_pointwise_poly_montgomery a v = map (poly_pointwise_montgomery a) v"

definition poly_vec_k_chk_norm :: "polyvec \<Rightarrow> int \<Rightarrow> int" where
  "poly_vec_k_chk_norm v bound = chk_norm_vec v bound"

definition poly_vec_k_power2_round :: "polyvec \<Rightarrow> polyvec \<times> polyvec" where
  "poly_vec_k_power2_round v = (map (\<lambda>p. fst (poly_power2_round p)) v, map (\<lambda>p. snd (poly_power2_round p)) v)"

definition poly_vec_k_decompose :: "polyvec \<Rightarrow> polyvec \<times> polyvec" where
  "poly_vec_k_decompose v = (map (\<lambda>p. fst (poly_decompose p)) v, map (\<lambda>p. snd (poly_decompose p)) v)"

definition poly_vec_k_make_hint :: "polyvec \<Rightarrow> polyvec \<Rightarrow> polyvec \<times> int" where
  "poly_vec_k_make_hint v0 v1 =
     (let rs = map2 poly_make_hint v0 v1 in (map fst rs, fold (\<lambda>r s. uw32 (s + snd r)) rs 0))"

definition poly_vec_k_use_hint :: "polyvec \<Rightarrow> polyvec \<Rightarrow> polyvec" where
  "poly_vec_k_use_hint u h = map2 poly_use_hint u h"

definition poly_vec_k_uniform_eta :: "byte list \<Rightarrow> 16 word \<Rightarrow> polyvec option" where
  "poly_vec_k_uniform_eta seed nonce = those (map (\<lambda>i. poly_uniform_eta seed (nonce + of_nat i)) [0..<K])"

definition poly_vec_k_reduce :: "polyvec \<Rightarrow> polyvec" where
  "poly_vec_k_reduce v = map poly_reduce v"

definition poly_vec_k_c_addq :: "polyvec \<Rightarrow> polyvec" where
  "poly_vec_k_c_addq v = map poly_c_addq v"

definition poly_vec_matrix_pointwise_montgomery :: "polyvec list \<Rightarrow> polyvec \<Rightarrow> polyvec" where
  "poly_vec_matrix_pointwise_montgomery mat v = map (\<lambda>i. poly_vec_l_pointwise_acc_montgomery (mat ! i) v) [0..<K]"

subsection \<open>Lemmas\<close>

lemma those_map_Some: "those (map f xs) = Some ys \<longleftrightarrow> length ys = length xs \<and> (\<forall>i < length xs. f (xs ! i) = Some (ys ! i))"
proof (induction xs arbitrary: ys)
  case (Cons x xs)
  then show ?case by (cases ys) (auto split: option.splits simp: nth_Cons split: nat.splits)
qed auto

lemma chk_norm_vec_0: "chk_norm_vec v bound = 0 \<longleftrightarrow> list_all (\<lambda>p. poly_chk_norm p bound = 0) v"
  by (induction v) simp_all

text \<open>The number of ones of a hint vector, and the exact count of \<open>poly_vec_k_make_hint\<close>.\<close>

definition ones :: "polyvec \<Rightarrow> nat" where
  "ones h = sum_list (map (\<lambda>p. length (filter (\<lambda>x. x \<noteq> 0) p)) h)"

lemma make_hint_bit: "make_hint a0 a1 \<in> {0, 1}"
proof -
  have "make_hint a0 a1 = x AND 1 \<Longrightarrow> ?thesis" for x by (auto simp: and_one_eq)
  then show ?thesis unfolding make_hint_def Let_def by blast
qed

lemma count_ones_fold:
  assumes "set h \<subseteq> {0, 1}" "0 \<le> s" "s + int (length h) < 4294967296"
  shows "fold (\<lambda>x s. uw32 (s + uw32 x)) h s = s + int (length (filter (\<lambda>x. x \<noteq> 0) h))"
  using assms
proof (induction h arbitrary: s)
  case (Cons x h)
  then have "uw32 (s + uw32 x) = s + x" by auto
  with Cons show ?case by auto
qed simp

lemma poly_make_hint_eq:
  assumes "length a0 = 256" "length a1 = 256"
  shows "poly_make_hint a0 a1 = (map2 make_hint a0 a1, int (length (filter (\<lambda>x. x \<noteq> 0) (map2 make_hint a0 a1))))"
proof -
  have "set (map2 make_hint a0 a1) \<subseteq> {0, 1}" using make_hint_bit by auto
  with count_ones_fold [OF this, of 0] assms show ?thesis by (simp add: poly_make_hint_def Let_def)
qed

end
