(* ===== verification/Sign.thy ===== *)
theory Sign
  imports Polyvec "HOL-Library.Monad_Syntax"
begin

text \<open>
  ML-DSA-87 over non-volatile memory, \<open>sign.c\<close>.  The vectors live in \<open>N_storage\<close>; a \<open>_volatile\<close> routine copies
  one polynomial into \<open>ubuf\<close>, works there with the bodies of \<open>reduce.c\<close>, \<open>rounding.c\<close>, \<open>ntt.c\<close> and \<open>poly.c\<close>
  written out in line, and stores it back with \<open>nvm_write\<close>.  \<open>ubuf\<close> is scratch: nothing reads what an
  earlier routine left there.  So a routine is modelled by the new contents of the vector it
  stores, and the operations on keys and signatures by the new contents of \<open>N_storage\<close>.  \<open>None\<close> is a
  sampler that never finishes.
\<close>

subsection \<open>N\_storage\<close>

text \<open>
  \<open>internal_storage_t\<close>.  The union \<open>pack1\<close> holds \<open>t0\<close>, and \<open>buf_verify\<close> is a view of the 1024 bytes of its first
  polynomial (little-endian 32-bit coefficients).
\<close>

record nvm =
  nv_t1 :: polyvec
  nv_w1 :: polyvec
  nv_w0 :: polyvec
  nv_h :: polyvec
  nv_y :: polyvec
  nv_z :: polyvec
  nv_cp :: poly
  nv_t0 :: polyvec
  nv_sig :: "byte list"
  nv_pk :: "byte list"
  enable_blind_signing :: byte
  display_nonce :: byte
  display_tx_hash :: byte
  initialized :: byte
  is_sending_signature :: byte

definition nvm_ok :: "nvm \<Rightarrow> bool" where
  "nvm_ok s \<longleftrightarrow> polyvec_ok K (nv_t1 s) \<and> polyvec_ok K (nv_w1 s) \<and> polyvec_ok K (nv_w0 s) \<and> polyvec_ok K (nv_h s)
     \<and> polyvec_ok L (nv_y s) \<and> polyvec_ok L (nv_z s) \<and> length (nv_cp s) = N \<and> polyvec_ok K (nv_t0 s)
     \<and> length (nv_sig s) = CRYPTO_BYTES \<and> length (nv_pk s) = CRYPTO_PUBLIC_KEY_BYTES"

definition le32_bytes :: "int list \<Rightarrow> byte list" where
  "le32_bytes c = [byte_of (c ! 0), byte_of (asr (c ! 0) 8), byte_of (asr (c ! 0) 16), byte_of (asr (c ! 0) 24)]"

definition le32_int :: "byte list \<Rightarrow> int list" where
  "le32_int b = [i32 (uint (b ! 0) OR push_bit 8 (uint (b ! 1)) OR push_bit 16 (uint (b ! 2)) OR push_bit 24 (uint (b ! 3)))]"

definition buf_verify :: "polyvec \<Rightarrow> byte list" where
  "buf_verify t0 = encode_blocks N 1 le32_bytes (t0 ! 0)"

definition store_buf_verify :: "byte list \<Rightarrow> polyvec \<Rightarrow> polyvec" where
  "store_buf_verify buf t0 = t0[0 := encode_blocks N 4 le32_int buf]"

subsection \<open>Routines on vectors\<close>

text \<open>
  \<open>combined_method\<close>: row by row, sample an entry, multiply it with the transformed vector and add.  The
  product is stored for \<open>j = 0\<close> and added afterwards; \<open>t\<close> is \<open>t1->vec[i]\<close>.
\<close>

fun combined_row :: "byte list \<Rightarrow> polyvec \<Rightarrow> nat \<Rightarrow> nat list \<Rightarrow> poly \<Rightarrow> poly option" where
  "combined_row rho s1hat i [] t = Some t"
| "combined_row rho s1hat i (j # js) t =
     do { a \<leftarrow> matrix_entry rho i j;
          let p = poly_pointwise_montgomery a (s1hat ! j);
          combined_row rho s1hat i js (if j = 0 then p else poly_add t p) }"

definition combined_method :: "polyvec \<Rightarrow> polyvec \<Rightarrow> byte list \<Rightarrow> polyvec option" where
  "combined_method t1 s1hat rho = those (map (\<lambda>i. combined_row rho s1hat i [0..<L] (t1 ! i)) [0..<K])"

definition poly_vec_k_reduce_volatile :: "polyvec \<Rightarrow> polyvec" where
  "poly_vec_k_reduce_volatile v = map (map reduce_32) v"

definition poly_vec_k_inv_ntt_to_mont_volatile :: "polyvec \<Rightarrow> polyvec" where
  "poly_vec_k_inv_ntt_to_mont_volatile v = map inv_ntt_to_mont v"

definition poly_vec_k_add_volatile :: "polyvec \<Rightarrow> polyvec \<Rightarrow> polyvec" where
  "poly_vec_k_add_volatile w v = map2 (map2 (\<lambda>x y. i32 (x + y))) w v"

definition poly_vec_k_ntt_volatile :: "polyvec \<Rightarrow> polyvec" where
  "poly_vec_k_ntt_volatile v = map ntt v"

definition poly_vec_k_c_addq_volatile :: "polyvec \<Rightarrow> polyvec" where
  "poly_vec_k_c_addq_volatile v = map (map c_addq) v"

text \<open>The new \<open>v1\<close> and \<open>v0\<close>; \<open>v1\<close> may be \<open>v\<close> itself, since \<open>v0\<close> is stored first and each polynomial is read before it is stored.\<close>

definition poly_vec_k_power2_round_volatile :: "polyvec \<Rightarrow> polyvec \<times> polyvec" where
  "poly_vec_k_power2_round_volatile v =
     (let v0 = map (map (\<lambda>a. snd (power2_round a))) v;
          v1 = map (map (\<lambda>a. fst (power2_round a))) v
      in (v1, v0))"

definition poly_vec_k_power2_round_volatile_keypair :: "polyvec \<Rightarrow> polyvec" where
  "poly_vec_k_power2_round_volatile_keypair v = map (map (\<lambda>a. fst (power2_round a))) v"

definition pack_pk_volatile :: "byte list \<Rightarrow> polyvec \<Rightarrow> byte list \<Rightarrow> byte list" where
  "pack_pk_volatile rho t1 pk =
     fold (\<lambda>b. write_at (SEED_BYTES + b * POLY_T1_PACKED_BYTES) (poly_t1_pack (t1 ! b))) [0..<K] (write_at 0 rho pk)"

definition poly_vec_l_uniform_gamma1_volatile :: "byte list \<Rightarrow> 16 word \<Rightarrow> polyvec" where
  "poly_vec_l_uniform_gamma1_volatile seed nonce =
     map (\<lambda>j. let nonce_val = of_nat L * nonce + of_nat j;
                  ctx = shake256_finalize (shake256_absorb (shake256_absorb shake256_init seed) (nonce_bytes nonce_val));
                  (gamma1_buffer, ctx) = shake256_squeeze ctx 680
              in encode_blocks (N div 2) 5 z_unpack2 gamma1_buffer) [0..<L]"

definition poly_vec_l_ntt_volatile :: "polyvec \<Rightarrow> polyvec" where
  "poly_vec_l_ntt_volatile v = map ntt v"

definition poly_vec_k_decompose_volatile :: "polyvec \<Rightarrow> polyvec \<times> polyvec" where
  "poly_vec_k_decompose_volatile v =
     (let v0 = map (map (\<lambda>a. snd (decompose a))) v;
          v1 = map (map (\<lambda>a. fst (decompose a))) v
      in (v1, v0))"

definition poly_vec_k_pack_w1_volatile :: "polyvec \<Rightarrow> byte list \<Rightarrow> byte list" where
  "poly_vec_k_pack_w1_volatile w1 r =
     fold (\<lambda>i. write_at (i * POLY_W1_PACKED_BYTES) (poly_w1_pack (w1 ! i))) [0..<K] r"

definition poly_vec_k_pack_w1_volatile_verify :: "polyvec \<Rightarrow> byte list \<Rightarrow> byte list" where
  "poly_vec_k_pack_w1_volatile_verify w1 r =
     fold (\<lambda>i. write_at (i * POLY_W1_PACKED_BYTES) (poly_w1_pack (w1 ! i))) [0..<K] r"

definition poly_vec_l_pointwise_poly_montgomery_volatile :: "poly \<Rightarrow> polyvec \<Rightarrow> polyvec" where
  "poly_vec_l_pointwise_poly_montgomery_volatile a v = map (map2 (\<lambda>x y. montgomery_reduce (i64 (x * y))) a) v"

definition poly_vec_l_inv_ntt_to_mont_volatile :: "polyvec \<Rightarrow> polyvec" where
  "poly_vec_l_inv_ntt_to_mont_volatile v = map inv_ntt_to_mont v"

definition poly_vec_l_add_volatile :: "polyvec \<Rightarrow> polyvec \<Rightarrow> polyvec" where
  "poly_vec_l_add_volatile w v = map2 (map2 (\<lambda>x y. i32 (x + y))) w v"

definition poly_vec_l_reduce_volatile :: "polyvec \<Rightarrow> polyvec" where
  "poly_vec_l_reduce_volatile v = map (map reduce_32) v"

definition poly_vec_k_sub_volatile :: "polyvec \<Rightarrow> polyvec \<Rightarrow> polyvec" where
  "poly_vec_k_sub_volatile u v = map2 (map2 (\<lambda>x y. i32 (x - y))) u v"

definition poly_vec_k_pointwise_poly_montgomery_volatile :: "poly \<Rightarrow> polyvec \<Rightarrow> polyvec" where
  "poly_vec_k_pointwise_poly_montgomery_volatile a v = map (map2 (\<lambda>x y. montgomery_reduce (i64 (x * y))) a) v"

definition poly_ntt_volatile :: "poly \<Rightarrow> poly" where
  "poly_ntt_volatile a = ntt a"

definition poly_vec_k_make_hint_volatile :: "polyvec \<Rightarrow> polyvec \<Rightarrow> polyvec \<times> int" where
  "poly_vec_k_make_hint_volatile v0 v1 =
     (let h = map2 (map2 make_hint) v0 v1
      in (h, fold (\<lambda>p s. uw32 (s + fold (\<lambda>x s2. uw32 (s2 + uw32 x)) p 0)) h 0))"

definition poly_vec_k_shift_l_volatile :: "polyvec \<Rightarrow> polyvec" where
  "poly_vec_k_shift_l_volatile v = map (map (\<lambda>x. i32 (push_bit D x))) v"

definition poly_vec_k_use_hint_volatile :: "polyvec \<Rightarrow> polyvec \<Rightarrow> polyvec" where
  "poly_vec_k_use_hint_volatile u h = map2 (map2 use_hint) u h"

subsection \<open>The signature format\<close>

text \<open>The body of the double loop that encodes the hint: \<open>temp3\<close> and \<open>k\<close>.\<close>

definition hint_step :: "polyvec \<Rightarrow> nat \<times> nat \<Rightarrow> byte list \<times> nat \<Rightarrow> byte list \<times> nat" where
  "hint_step h ij s =
     (let (i, j) = ij; (temp3, k) = s;
          (temp3, k) = (if h ! i ! j \<noteq> 0 then (temp3[k := of_nat j], k + 1) else (temp3, k))
      in (temp3[OMEGA + i := of_nat k], k))"

definition hint_bytes :: "polyvec \<Rightarrow> byte list" where
  "hint_bytes h = fst (fold (hint_step h) (List.product [0..<K] [0..<N]) (replicate (OMEGA + K) 0, 0))"

text \<open>\<open>pack_sig_volatile\<close> after its length check, which its only call passes.\<close>

definition pack_sig_volatile :: "byte list \<Rightarrow> byte list \<Rightarrow> polyvec \<Rightarrow> polyvec \<Rightarrow> byte list" where
  "pack_sig_volatile sig c z h =
     (let sig = write_at 0 c sig;
          sig = fold (\<lambda>b. write_at (CTILDE_BYTES + b * POLY_Z_PACKED_BYTES) (poly_z_pack (z ! b))) [0..<L] sig;
          sig = write_at (CTILDE_BYTES + L * POLY_Z_PACKED_BYTES) (replicate (OMEGA + K) 0) sig
      in write_at (CTILDE_BYTES + L * POLY_Z_PACKED_BYTES) (hint_bytes h) sig)"

text \<open>
  Decoding the hint: \<open>hb\<close> are the bytes of \<open>sig\<close> from the hint on.  The inner loop stores ones until
  the positions stop increasing; the flag says that it returned 1.
\<close>

fun hint_row :: "byte list \<Rightarrow> nat \<Rightarrow> nat list \<Rightarrow> poly \<Rightarrow> poly \<times> bool" where
  "hint_row hb k [] p = (p, False)"
| "hint_row hb k (j # js) p =
     (if j > k \<and> hb ! j \<le> hb ! (j - 1) then (p, True)
      else hint_row hb k js (p[unat (hb ! j) := 1]))"

fun hint_rows :: "byte list \<Rightarrow> nat list \<Rightarrow> nat \<Rightarrow> polyvec \<Rightarrow> polyvec \<times> nat option" where
  "hint_rows hb [] k h = (h, Some k)"
| "hint_rows hb (i # is) k h =
     (let h = h[i := replicate N 0];
          cnt = unat (hb ! (OMEGA + i))
      in if cnt < k \<or> cnt > OMEGA then (h, None)
         else (let (p, bad) = hint_row hb k [k..<cnt] (h ! i); h = h[i := p]
               in if bad then (h, None) else hint_rows hb is cnt h))"

text \<open>The new \<open>z\<close> and \<open>h\<close>, the challenge bytes, and the return value.\<close>

definition unpack_sig_volatile :: "byte list \<Rightarrow> polyvec \<Rightarrow> byte list \<times> polyvec \<times> polyvec \<times> int" where
  "unpack_sig_volatile sig h =
     (let c = take CTILDE_BYTES sig;
          z = map (\<lambda>b. encode_blocks (N div 2) 5 z_unpack2 (drop (CTILDE_BYTES + b * POLY_Z_PACKED_BYTES) sig)) [0..<L];
          hb = drop (CTILDE_BYTES + L * POLY_Z_PACKED_BYTES) sig;
          (h, res) = hint_rows hb [0..<K] 0 h
      in case res of
           None \<Rightarrow> (c, z, h, 1)
         | Some k \<Rightarrow> if list_all (\<lambda>j. hb ! j = 0) [k..<OMEGA] then (c, z, h, 0) else (c, z, h, 1))"

subsection \<open>Key generation\<close>

text \<open>The calls \<open>init\<close>, \<open>absorb\<close> of each part, \<open>finalize\<close>, one \<open>squeeze\<close>, \<open>clear\<close>.\<close>

definition shake256_of :: "byte list list \<Rightarrow> nat \<Rightarrow> byte list" where
  "shake256_of parts n = fst (shake256_squeeze (shake256_finalize (fold (\<lambda>m ctx. shake256_absorb ctx m) parts shake256_init)) n)"

definition expand_seed :: "byte list \<Rightarrow> byte list \<times> byte list \<times> byte list" where
  "expand_seed seed =
     (let ctx = shake256_finalize (shake256_absorb (shake256_absorb shake256_init seed) [of_nat K, of_nat L]);
          (rho, ctx) = shake256_squeeze ctx SEED_BYTES;
          (rhoPrime, ctx) = shake256_squeeze ctx CRH_BYTES;
          (key, ctx) = shake256_squeeze ctx SEED_BYTES
      in (rho, rhoPrime, key))"

text \<open>
  The part that \<open>crypto_sign_keypair\<close>, \<open>crypto_sign_optimized\<close> and \<open>crypto_verify_optimized\<close> share: \<open>t\<close> from the
  transformed \<open>s1\<close> and \<open>s2\<close>; \<open>t1\<close> is the old contents of \<open>N_storage.t1\<close>.
\<close>

definition public_t :: "byte list \<Rightarrow> polyvec \<Rightarrow> polyvec \<Rightarrow> polyvec \<Rightarrow> polyvec option" where
  "public_t rho s1hat s2 t1 =
     do { t1 \<leftarrow> combined_method t1 s1hat rho;
          let t1 = poly_vec_k_reduce_volatile t1;
          let t1 = poly_vec_k_inv_ntt_to_mont_volatile t1;
          let t1 = poly_vec_k_add_volatile t1 s2;
          Some (poly_vec_k_c_addq_volatile t1) }"

text \<open>
  \<open>crypto_sign_keypair\<close> with a seed.  For \<open>NULL\<close> the code fills an array of an inner block with random bytes and keeps a pointer to it
  after the block has ended, which C leaves undefined; the only caller passes a seed.
\<close>

definition crypto_sign_keypair :: "byte list \<Rightarrow> nvm \<Rightarrow> nvm option" where
  "crypto_sign_keypair seed s =
     (let (rho, rhoPrime, key) = expand_seed seed
      in do { s1 \<leftarrow> poly_vec_l_uniform_eta rhoPrime 0;
              s2 \<leftarrow> poly_vec_k_uniform_eta rhoPrime (of_nat L);
              let s1 = poly_vec_l_ntt s1;
              t \<leftarrow> public_t rho s1 s2 (nv_t1 s);
              let t1 = poly_vec_k_power2_round_volatile_keypair t;
              Some (s\<lparr>nv_t1 := t1, nv_pk := pack_pk_volatile rho t1 (nv_pk s)\<rparr>) })"

definition new_mldsa87_from_seed :: "byte list \<Rightarrow> nvm \<Rightarrow> nvm option" where
  "new_mldsa87_from_seed seed s = crypto_sign_keypair seed s"

subsection \<open>Signing\<close>

text \<open>An \<open>ErrorCode\<close> as these functions return it: an enumeration constant or -1.\<close>

datatype status = Code error_code | Minus_one

definition CTX :: "byte list" where
  "CTX = [0x5A, 0x4F, 0x4E, 0x44, 0x01, 0x01, 0x00, 0x00]"

definition pre_bytes :: "byte list" where
  "pre_bytes = [0, of_nat (length CTX)] @ CTX"

text \<open>The locals that the rejection loop reads.\<close>

record sign_env =
  se_rho :: "byte list"
  se_rhoPrime :: "byte list"
  se_mu :: "byte list"
  se_s1 :: polyvec
  se_s2 :: polyvec

text \<open>
  One pass of the code between \<open>rej:\<close> and the end; the flag is \<open>False\<close> for a \<open>goto rej\<close>.
\<close>

definition sign_attempt :: "sign_env \<Rightarrow> 16 word \<Rightarrow> nvm \<Rightarrow> (nvm \<times> bool) option" where
  "sign_attempt e nonce s =
     do { let s = s\<lparr>nv_y := poly_vec_l_uniform_gamma1_volatile (se_rhoPrime e) nonce\<rparr>;
          let s = s\<lparr>nv_z := nv_y s\<rparr>;
          let s = s\<lparr>nv_z := poly_vec_l_ntt_volatile (nv_z s)\<rparr>;
          w1 \<leftarrow> combined_method (nv_w1 s) (nv_z s) (se_rho e);
          let s = s\<lparr>nv_w1 := w1\<rparr>;
          let s = s\<lparr>nv_w1 := poly_vec_k_reduce_volatile (nv_w1 s)\<rparr>;
          let s = s\<lparr>nv_w1 := poly_vec_k_inv_ntt_to_mont_volatile (nv_w1 s)\<rparr>;
          let s = s\<lparr>nv_w1 := poly_vec_k_c_addq_volatile (nv_w1 s)\<rparr>;
          let (w1, w0) = poly_vec_k_decompose_volatile (nv_w1 s);
          let s = s\<lparr>nv_w1 := w1, nv_w0 := w0\<rparr>;
          let s = s\<lparr>nv_sig := poly_vec_k_pack_w1_volatile (nv_w1 s) (nv_sig s)\<rparr>;
          let c = shake256_of [se_mu e, take (K * POLY_W1_PACKED_BYTES) (nv_sig s)] CTILDE_BYTES;
          let s = s\<lparr>nv_sig := write_at 0 c (nv_sig s)\<rparr>;
          cp \<leftarrow> poly_challenge_volatile (take CTILDE_BYTES (nv_sig s));
          let s = s\<lparr>nv_cp := poly_ntt_volatile cp\<rparr>;
          let s = s\<lparr>nv_z := poly_vec_l_pointwise_poly_montgomery_volatile (nv_cp s) (se_s1 e)\<rparr>;
          let s = s\<lparr>nv_z := poly_vec_l_inv_ntt_to_mont_volatile (nv_z s)\<rparr>;
          let s = s\<lparr>nv_z := poly_vec_l_add_volatile (nv_z s) (nv_y s)\<rparr>;
          let s = s\<lparr>nv_z := poly_vec_l_reduce_volatile (nv_z s)\<rparr>;
          if poly_vec_l_chk_norm (nv_z s) (GAMMA1 - BETA) \<noteq> 0 then Some (s, False)
          else do {
          let s = s\<lparr>nv_h := poly_vec_k_pointwise_poly_montgomery_volatile (nv_cp s) (se_s2 e)\<rparr>;
          let s = s\<lparr>nv_h := poly_vec_k_inv_ntt_to_mont_volatile (nv_h s)\<rparr>;
          let s = s\<lparr>nv_w0 := poly_vec_k_sub_volatile (nv_w0 s) (nv_h s)\<rparr>;
          let s = s\<lparr>nv_w0 := poly_vec_k_reduce_volatile (nv_w0 s)\<rparr>;
          if poly_vec_k_chk_norm (nv_w0 s) (GAMMA2 - BETA) \<noteq> 0 then Some (s, False)
          else do {
          let s = s\<lparr>nv_h := poly_vec_k_pointwise_poly_montgomery_volatile (nv_cp s) (nv_t0 s)\<rparr>;
          let s = s\<lparr>nv_h := poly_vec_k_inv_ntt_to_mont_volatile (nv_h s)\<rparr>;
          let s = s\<lparr>nv_h := poly_vec_k_reduce_volatile (nv_h s)\<rparr>;
          if poly_vec_k_chk_norm (nv_h s) GAMMA2 \<noteq> 0 then Some (s, False)
          else do {
          let s = s\<lparr>nv_w0 := poly_vec_k_add_volatile (nv_w0 s) (nv_h s)\<rparr>;
          let (h, n_ret) = poly_vec_k_make_hint_volatile (nv_w0 s) (nv_w1 s);
          let s = s\<lparr>nv_h := h\<rparr>;
          if n_ret > int OMEGA then Some (s, False)
          else do {
          let c = take CTILDE_BYTES (nv_sig s);
          Some (s\<lparr>nv_sig := pack_sig_volatile (nv_sig s) c (nv_z s) (nv_h s)\<rparr>, True) }}}} }"

text \<open>The loop: at most 814 attempts.\<close>

function sign_loop :: "sign_env \<Rightarrow> 16 word \<Rightarrow> nat \<Rightarrow> nvm \<Rightarrow> (nvm \<times> status) option" where
  "sign_loop e nonce attempts s =
     (if attempts \<ge> 814 then Some (s, Code ERR_INVALID_SIGNATURE)
      else case sign_attempt e nonce s of
        None \<Rightarrow> None
      | Some (s', True) \<Rightarrow> Some (s', Code ERR_NONE)
      | Some (s', False) \<Rightarrow> sign_loop e (nonce + 1) (attempts + 1) s')"
  by pat_completeness auto

termination by (relation "measure (\<lambda>(e, nonce, attempts, s). 814 - attempts)") simp_all

declare sign_loop.simps [simp del]

text \<open>
  \<open>crypto_sign_optimized\<close>.  \<open>derive\<close> is \<open>os_derive_bip32_no_throw\<close>, which gives an error code or the 64 bytes
  of the raw seed, and \<open>rnd\<close> what \<open>cx_rng\<close> writes.  The code samples \<open>s2\<close> in the middle of the computation of
  \<open>t\<close>, because it shares memory with the transformed \<open>s1\<close>; the sampler does not touch the storage.
\<close>

definition crypto_sign_optimized ::
  "(u32 list \<Rightarrow> u32 + byte list) \<Rightarrow> u32 list \<Rightarrow> byte list \<Rightarrow> byte list \<Rightarrow> nvm \<Rightarrow> (nvm \<times> status) option" where
  "crypto_sign_optimized derive bip32_path message rnd s =
     (if message = [] then Some (s, Code ERR_INVALID_MESSAGE)
      else case derive bip32_path of
        Inl err \<Rightarrow> Some (s, Minus_one)
      | Inr raw_seed \<Rightarrow>
          (let seed = take 32 raw_seed;
               (rho, rhoPrime, key) = expand_seed seed
           in do { s1 \<leftarrow> poly_vec_l_uniform_eta rhoPrime 0;
                   s2 \<leftarrow> poly_vec_k_uniform_eta rhoPrime (of_nat L);
                   t \<leftarrow> public_t rho (poly_vec_l_ntt s1) s2 (nv_t1 s);
                   let (t1, t0) = poly_vec_k_power2_round_volatile t;
                   let s = s\<lparr>nv_t1 := t1, nv_t0 := t0\<rparr>;
                   let s = s\<lparr>nv_pk := pack_pk_volatile rho (nv_t1 s) (nv_pk s)\<rparr>;
                   let tr = shake256_of [nv_pk s] TR_BYTES;
                   let mu = shake256_of [tr, pre_bytes, message] CRH_BYTES;
                   let rhoPrime = shake256_of [key, rnd, mu] CRH_BYTES;
                   let s = s\<lparr>nv_t0 := poly_vec_k_ntt_volatile (nv_t0 s)\<rparr>;
                   sign_loop \<lparr>se_rho = rho, se_rhoPrime = rhoPrime, se_mu = mu,
                     se_s1 = poly_vec_l_ntt s1, se_s2 = poly_vec_k_ntt s2\<rparr> 0 0 s }))"

subsection \<open>Verification\<close>

text \<open>The new storage, the returned code and \<open>*is_verified\<close>.\<close>

definition crypto_verify_optimized ::
  "(u32 list \<Rightarrow> u32 + byte list) \<Rightarrow> u32 list \<Rightarrow> byte list \<Rightarrow> byte list \<Rightarrow> nvm \<Rightarrow> (nvm \<times> status \<times> bool) option" where
  "crypto_verify_optimized derive bip32_path sig message s =
     (if sig = [] then Some (s, Code ERR_INVALID_SIGNATURE, False)
      else if message = [] then Some (s, Code ERR_INVALID_MESSAGE, False)
      else if length sig \<noteq> CRYPTO_BYTES then Some (s, Code ERR_INVALID_SIGNATURE, False)
      else case derive bip32_path of
        Inl err \<Rightarrow> Some (s, Minus_one, False)
      | Inr raw_seed \<Rightarrow>
          (let seed = take 32 raw_seed;
               (rho, rhoPrime, key) = expand_seed seed
           in do { s1 \<leftarrow> poly_vec_l_uniform_eta rhoPrime 0;
                   s2 \<leftarrow> poly_vec_k_uniform_eta rhoPrime (of_nat L);
                   t \<leftarrow> public_t rho (poly_vec_l_ntt s1) s2 (nv_t1 s);
                   let (t1, t0) = poly_vec_k_power2_round_volatile t;
                   let s = s\<lparr>nv_t1 := t1, nv_t0 := t0\<rparr>;
                   let s = s\<lparr>nv_pk := pack_pk_volatile rho (nv_t1 s) (nv_pk s)\<rparr>;
                   let (c, z, h, bad) = unpack_sig_volatile sig (nv_h s);
                   let s = s\<lparr>nv_z := z, nv_h := h\<rparr>;
                   if bad \<noteq> 0 then Some (s, Code ERR_NONE, False)
                   else if poly_vec_l_chk_norm (nv_z s) (GAMMA1 - BETA) \<noteq> 0 then Some (s, Code ERR_NONE, False)
                   else do {
                   let tr = shake256_of [nv_pk s] TR_BYTES;
                   let mu = shake256_of [tr, pre_bytes, message] CRH_BYTES;
                   cp \<leftarrow> poly_challenge_volatile c;
                   let s = s\<lparr>nv_cp := cp\<rparr>;
                   let s = s\<lparr>nv_z := poly_vec_l_ntt_volatile (nv_z s)\<rparr>;
                   w1 \<leftarrow> combined_method (nv_w1 s) (nv_z s) rho;
                   let s = s\<lparr>nv_w1 := w1\<rparr>;
                   let s = s\<lparr>nv_cp := poly_ntt_volatile (nv_cp s)\<rparr>;
                   let s = s\<lparr>nv_t1 := poly_vec_k_shift_l_volatile (nv_t1 s)\<rparr>;
                   let s = s\<lparr>nv_t1 := poly_vec_k_ntt_volatile (nv_t1 s)\<rparr>;
                   let s = s\<lparr>nv_t1 := poly_vec_k_pointwise_poly_montgomery_volatile (nv_cp s) (nv_t1 s)\<rparr>;
                   let s = s\<lparr>nv_w1 := poly_vec_k_sub_volatile (nv_w1 s) (nv_t1 s)\<rparr>;
                   let s = s\<lparr>nv_w1 := poly_vec_k_reduce_volatile (nv_w1 s)\<rparr>;
                   let s = s\<lparr>nv_w1 := poly_vec_k_inv_ntt_to_mont_volatile (nv_w1 s)\<rparr>;
                   let s = s\<lparr>nv_w1 := poly_vec_k_c_addq_volatile (nv_w1 s)\<rparr>;
                   let s = s\<lparr>nv_w1 := poly_vec_k_use_hint_volatile (nv_w1 s) (nv_h s)\<rparr>;
                   let s = s\<lparr>nv_t0 := store_buf_verify
                              (poly_vec_k_pack_w1_volatile_verify (nv_w1 s) (buf_verify (nv_t0 s))) (nv_t0 s)\<rparr>;
                   let c2 = shake256_of [mu, take (K * POLY_W1_PACKED_BYTES) (buf_verify (nv_t0 s))] CTILDE_BYTES;
                   Some (s, Code ERR_NONE, list_all (\<lambda>i. c ! i = c2 ! i) [0..<CTILDE_BYTES]) } }))"

subsection \<open>Wiping\<close>

text \<open>\<open>nvm_zero\<close>: the offsets and sizes of the chunks of at most 256 zero bytes it writes.\<close>

function nvm_zero_from :: "nat \<Rightarrow> nat \<Rightarrow> (nat \<times> nat) list" where
  "nvm_zero_from off len =
     (if off < len
      then (let chunk = (if len - off > 256 then 256 else len - off)
            in (off, chunk) # nvm_zero_from (off + chunk) len)
      else [])"
  by pat_completeness auto

termination by (relation "measure (\<lambda>(off, len). len - off)") (auto split: if_splits)

declare nvm_zero_from.simps [simp del]

definition nvm_zero :: "byte list \<Rightarrow> byte list" where
  "nvm_zero dst = fold (\<lambda>(off, n). write_at off (replicate n 0)) (nvm_zero_from 0 (length dst)) dst"

text \<open>
  A vector as the bytes it occupies, and back; zero bytes are zero coefficients.
\<close>

definition vec_bytes :: "polyvec \<Rightarrow> byte list" where
  "vec_bytes v = concat (map (encode_blocks N 1 le32_bytes) v)"

definition bytes_vec :: "nat \<Rightarrow> byte list \<Rightarrow> polyvec" where
  "bytes_vec n bs = map (\<lambda>i. encode_blocks N 4 le32_int (chunk (i * 1024) 1024 bs)) [0..<n]"

definition wipe_nvm_secrets :: "nvm \<Rightarrow> nvm" where
  "wipe_nvm_secrets s =
     s\<lparr>nv_y := bytes_vec L (nvm_zero (vec_bytes (nv_y s))),
       nv_t0 := bytes_vec K (nvm_zero (vec_bytes (nv_t0 s))),
       nv_w0 := bytes_vec K (nvm_zero (vec_bytes (nv_w0 s)))\<rparr>"

end
