(* ===== verification/Address.thy ===== *)
theory Address
  imports Sign
begin

text \<open>
  Addresses: \<open>address_format.c\<close> (the accepted derivation paths and the text with checksum casing) and \<open>address.c\<close>
  (the address of the key at a path).  An address is 64 bytes; its text is \<open>Q\<close> and 128 hexadecimal digits.
\<close>

abbreviation (input) ADDRESS_SIZE :: nat where "ADDRESS_SIZE \<equiv> 64"

subsection \<open>Derivation paths\<close>

text \<open>\<open>path\<close> is the array \<open>bip32_path\<close>, of which the first \<open>len\<close> entries are set.\<close>

definition is_valid_zond_bip32_path :: "u32 list \<Rightarrow> nat \<Rightarrow> bool" where
  "is_valid_zond_bip32_path path len =
     (if len \<noteq> 5 then False
      else if path ! 0 \<noteq> 0x8000002C \<or> path ! 1 \<noteq> 0x800000EE \<or> path ! 2 AND 0x80000000 = 0
        \<or> path ! 3 AND 0x80000000 \<noteq> 0 \<or> path ! 4 AND 0x80000000 \<noteq> 0 then False
      else True)"

subsection \<open>The text of an address\<close>

definition hexc :: string where
  "hexc = ''0123456789abcdef''"

text \<open>The first loop, which writes the lower-case digits.\<close>

definition hex_body :: "byte list \<Rightarrow> string" where
  "hex_body bytes = concat (map (\<lambda>b. [hexc ! unat (drop_bit 4 b), hexc ! unat (b AND 0x0F)]) bytes)"

text \<open>The body of the second loop: \<open>nibble\<close> of \<open>mask\<close>, and the letter in upper case if it is at least 8.\<close>

definition mask_nibble :: "byte list \<Rightarrow> nat \<Rightarrow> byte" where
  "mask_nibble msk i = (if i mod 2 = 0 then drop_bit 4 (msk ! (i div 2)) else msk ! (i div 2) AND 0x0F)"

definition checksum_char :: "byte list \<Rightarrow> nat \<Rightarrow> char \<Rightarrow> char" where
  "checksum_char msk i c =
     (if of_char c \<ge> (of_char (CHR ''a'') :: nat) \<and> of_char c \<le> (of_char (CHR ''f'') :: nat) \<and> mask_nibble msk i \<ge> 8
      then char_of (of_char c - (of_char (CHR ''a'') - of_char (CHR ''A'') :: nat))
      else c)"

definition format_checksummed_address :: "byte list \<Rightarrow> nat \<Rightarrow> string option" where
  "format_checksummed_address address out_len =
     (if out_len < 1 + 2 * ADDRESS_SIZE + 1 then None
      else
        (let body = hex_body address;
             msk = shake256_of [map of_char body] ADDRESS_SIZE;
             body = map (\<lambda>i. checksum_char msk i (body ! i)) [0..<2 * ADDRESS_SIZE]
         in Some (CHR ''Q'' # body)))"

text \<open>With its pointer arguments, \<open>None\<close> for \<open>NULL\<close>.\<close>

definition format_checksummed_address_ptr :: "byte list option \<Rightarrow> string option \<Rightarrow> nat \<Rightarrow> string option" where
  "format_checksummed_address_ptr address out out_len =
     (case (address, out) of (Some a, Some buf) \<Rightarrow> format_checksummed_address a out_len | _ \<Rightarrow> None)"

subsection \<open>The address of a path\<close>

text \<open>
  \<open>derive\<close> is \<open>os_derive_bip32_no_throw\<close>.  The result is the storage with an error code or the address; \<open>None\<close> if the
  key generation does not return.  \<open>new_mldsa87_from_seed\<close> has no failing branch.
\<close>

definition address_from_bip32_path ::
  "(u32 list \<Rightarrow> u32 + byte list) \<Rightarrow> u32 list \<Rightarrow> nvm \<Rightarrow> (nvm \<times> (u32 + byte list)) option" where
  "address_from_bip32_path derive bip32_path s =
     (case derive bip32_path of
        Inl err \<Rightarrow> Some (s, Inl err)
      | Inr raw_seed \<Rightarrow>
          (case new_mldsa87_from_seed (take 32 raw_seed) s of
             None \<Rightarrow> None
           | Some s \<Rightarrow> Some (s, Inr (shake256_of [[1, 0, 0], nv_pk s] ADDRESS_SIZE))))"

subsection \<open>Accepted paths\<close>

lemma top_bit_32: "x AND 0x80000000 = 0 \<longleftrightarrow> unat x < 2147483648" for x :: u32
proof -
  have "x AND 0x80000000 = 0 \<longleftrightarrow> \<not> bit x 31" using and_exp_eq_0_iff_not_bit [of x 31] by simp
  also have "\<dots> \<longleftrightarrow> drop_bit 31 x = 0" using drop_bit_eq_zero_iff_not_bit_last [of x] by simp
  also have "\<dots> \<longleftrightarrow> drop_bit 31 (unat x) = 0" by (simp only: flip: unat_drop_bit_eq) (simp only: unat_eq_0)
  finally show ?thesis by (simp add: div_eq_0_iff drop_bit_eq_div)
qed

lemma low_half: "p AND 0x80000000 = 0 \<longleftrightarrow> (\<exists>n < 2 ^ 31. p = of_nat n)" for p :: u32
  unfolding top_bit_32 by (auto simp: unat_of_nat intro: exI [of _ "unat p"])

lemma high_half: "p AND 0x80000000 \<noteq> 0 \<longleftrightarrow> (\<exists>n < 2 ^ 31. p = of_nat (2 ^ 31 + n))" for p :: u32
proof -
  have p: "unat p < 4294967296" by (rule less_le_trans [OF unsigned_less]) simp
  show ?thesis unfolding top_bit_32
  proof
    assume "\<not> unat p < 2147483648"
    then have "p = of_nat (2 ^ 31 + (unat p - 2 ^ 31))" by simp
    with p show "\<exists>n < 2 ^ 31. p = of_nat (2 ^ 31 + n)" by (intro exI [of _ "unat p - 2 ^ 31"]) simp
  next
    assume "\<exists>n < 2 ^ 31. p = of_nat (2 ^ 31 + n)"
    then obtain n where n: "n < 2147483648" "p = of_nat (2147483648 + n)" by auto
    have "unat p = (2147483648 + n) mod 4294967296" unfolding n(2) by (simp only: unat_of_nat) simp
    with n(1) show "\<not> unat p < 2147483648" by simp
  qed
qed

text \<open>The path \<open>m/44'/238'/account'/change/index\<close>.\<close>

definition path_of :: "nat \<Rightarrow> nat \<Rightarrow> nat \<Rightarrow> u32 list" where
  "path_of account change index = [0x8000002C, 0x800000EE, of_nat (2 ^ 31 + account), of_nat change, of_nat index]"

text \<open>
  C39.  Only the paths \<open>m/44'/238'/account'/change/index\<close> are accepted: the array holds five entries, of which
  the first three are hardened and the last two are not, with the coin type of QRL.
\<close>

theorem accepted_paths:
  assumes "5 \<le> length path"
  shows "is_valid_zond_bip32_path path len \<longleftrightarrow>
    len = 5 \<and> (\<exists>account change index. account < 2 ^ 31 \<and> change < 2 ^ 31 \<and> index < 2 ^ 31 \<and> take 5 path = path_of account change index)"
proof -
  obtain p0 p1 p2 p3 p4 rest where path: "path = p0 # p1 # p2 # p3 # p4 # rest"
    using assms by (cases path rule: remdups_adj.cases) (auto simp: neq_Nil_conv Suc_le_length_iff numeral_eq_Suc)
  show ?thesis unfolding is_valid_zond_bip32_path_def path path_of_def
    using low_half [of p3] low_half [of p4] high_half [of p2] by auto
qed

theorem accepted_paths_witness:
  "is_valid_zond_bip32_path ([0x8000002C, 0x800000EE, 0x80000000, 0, 7] @ replicate 5 0) 5 \<and>
   (\<exists>account change index. account < 2 ^ 31 \<and> change < 2 ^ 31 \<and> index < 2 ^ 31 \<and>
     take 5 ([0x8000002C, 0x800000EE, 0x80000000, 0, 7] @ replicate 5 0) = path_of account change index)"
proof -
  have "is_valid_zond_bip32_path ([0x8000002C, 0x800000EE, 0x80000000, 0, 7] @ replicate 5 0) 5" by code_simp
  with accepted_paths [of "[0x8000002C, 0x800000EE, 0x80000000, 0, 7] @ replicate 5 0" 5] show ?thesis by simp
qed

subsection \<open>The text determines the address\<close>

definition hex_val :: "char \<Rightarrow> nat" where
  "hex_val c = (let n = of_char c in if n \<le> 57 then n - 48 else if 97 \<le> n then n - 87 else n - 55)"

fun parse_hex :: "string \<Rightarrow> byte list" where
  "parse_hex (a # b # cs) = of_nat (16 * hex_val a + hex_val b) # parse_hex cs"
| "parse_hex _ = []"

lemma hexc_vals:
  "list_all (\<lambda>k. hex_val (hexc ! k) = k \<and> (97 \<le> (of_char (hexc ! k) :: nat) \<longrightarrow> hex_val (char_of (of_char (hexc ! k) - 32 :: nat)) = k)) [0..<16]"
  by code_simp

lemma hex_val_checksum: "k < 16 \<Longrightarrow> hex_val (checksum_char msk i (hexc ! k)) = k"
  using hexc_vals by (auto simp: list_all_iff checksum_char_def)

lemma parse_hex_pairs: "parse_hex (concat (map (\<lambda>j. [f j, g j]) js)) = map (\<lambda>j. of_nat (16 * hex_val (f j) + hex_val (g j))) js"
  by (induction js) simp_all

lemma nibble_digits: "unat (drop_bit 4 b) < 16" "unat (b AND 0x0F) < 16" "of_nat (16 * unat (drop_bit 4 b) + unat (b AND 0x0F)) = b" for b :: byte
proof -
  show "unat (drop_bit 4 b) < 16" "unat (b AND 0x0F) < 16"
    using unat_byte_less [of b] by (simp_all add: unat_nibbles less_mult_imp_div_less)
  have "16 * unat (drop_bit 4 b) + unat (b AND 0x0F) = unat b" by (simp add: unat_nibbles)
  then show "of_nat (16 * unat (drop_bit 4 b) + unat (b AND 0x0F)) = b" by simp
qed

text \<open>The formatted body, digit pair by digit pair.\<close>

lemma length_hex_body: "length (hex_body bs) = 2 * length bs"
  by (induction bs) (simp_all add: hex_body_def)

lemma nth_hex_body:
  "j < length bs \<Longrightarrow> hex_body bs ! (2 * j) = hexc ! unat (drop_bit 4 (bs ! j))"
  "j < length bs \<Longrightarrow> hex_body bs ! Suc (2 * j) = hexc ! unat (bs ! j AND 0x0F)"
proof -
  have "j < length bs \<Longrightarrow> hex_body bs ! (2 * j) = hexc ! unat (drop_bit 4 (bs ! j)) \<and> hex_body bs ! Suc (2 * j) = hexc ! unat (bs ! j AND 0x0F)"
  proof (induction bs arbitrary: j)
    case (Cons b bs)
    then show ?case by (cases j) (simp_all add: hex_body_def)
  qed simp
  then show "j < length bs \<Longrightarrow> hex_body bs ! (2 * j) = hexc ! unat (drop_bit 4 (bs ! j))"
    "j < length bs \<Longrightarrow> hex_body bs ! Suc (2 * j) = hexc ! unat (bs ! j AND 0x0F)" by blast+
qed

lemma map_pairs: "map f [0..<2 * n] = concat (map (\<lambda>j. [f (2 * j), f (Suc (2 * j))]) [0..<n])"
  by (induction n) simp_all

lemma parse_checksummed:
  assumes "length a = 64"
  shows "parse_hex (map (\<lambda>i. checksum_char msk i (hex_body a ! i)) [0..<128]) = a"
proof -
  let ?f = "\<lambda>i. checksum_char msk i (hex_body a ! i)"
  have "parse_hex (map ?f [0..<128]) = map (\<lambda>j. of_nat (16 * hex_val (?f (2 * j)) + hex_val (?f (Suc (2 * j))))) [0..<64]"
    using map_pairs [of ?f 64] by (simp add: parse_hex_pairs)
  also have "\<dots> = map ((!) a) [0..<64]"
  proof (rule map_cong [OF refl])
    fix j assume "j \<in> set [0..<64]"
    then have "hex_val (?f (2 * j)) = unat (drop_bit 4 (a ! j))" "hex_val (?f (Suc (2 * j))) = unat (a ! j AND 0x0F)"
      using assms by (simp_all only: nth_hex_body hex_val_checksum nibble_digits set_upt atLeastLessThan_iff)
    then show "of_nat (16 * hex_val (?f (2 * j)) + hex_val (?f (Suc (2 * j)))) = a ! j" using nibble_digits(3) [of "a ! j"] by simp
  qed
  also have "\<dots> = a" using map_nth [of a] assms by simp
  finally show ?thesis .
qed


text \<open>
  C24.  The text of an address determines it: for a buffer of at least 130 bytes the formatter writes \<open>Q\<close> and
  128 characters which, read as hexadecimal digits of either case, are the 64 bytes of the address; for a
  smaller buffer it fails.  Each letter is in upper case exactly if the nibble of SHAKE256 of the
  lower-case digits at its position is at least 8.
\<close>

theorem address_text_exact:
  assumes "length a = 64"
  shows "case format_checksummed_address a out_len of
      Some s \<Rightarrow> 130 \<le> out_len \<and> length s = 129 \<and> hd s = CHR ''Q'' \<and> parse_hex (tl s) = a
        \<and> tl s = map (\<lambda>i. checksum_char (spec_sponge 136 0x1F (map of_char (hex_body a)) 64) i (hex_body a ! i)) [0..<128]
    | None \<Rightarrow> out_len < 130"
  using parse_checksummed [OF assms]
  by (simp add: format_checksummed_address_def Let_def shake256_of_def sh256.digest_spec)

theorem address_text_exact_witness:
  "case format_checksummed_address (replicate 64 0xAB) 130 of
      Some s \<Rightarrow> length s = 129 \<and> hd s = CHR ''Q'' \<and> parse_hex (tl s) = replicate 64 0xAB
    | None \<Rightarrow> False"
  using address_text_exact [of "replicate 64 0xAB" 130] by (cases "format_checksummed_address (replicate 64 0xAB) 130") auto

end
