(* ===== verification/Rlp.thy ===== *)
theory Rlp
  imports Prelude
begin

text \<open>
  The RLP transaction decoder of \<open>rlp_decode.c\<close>.  Pointers are offsets into the received buffer; every
  read goes through a bounds check whose failure is the outcome \<open>Oob\<close>, so that memory safety is a
  theorem about the model and not an assumption of it.  Lengths are 32-bit \<open>size_t\<close> values with the
  wrap-around of the device.  Results: the decoder never reads outside the buffer; it returns the
  fields of every well-formed transaction (round trip with a reference encoder); what it accepts
  besides is stated as well.
\<close>

subsection \<open>Outcomes\<close>

text \<open>\<open>Reject\<close> is the return value -1; \<open>Oob\<close> would be a read outside the buffer.\<close>

datatype 'a res = Ok 'a | Reject | Oob

fun bind_res :: "'a res \<Rightarrow> ('a \<Rightarrow> 'b res) \<Rightarrow> 'b res" where
  "bind_res (Ok x) f = f x"
| "bind_res Reject f = Reject"
| "bind_res Oob f = Oob"

definition rd :: "byte list \<Rightarrow> nat \<Rightarrow> byte res" where
  "rd buf i = (if i < length buf then Ok (buf ! i) else Oob)"

definition rd_slice :: "byte list \<Rightarrow> nat \<Rightarrow> nat \<Rightarrow> byte list res" where
  "rd_slice buf i n = (if i + n \<le> length buf then Ok (chunk i n buf) else Oob)"

definition reject_if :: "bool \<Rightarrow> 'a res \<Rightarrow> 'a res" where
  "reject_if c k = (if c then Reject else k)"

subsection \<open>The item parser\<close>

text \<open>The loop \<open>len = (len << 8) | input[1 + i]\<close> in a \<open>size_t\<close>.\<close>

definition accum_len :: "byte list \<Rightarrow> size_t" where
  "accum_len bs = foldl (\<lambda>len b. push_bit 8 len OR ucast b) 0 bs"

text \<open>
  \<open>parse_rlp_item buf p input_len\<close> returns the offset of the data, its length and the number of
  consumed bytes as the \<open>int\<close> the C function returns.  The branches for a long string and a long
  list are the same code, \<open>parse_long\<close>.
\<close>

definition parse_long :: "byte list \<Rightarrow> nat \<Rightarrow> size_t \<Rightarrow> size_t \<Rightarrow> (nat \<times> size_t \<times> int) res" where
  "parse_long buf p input_len len_of_len =
     (if len_of_len > input_len - 1 then Reject
      else bind_res (rd buf (p + 1)) (\<lambda>b1.
        if b1 = 0 then Reject
        else bind_res (rd_slice buf (p + 1) (unat len_of_len)) (\<lambda>bs.
          let len = accum_len bs
          in if len > input_len - 1 - len_of_len then Reject
             else if len < 56 then Reject
             else Ok (p + 1 + unat len_of_len, len, sint (1 + len_of_len + len)))))"

definition parse_short_string :: "byte list \<Rightarrow> nat \<Rightarrow> size_t \<Rightarrow> size_t \<Rightarrow> (nat \<times> size_t \<times> int) res" where
  "parse_short_string buf p input_len len =
     (if len > input_len - 1 then Reject
      else bind_res (if len = 1 then rd buf (p + 1) else Ok 0x80) (\<lambda>b1.
        if len = 1 \<and> b1 < 0x80 then Reject else Ok (p + 1, len, sint (1 + len))))"

definition parse_short_list :: "nat \<Rightarrow> size_t \<Rightarrow> size_t \<Rightarrow> (nat \<times> size_t \<times> int) res" where
  "parse_short_list p input_len len =
     (if 1 + len > input_len then Reject else Ok (p + 1, len, sint (1 + len)))"

definition parse_rlp_item :: "byte list \<Rightarrow> nat \<Rightarrow> size_t \<Rightarrow> (nat \<times> size_t \<times> int) res" where
  "parse_rlp_item buf p input_len =
     (if input_len = 0 then Reject
      else bind_res (rd buf p) (\<lambda>prefix.
        if prefix \<le> 0x7f then Ok (p, 1, 1)
        else if prefix \<le> 0xb7 then parse_short_string buf p input_len (ucast prefix - 0x80)
        else if prefix \<le> 0xbf then parse_long buf p input_len (ucast prefix - 0xb7)
        else if prefix \<le> 0xf7 then parse_short_list p input_len (ucast prefix - 0xc0)
        else parse_long buf p input_len (ucast prefix - 0xf7)))"

subsection \<open>The list header\<close>

text \<open>Returns the payload length and the header length.\<close>

definition parse_rlp_list_header :: "byte list \<Rightarrow> nat \<Rightarrow> size_t \<Rightarrow> (size_t \<times> size_t) res" where
  "parse_rlp_list_header buf p input_len =
     (if input_len = 0 then Reject
      else bind_res (rd buf p) (\<lambda>prefix.
        if 0xc0 \<le> prefix \<and> prefix \<le> 0xf7 then
          (let payload_len = ucast prefix - 0xc0
           in if payload_len > input_len - 1 then Reject else Ok (payload_len, 1))
        else if 0xf8 \<le> prefix then
          (let len_of_len = ucast prefix - 0xf7
           in if len_of_len > input_len - 1 then Reject
              else bind_res (rd buf (p + 1)) (\<lambda>b1.
                if b1 = 0 then Reject
                else bind_res (rd_slice buf (p + 1) (unat len_of_len)) (\<lambda>bs.
                  let len = accum_len bs; header_len = 1 + len_of_len
                  in if len > input_len - header_len then Reject
                     else if len < 56 then Reject
                     else Ok (len, header_len))))
        else Reject))"

subsection \<open>The transaction decoder\<close>

record zond_tx =
  chain_id :: "byte list"      chain_id_len :: byte
  nonce :: "byte list"         nonce_len :: byte
  gas_tip_cap :: "byte list"   gas_tip_cap_len :: byte
  gas_fee_cap :: "byte list"   gas_fee_cap_len :: byte
  gas :: "byte list"           gas_len :: byte
  to_addr :: "byte list"
  tx_value :: "byte list"      value_len :: byte
  has_data :: bool
  has_access_list :: bool
  descriptor :: "byte list"    descriptor_len :: byte

abbreviation (input) ADDRESS_LENGTH :: nat where "ADDRESS_LENGTH \<equiv> 64"
abbreviation (input) MAX_FIELD_SIZE :: nat where "MAX_FIELD_SIZE \<equiv> 32"

text \<open>The contents of a cleared structure.\<close>

definition tx_zero :: zond_tx where
  "tx_zero = \<lparr>
     chain_id = replicate MAX_FIELD_SIZE 0, chain_id_len = 0,
     nonce = replicate 8 0, nonce_len = 0,
     gas_tip_cap = replicate MAX_FIELD_SIZE 0, gas_tip_cap_len = 0,
     gas_fee_cap = replicate MAX_FIELD_SIZE 0, gas_fee_cap_len = 0,
     gas = replicate 8 0, gas_len = 0,
     to_addr = replicate ADDRESS_LENGTH 0,
     tx_value = replicate MAX_FIELD_SIZE 0, value_len = 0,
     has_data = False, has_access_list = False,
     descriptor = replicate 3 0, descriptor_len = 0\<rparr>"

text \<open>\<open>memcpy\<close> of \<open>new\<close> to the start of an array.\<close>

definition overlay :: "'a list \<Rightarrow> 'a list \<Rightarrow> 'a list" where
  "overlay new old = new @ drop (length new) old"

text \<open>
  The decoder stores into \<open>*tx\<close> as it goes, so a refused input leaves the fields read before the
  error; the outcome of a step therefore carries the transaction in both cases.
\<close>

datatype dec = Go zond_tx nat size_t | Fail zond_tx | Bad

fun bind_dec :: "dec \<Rightarrow> (zond_tx \<Rightarrow> nat \<Rightarrow> size_t \<Rightarrow> dec) \<Rightarrow> dec" where
  "bind_dec (Go tx p remaining) f = f tx p remaining"
| "bind_dec (Fail tx) f = Fail tx"
| "bind_dec Bad f = Bad"

fun of_res :: "zond_tx \<Rightarrow> 'a res \<Rightarrow> ('a \<Rightarrow> dec) \<Rightarrow> dec" where
  "of_res tx (Ok x) f = f x"
| "of_res tx Reject f = Fail tx"
| "of_res tx Oob f = Bad"

text \<open>
  The fields 1 to 5 and 7: \<open>consumed < 0 || val_len > max_len || (val_len > 0 && val_ptr[0] == 0)\<close> is an
  error, otherwise the value is copied.
\<close>

definition number_field :: "byte list \<Rightarrow> nat \<Rightarrow> zond_tx \<Rightarrow> nat \<Rightarrow> size_t \<Rightarrow> (byte list \<Rightarrow> zond_tx) \<Rightarrow> dec" where
  "number_field buf max_len tx p remaining store =
     of_res tx
       (bind_res (parse_rlp_item buf p remaining) (\<lambda>(val_ptr, val_len, consumed).
          if consumed < 0 \<or> unat val_len > max_len then Reject
          else bind_res (if val_len > 0 then rd buf val_ptr else Ok 1) (\<lambda>b0.
            if val_len > 0 \<and> b0 = 0 then Reject
            else bind_res (rd_slice buf val_ptr (unat val_len)) (\<lambda>val. Ok (val, consumed)))))
       (\<lambda>(val, consumed). Go (store val) (p + nat consumed) (remaining - word_of_int consumed))"

text \<open>Field 6, the recipient: 64 bytes or none.\<close>

definition to_field :: "byte list \<Rightarrow> zond_tx \<Rightarrow> nat \<Rightarrow> size_t \<Rightarrow> dec" where
  "to_field buf tx p remaining =
     of_res tx
       (bind_res (parse_rlp_item buf p remaining) (\<lambda>(val_ptr, val_len, consumed).
          if consumed < 0 \<or> (unat val_len \<noteq> ADDRESS_LENGTH \<and> val_len \<noteq> 0) then Reject
          else bind_res (rd_slice buf val_ptr (unat val_len)) (\<lambda>val. Ok (val, consumed))))
       (\<lambda>(val, consumed).
          Go (tx\<lparr>to_addr := overlay val (replicate ADDRESS_LENGTH 0)\<rparr>)
             (p + nat consumed) (remaining - word_of_int consumed))"

text \<open>Fields 8 and 9: only whether they are empty is kept.\<close>

definition data_field :: "byte list \<Rightarrow> zond_tx \<Rightarrow> nat \<Rightarrow> size_t \<Rightarrow> dec" where
  "data_field buf tx p remaining =
     of_res tx
       (if remaining = 0 then Reject
        else bind_res (rd buf p) (\<lambda>b. if b \<ge> 0xc0 then Reject
          else bind_res (parse_rlp_item buf p remaining) (\<lambda>(val_ptr, val_len, consumed).
            if consumed < 0 then Reject else Ok (val_len, consumed))))
       (\<lambda>(val_len, consumed).
          Go (tx\<lparr>has_data := (val_len \<noteq> 0)\<rparr>) (p + nat consumed) (remaining - word_of_int consumed))"

definition access_list_field :: "byte list \<Rightarrow> zond_tx \<Rightarrow> nat \<Rightarrow> size_t \<Rightarrow> dec" where
  "access_list_field buf tx p remaining =
     of_res tx
       (if remaining = 0 then Reject
        else bind_res (rd buf p) (\<lambda>b. if b < 0xc0 then Reject
          else bind_res (parse_rlp_item buf p remaining) (\<lambda>(val_ptr, val_len, consumed).
            if consumed < 0 then Reject else Ok (val_len, consumed))))
       (\<lambda>(val_len, consumed).
          Go (tx\<lparr>has_access_list := (val_len \<noteq> 0)\<rparr>) (p + nat consumed) (remaining - word_of_int consumed))"

text \<open>Field 10: exactly the bytes 01 00 00.\<close>

definition descriptor_field :: "byte list \<Rightarrow> zond_tx \<Rightarrow> nat \<Rightarrow> size_t \<Rightarrow> dec" where
  "descriptor_field buf tx p remaining =
     of_res tx
       (bind_res (parse_rlp_item buf p remaining) (\<lambda>(val_ptr, val_len, consumed).
          if consumed < 0 \<or> val_len \<noteq> 3 then Reject
          else bind_res (rd_slice buf val_ptr 3) (\<lambda>val.
            if val ! 0 \<noteq> 0x01 \<or> val ! 1 \<noteq> 0 \<or> val ! 2 \<noteq> 0 then Reject else Ok (val, consumed))))
       (\<lambda>(val, consumed).
          Go (tx\<lparr>descriptor := overlay val (descriptor tx), descriptor_len := 3\<rparr>)
             (p + nat consumed) (remaining - word_of_int consumed))"

text \<open>Field 11: empty.\<close>

definition extra_params_field :: "byte list \<Rightarrow> zond_tx \<Rightarrow> nat \<Rightarrow> size_t \<Rightarrow> dec" where
  "extra_params_field buf tx p remaining =
     of_res tx
       (bind_res (parse_rlp_item buf p remaining) (\<lambda>(val_ptr, val_len, consumed).
          if consumed < 0 \<or> val_len \<noteq> 0 then Reject else Ok consumed))
       (\<lambda>consumed. Go tx (p + nat consumed) remaining)"

text \<open>The eleven fields of the payload.\<close>

definition tx_fields :: "byte list \<Rightarrow> zond_tx \<Rightarrow> nat \<Rightarrow> size_t \<Rightarrow> dec" where
  "tx_fields buf tx p remaining =
     bind_dec (number_field buf MAX_FIELD_SIZE tx p remaining
       (\<lambda>v. tx\<lparr>chain_id := overlay v (chain_id tx), chain_id_len := of_nat (length v)\<rparr>)) (\<lambda>tx p remaining.
     bind_dec (number_field buf 8 tx p remaining
       (\<lambda>v. tx\<lparr>nonce := overlay v (nonce tx), nonce_len := of_nat (length v)\<rparr>)) (\<lambda>tx p remaining.
     bind_dec (number_field buf MAX_FIELD_SIZE tx p remaining
       (\<lambda>v. tx\<lparr>gas_tip_cap := overlay v (gas_tip_cap tx), gas_tip_cap_len := of_nat (length v)\<rparr>)) (\<lambda>tx p remaining.
     bind_dec (number_field buf MAX_FIELD_SIZE tx p remaining
       (\<lambda>v. tx\<lparr>gas_fee_cap := overlay v (gas_fee_cap tx), gas_fee_cap_len := of_nat (length v)\<rparr>)) (\<lambda>tx p remaining.
     bind_dec (number_field buf 8 tx p remaining
       (\<lambda>v. tx\<lparr>gas := overlay v (gas tx), gas_len := of_nat (length v)\<rparr>)) (\<lambda>tx p remaining.
     bind_dec (to_field buf tx p remaining) (\<lambda>tx p remaining.
     bind_dec (number_field buf MAX_FIELD_SIZE tx p remaining
       (\<lambda>v. tx\<lparr>tx_value := overlay v (replicate MAX_FIELD_SIZE 0), value_len := of_nat (length v)\<rparr>)) (\<lambda>tx p remaining.
     bind_dec (data_field buf tx p remaining) (\<lambda>tx p remaining.
     bind_dec (access_list_field buf tx p remaining) (\<lambda>tx p remaining.
     bind_dec (descriptor_field buf tx p remaining) (\<lambda>tx p remaining.
     extra_params_field buf tx p remaining))))))))))"

text \<open>
  The whole function: \<open>rlp\<close> holds exactly the \<open>rlp_len\<close> bytes of the call, and \<open>tx\<close> the old contents
  of \<open>*tx\<close>.  \<open>Go tx' _ _\<close> is the return value 0, \<open>Fail tx'\<close> is -1.
\<close>

definition decode_ledger_tx :: "byte list \<Rightarrow> zond_tx \<Rightarrow> dec" where
  "decode_ledger_tx rlp tx =
     (let rlp_len = of_nat (length rlp) :: size_t
      in if rlp_len = 0 then Fail tx
         else of_res tx (rd rlp 0) (\<lambda>b.
           if b \<noteq> 0x02 then Fail tx
           else of_res tx (parse_rlp_list_header rlp 1 (rlp_len - 1)) (\<lambda>(list_payload_len, list_header_len).
             let p = 1 + unat list_header_len;
                 payload_end = p + unat list_payload_len;
                 remaining = rlp_len - 1 - list_header_len
             in if list_payload_len > remaining then Fail tx
                else bind_dec (tx_fields rlp tx p remaining) (\<lambda>tx p remaining.
                  if p \<noteq> payload_end then Fail tx else Go tx p remaining))))"

text \<open>
  \<open>decode_ledger_tx\<close> with its pointer arguments, \<open>None\<close> for \<open>NULL\<close>: the returned code and the new contents of \<open>*tx\<close>, or \<open>None\<close>
  for a read outside the input.
\<close>

definition decode_ledger_tx_ptr :: "byte list option \<Rightarrow> zond_tx option \<Rightarrow> (int \<times> zond_tx option) option" where
  "decode_ledger_tx_ptr rlp tx =
     (case (rlp, tx) of
        (Some bytes, Some old) \<Rightarrow>
          (case decode_ledger_tx bytes old of Go new p n \<Rightarrow> Some (0, Some new) | Fail new \<Rightarrow> Some (- 1, Some new) | Bad \<Rightarrow> None)
      | _ \<Rightarrow> Some (- 1, tx))"

subsection \<open>Lengths as numbers\<close>

lemma unat_ucast_byte: "unat (ucast b :: size_t) = unat b" for b :: byte
  by (simp add: unsigned_ucast_eq take_bit_nat_eq_self less_trans [OF unat_byte_less])

lemma ucast_byte: "(ucast b :: size_t) = of_nat (unat b)" for b :: byte
  by (simp flip: unat_ucast_byte)

lemma unat_ucast_sub:
  assumes "k \<le> unat (b :: byte)"
  shows "unat (ucast b - of_nat k :: size_t) = unat b - k"
proof -
  have "unat (of_nat k :: size_t) = k" using assms unat_byte_less [of b] by (simp add: unat_of_nat take_bit_nat_eq_self)
  moreover have "unat (ucast b :: size_t) = unat b" by (simp add: unsigned_ucast_eq take_bit_nat_eq_self unat_byte_less less_trans [OF unat_byte_less])
  moreover from calculation have "(of_nat k :: size_t) \<le> ucast b" using assms by (simp add: word_le_nat_alt)
  ultimately show ?thesis by (simp add: unat_sub)
qed

lemmas ucast_subs =
  unat_ucast_sub [of 128, simplified] unat_ucast_sub [of 183, simplified]
  unat_ucast_sub [of 192, simplified] unat_ucast_sub [of 247, simplified]

lemma unat_le_byte: "(b \<le> numeral k) = (unat (b :: byte) \<le> unat (numeral k :: byte))"
  by (simp add: word_le_nat_alt)

lemma sint_of_small:
  assumes "unat (x :: size_t) < 2147483648"
  shows "sint x = int (unat x)"
proof -
  have u: "uint x = int (unat x)" by simp
  have "int (unat x) < 2147483648" using assms by linarith
  then have "uint x < 2147483648" by (simp only: u)
  moreover have "- 2147483648 \<le> uint x" using uint_ge_0 [of x] by linarith
  ultimately have "signed_take_bit 31 (uint x) = uint x"
    by (intro signed_take_bit_int_eq_self) simp_all
  then show ?thesis by (simp add: sint_uint)
qed

lemma unat_add_small:
  "unat (x :: size_t) + unat y < 4294967296 \<Longrightarrow> unat (x + y) = unat x + unat y"
  by (simp add: unat_word_ariths take_bit_nat_eq_self)

lemma unat_sub_small: "unat (y :: size_t) \<le> unat x \<Longrightarrow> unat (x - y) = unat x - unat y"
  by (simp add: unat_sub word_le_nat_alt)

text \<open>
  The parser over numbers instead of words: the same decisions when the buffer has fewer than \<open>2^31\<close>
  bytes, except that the accumulated length is still the wrapped one.  The number of consumed bytes
  is a natural number here.
\<close>

fun int_res :: "('a \<times> 'b \<times> nat) res \<Rightarrow> ('a \<times> 'b \<times> int) res" where
  "int_res (Ok (d, l, k)) = Ok (d, l, int k)"
| "int_res Reject = Reject"
| "int_res Oob = Oob"

lemma int_res_bind: "int_res (bind_res r f) = bind_res r (\<lambda>x. int_res (f x))"
  by (cases r) simp_all

lemma int_res_Ok: "int_res r = Ok (d, l, c) \<longleftrightarrow> (\<exists>k. r = Ok (d, l, k) \<and> c = int k)"
  by (cases r rule: int_res.cases) auto

lemma int_res_Oob [simp]: "int_res r = Oob \<longleftrightarrow> r = Oob"
  by (cases r rule: int_res.cases) auto

definition item_long :: "byte list \<Rightarrow> nat \<Rightarrow> nat \<Rightarrow> nat \<Rightarrow> (nat \<times> size_t \<times> nat) res" where
  "item_long buf p m ll =
     (if ll > m - 1 then Reject
      else bind_res (rd buf (p + 1)) (\<lambda>b1. if b1 = 0 then Reject
        else bind_res (rd_slice buf (p + 1) ll) (\<lambda>bs.
          if unat (accum_len bs) > m - 1 - ll \<or> unat (accum_len bs) < 56 then Reject
          else Ok (p + 1 + ll, accum_len bs, 1 + ll + unat (accum_len bs)))))"

definition item_short :: "byte list \<Rightarrow> nat \<Rightarrow> nat \<Rightarrow> nat \<Rightarrow> (nat \<times> size_t \<times> nat) res" where
  "item_short buf p m len =
     (if len > m - 1 then Reject
      else bind_res (if len = 1 then rd buf (p + 1) else Ok 0x80) (\<lambda>b1.
        if len = 1 \<and> unat b1 < 128 then Reject else Ok (p + 1, of_nat len, 1 + len)))"

definition item_nat :: "byte list \<Rightarrow> nat \<Rightarrow> nat \<Rightarrow> (nat \<times> size_t \<times> nat) res" where
  "item_nat buf p m =
     (if m = 0 then Reject
      else bind_res (rd buf p) (\<lambda>prefix.
        if unat prefix < 128 then Ok (p, 1, 1)
        else if unat prefix \<le> 183 then item_short buf p m (unat prefix - 128)
        else if unat prefix \<le> 191 then item_long buf p m (unat prefix - 183)
        else if unat prefix \<le> 247 then
          (if unat prefix - 192 > m - 1 then Reject
           else Ok (p + 1, of_nat (unat prefix - 192), 1 + (unat prefix - 192)))
        else item_long buf p m (unat prefix - 247)))"

lemma unat_n1: "n \<noteq> 0 \<Longrightarrow> unat (n - 1) = unat n - 1" for n :: size_t
  by (simp add: unat_minus_one)

lemma parse_long_nat:
  assumes n: "unat n < 2147483648" "n \<noteq> 0" and ll: "unat ll \<le> 8"
  shows "parse_long buf p n ll = int_res (item_long buf p (unat n) (unat ll))"
proof (cases "ll > n - 1")
  case True
  then show ?thesis using unat_n1 [OF n(2)] by (simp add: item_long_def parse_long_def word_less_nat_alt)
next
  case False
  then have l: "unat ll \<le> unat n - 1" using unat_n1 [OF n(2)] by (simp add: word_less_nat_alt)
  have n2: "unat (n - 1 - ll) = unat n - 1 - unat ll" using l unat_n1 [OF n(2)] by (simp add: unat_sub_small)
  have s: "sint (1 + ll + len) = int (1 + unat ll + unat len)" if "\<not> n - 1 - ll < len" for len
  proof -
    have le: "unat len \<le> unat n - 1 - unat ll" using that n2 by (simp add: word_less_nat_alt)
    have "unat (1 + ll) = 1 + unat ll" using ll by (simp add: unat_add_small)
    then have "unat (1 + ll + len) = 1 + unat ll + unat len"
      using le n l by (simp add: unat_add_small)
    then show ?thesis using le n l by (simp add: sint_of_small)
  qed
  have c: "(n - 1 - ll < len \<or> len < 56) = (unat n - 1 - unat ll < unat len \<or> unat len < 56)" for len
    by (simp add: word_less_nat_alt n2)
  have "(if n - 1 - ll < len then Reject else if len < 56 then Reject
         else Ok (p + 1 + unat ll, len, sint (1 + ll + len)))
      = int_res (if unat n - 1 - unat ll < unat len \<or> unat len < 56 then Reject
         else Ok (p + 1 + unat ll, len, 1 + unat ll + unat len))" for len
    using c [of len] s [of len]
    by (cases "n - 1 - ll < len"; cases "len < 56") (simp_all only: if_True if_False simp_thms int_res.simps)
  moreover have "\<not> unat n - 1 < unat ll" using l by simp
  ultimately show ?thesis
    using False
    by (simp only: parse_long_def item_long_def Let_def if_False int_res_bind if_distrib [of int_res] int_res.simps)
qed

lemma sint_Suc: "unat x < 100 \<Longrightarrow> sint (1 + x) = int (1 + unat x)" for x :: size_t
  by (simp add: sint_of_small unat_add_small)

lemma parse_short_nat:
  assumes "n \<noteq> 0" "unat len < 100"
  shows "parse_short_string buf p n len = int_res (item_short buf p (unat n) (unat len))"
proof -
  have "(len = 1) = (unat len = 1)" by (metis unat_1 word_unat_eq_iff)
  then show ?thesis
    by (simp add: parse_short_string_def item_short_def word_less_nat_alt unat_n1 [OF assms(1)] sint_Suc [OF assms(2)] int_res_bind
        if_distrib [of int_res] cong: if_cong)
qed

lemma parse_short_list_nat:
  assumes "n \<noteq> 0" "unat len < 100"
  shows "parse_short_list p n len =
    int_res (if unat len > unat n - 1 then Reject else Ok (p + 1, of_nat (unat len), 1 + unat len))"
proof -
  have "0 < unat n" using assms(1) by (simp add: unat_gt_0)
  then have "(1 + len > n) = (unat len > unat n - 1)"
    using assms(2) by (simp add: word_less_nat_alt unat_add_small) linarith
  then show ?thesis by (simp add: parse_short_list_def sint_Suc [OF assms(2)])
qed

lemma parse_rlp_item_pos:
  assumes n: "unat n < 2147483648" "n \<noteq> 0"
  shows "parse_rlp_item buf p n = int_res (item_nat buf p (unat n))"
proof (cases "rd buf p")
  case (Ok b)
  have n0: "unat n \<noteq> 0" using n(2) by (simp add: unat_eq_zero)
  consider (single) "unat b < 128" | (short) "128 \<le> unat b" "unat b \<le> 183"
    | (long) "183 < unat b" "unat b \<le> 191"
    | (list) "191 < unat b" "unat b \<le> 247" | (longlist) "247 < unat b" by linarith
  then show ?thesis
  proof cases
    case single
    with Ok n n0 show ?thesis by (simp add: parse_rlp_item_def item_nat_def word_le_nat_alt)
  next
    case short
    with Ok n n0 parse_short_nat [OF n(2), of "ucast b - 0x80" buf p] ucast_subs(1) [of b] show ?thesis
      by (simp add: parse_rlp_item_def item_nat_def word_le_nat_alt)
  next
    case long
    with Ok n n0 parse_long_nat [OF n, of "ucast b - 0xb7" buf p] ucast_subs(2) [of b] show ?thesis
      by (simp add: parse_rlp_item_def item_nat_def word_le_nat_alt)
  next
    case list
    with Ok n n0 parse_short_list_nat [OF n(2), of "ucast b - 0xc0" p] ucast_subs(3) [of b] show ?thesis
      by (simp add: parse_rlp_item_def item_nat_def word_le_nat_alt)
  next
    case longlist
    with Ok n n0 parse_long_nat [OF n, of "ucast b - 0xf7" buf p] ucast_subs(4) [of b] unat_byte_less [of b] show ?thesis
      by (simp add: parse_rlp_item_def item_nat_def word_le_nat_alt)
  qed
qed (use n in \<open>simp_all add: parse_rlp_item_def item_nat_def unat_eq_zero\<close>)

lemma parse_rlp_item_nat:
  "unat n < 2147483648 \<Longrightarrow> parse_rlp_item buf p n = int_res (item_nat buf p (unat n))"
  by (cases "n = 0") (simp_all add: parse_rlp_item_pos, simp add: parse_rlp_item_def item_nat_def)

subsection \<open>Memory safety\<close>

lemma item_long_safe:
  assumes "p + m \<le> length buf" "m \<noteq> 0" "1 \<le> ll"
  shows "item_long buf p m ll \<noteq> Oob"
    "item_long buf p m ll = Ok (d, l, k) \<Longrightarrow> p \<le> d \<and> p + k = d + unat l \<and> k \<le> m \<and> 0 < k"
proof -
  show "item_long buf p m ll \<noteq> Oob"
    using assms by (auto simp: item_long_def rd_def rd_slice_def)
  show "item_long buf p m ll = Ok (d, l, k) \<Longrightarrow> p \<le> d \<and> p + k = d + unat l \<and> k \<le> m \<and> 0 < k"
    using assms by (auto simp: item_long_def rd_def rd_slice_def split: if_splits)
qed

lemma item_short_safe:
  assumes "p + m \<le> length buf" "m \<noteq> 0" "len < 256"
  shows "item_short buf p m len \<noteq> Oob"
    "item_short buf p m len = Ok (d, l, k) \<Longrightarrow> p \<le> d \<and> p + k = d + unat l \<and> k \<le> m \<and> 0 < k"
proof -
  have u: "unat (of_nat len :: size_t) = len" using assms(3) by (simp add: unat_of_nat take_bit_nat_eq_self)
  show "item_short buf p m len \<noteq> Oob"
    using assms by (auto simp: item_short_def rd_def)
  show "item_short buf p m len = Ok (d, l, k) \<Longrightarrow> p \<le> d \<and> p + k = d + unat l \<and> k \<le> m \<and> 0 < k"
    using assms u by (auto simp: item_short_def rd_def split: if_splits)
qed

lemma item_nat_safe:
  assumes "p + m \<le> length buf"
  shows "item_nat buf p m \<noteq> Oob"
    "item_nat buf p m = Ok (d, l, k) \<Longrightarrow> p \<le> d \<and> p + k = d + unat l \<and> k \<le> m \<and> 0 < k"
proof -
  have b: "unat b - 128 < 256" "unat (of_nat (unat b - 192) :: size_t) = unat b - 192" for b :: byte
    using unat_byte_less [of b] by (simp_all add: unat_of_nat take_bit_nat_eq_self del: of_nat_diff)
  show "item_nat buf p m \<noteq> Oob"
    using assms item_long_safe(1) [OF assms] item_short_safe(1) [OF assms _ b(1)]
    by (auto simp: item_nat_def rd_def)
  show "item_nat buf p m = Ok (d, l, k) \<Longrightarrow> p \<le> d \<and> p + k = d + unat l \<and> k \<le> m \<and> 0 < k"
    using assms item_long_safe(2) [OF assms, of "unat (buf ! p) - 183" d l k]
      item_long_safe(2) [OF assms, of "unat (buf ! p) - 247" d l k]
      item_short_safe(2) [OF assms _ b(1), of "buf ! p" d l k] b(2)
    by (auto simp: item_nat_def rd_def split: if_splits simp del: of_nat_diff)
qed

text \<open>The position of the decoder is inside the buffer: the rest has the length the code keeps.\<close>

definition at_pos :: "byte list \<Rightarrow> nat \<Rightarrow> size_t \<Rightarrow> bool" where
  "at_pos buf p remaining \<longleftrightarrow> p + unat remaining = length buf \<and> length buf < 2147483648"

lemma at_pos_step:
  assumes "at_pos buf p n" "k \<le> unat n"
  shows "at_pos buf (p + k) (n - of_nat k)"
proof -
  have "unat (of_nat k :: size_t) = k"
    using assms unfolding at_pos_def by (simp add: unat_of_nat take_bit_nat_eq_self)
  with assms show ?thesis by (simp add: at_pos_def unat_sub_small)
qed

lemma parse_cases:
  assumes "at_pos buf p n"
  obtains "parse_rlp_item buf p n = Reject"
  | d l k where "parse_rlp_item buf p n = Ok (d, l, int k)" "p \<le> d" "0 < k" "p + k = d + unat l"
      "d + unat l \<le> length buf" "at_pos buf (p + k) (n - of_nat k)" "item_nat buf p (unat n) = Ok (d, l, k)"
proof -
  have n: "unat n < 2147483648" "p + unat n \<le> length buf" using assms by (simp_all add: at_pos_def)
  note eq = parse_rlp_item_nat [OF n(1), of buf p]
  show thesis
  proof (cases "item_nat buf p (unat n)")
    case (Ok r)
    obtain d l k where r: "r = (d, l, k)" by (cases r)
    note s = item_nat_safe(2) [OF n(2) Ok [unfolded r]]
    show thesis
      using that(2) [of d l k] Ok r s eq at_pos_step [OF assms, of k] n(2) by simp
  next
    case Reject
    with eq that(1) show thesis by simp
  next
    case Oob
    with item_nat_safe(1) [OF n(2)] show thesis by simp
  qed
qed

text \<open>A step of the decoder keeps the position inside the buffer and never reads outside it.\<close>

definition dec_safe :: "byte list \<Rightarrow> dec \<Rightarrow> bool" where
  "dec_safe buf d = (case d of Go tx p remaining \<Rightarrow> at_pos buf p remaining | Fail tx \<Rightarrow> True | Bad \<Rightarrow> False)"

lemma bind_dec_safe:
  "dec_safe buf d \<Longrightarrow> (\<And>tx p n. at_pos buf p n \<Longrightarrow> dec_safe buf (f tx p n)) \<Longrightarrow> dec_safe buf (bind_dec d f)"
  by (cases d) (simp_all add: dec_safe_def)

lemma rd_inside: "i + n \<le> length buf \<Longrightarrow> 0 < n \<Longrightarrow> rd buf i = Ok (buf ! i)"
  by (simp add: rd_def)

lemma rd_slice_inside: "i + n \<le> length buf \<Longrightarrow> rd_slice buf i n = Ok (chunk i n buf)"
  by (simp add: rd_slice_def)

lemma at_pos_rd: "at_pos buf p n \<Longrightarrow> n \<noteq> 0 \<Longrightarrow> rd buf p = Ok (buf ! p)"
  using rd_inside [of p "unat n" buf] by (simp add: at_pos_def unat_gt_0)

lemma number_field_safe: "at_pos buf p n \<Longrightarrow> dec_safe buf (number_field buf max_len tx p n store)"
  by (erule parse_cases)
    (auto simp: number_field_def dec_safe_def rd_slice_inside rd_inside word_neq_0_conv [symmetric] unat_gt_0)

lemma to_field_safe: "at_pos buf p n \<Longrightarrow> dec_safe buf (to_field buf tx p n)"
  by (erule parse_cases) (simp_all add: to_field_def dec_safe_def rd_slice_inside)

lemma data_field_safe:
  assumes "at_pos buf p n"
  shows "dec_safe buf (data_field buf tx p n)"
proof (cases "n = 0")
  case False
  from assms show ?thesis
    by (rule parse_cases) (simp_all add: data_field_def dec_safe_def at_pos_rd [OF assms False])
qed (simp add: data_field_def dec_safe_def)

lemma access_list_field_safe:
  assumes "at_pos buf p n"
  shows "dec_safe buf (access_list_field buf tx p n)"
proof (cases "n = 0")
  case False
  from assms show ?thesis
    by (rule parse_cases) (simp_all add: access_list_field_def dec_safe_def at_pos_rd [OF assms False])
qed (simp add: access_list_field_def dec_safe_def)

lemma descriptor_field_safe: "at_pos buf p n \<Longrightarrow> dec_safe buf (descriptor_field buf tx p n)"
  by (erule parse_cases) (auto simp: descriptor_field_def dec_safe_def rd_slice_def)

lemma bind_dec_inside:
  "dec_safe buf d \<Longrightarrow> (\<And>tx p n. at_pos buf p n \<Longrightarrow> f tx p n \<noteq> Bad) \<Longrightarrow> bind_dec d f \<noteq> Bad"
  by (cases d) (simp_all add: dec_safe_def)

lemma tx_fields_inside:
  assumes "at_pos buf p n"
  shows "tx_fields buf tx p n \<noteq> Bad"
proof -
  have "extra_params_field buf tx p n \<noteq> Bad" if "at_pos buf p n" for tx p n
    using that by (rule parse_cases) (simp_all add: extra_params_field_def)
  then show ?thesis
    unfolding tx_fields_def using assms
    by (intro bind_dec_inside [where buf = buf] number_field_safe to_field_safe data_field_safe access_list_field_safe descriptor_field_safe)
qed

lemma list_header_cases:
  assumes "at_pos buf p n"
  obtains "parse_rlp_list_header buf p n = Reject"
  | pl hl where "parse_rlp_list_header buf p n = Ok (pl, hl)" "1 \<le> unat hl" "unat hl + unat pl \<le> unat n"
proof (cases "n = 0")
  case True
  then show thesis using that(1) by (simp add: parse_rlp_list_header_def)
next
  case False
  have n1: "unat (n - 1) = unat n - 1" by (rule unat_n1 [OF False])
  have n0: "0 < unat n" using False by (simp add: unat_gt_0)
  have rd: "rd buf p = Ok (buf ! p)" by (rule at_pos_rd [OF assms False])
  let ?b = "buf ! p"
  consider (short) "192 \<le> unat ?b" "unat ?b \<le> 247" | (long) "248 \<le> unat ?b" | (none) "unat ?b < 192" by linarith
  then show thesis
  proof cases
    case short
    have u: "unat (ucast ?b - 0xc0 :: size_t) = unat ?b - 192" using short by (intro ucast_subs) simp
    show thesis
      using that short u n1 n0 False rd
      by (cases "ucast ?b - 0xc0 > n - 1") (simp_all add: parse_rlp_list_header_def Let_def word_le_nat_alt word_less_nat_alt)
  next
    case long
    define ll where "ll = (ucast ?b - 0xf7 :: size_t)"
    have u: "unat ll = unat ?b - 247" unfolding ll_def using long by (intro ucast_subs) simp
    then have ll: "1 \<le> unat ll" "unat ll \<le> 8" using long unat_byte_less [of ?b] by simp_all
    have hl: "unat (1 + ll) = 1 + unat ll" using ll by (simp add: unat_add_small)
    define bs where "bs = chunk (p + 1) (unat ll) buf"
    have eq: "parse_rlp_list_header buf p n =
      (if ll > n - 1 then Reject else if buf ! (p + 1) = 0 then Reject
       else if accum_len bs > n - (1 + ll) then Reject else if accum_len bs < 56 then Reject
       else Ok (accum_len bs, 1 + ll))"
    proof (cases "ll > n - 1")
      case True
      then show ?thesis using long False rd
        by (simp add: parse_rlp_list_header_def Let_def word_le_nat_alt ll_def)
    next
      case nl: False
      then have "unat ll \<le> unat n - 1" using n1 by (simp add: word_less_nat_alt)
      then have "p + 1 + unat ll \<le> length buf" using assms n0 unfolding at_pos_def by linarith
      with nl long False rd ll(1) show ?thesis
        by (simp add: parse_rlp_list_header_def Let_def word_le_nat_alt ll_def [symmetric] bs_def rd_def rd_slice_def)
    qed
    show thesis
    proof (cases "parse_rlp_list_header buf p n")
      case (Ok r)
      then have r: "r = (accum_len bs, 1 + ll)" "\<not> ll > n - 1" "\<not> accum_len bs > n - (1 + ll)"
        by (simp_all add: eq split: if_splits)
      then have "unat ll \<le> unat n - 1" using n1 by (simp add: word_less_nat_alt)
      then have "unat (n - (1 + ll)) = unat n - (1 + unat ll)" using hl n0 by (simp add: unat_sub_small)
      with r hl \<open>unat ll \<le> unat n - 1\<close> n0 Ok show thesis
        by (intro that(2) [of "accum_len bs" "1 + ll"]) (simp_all add: word_less_nat_alt)
    qed (simp_all add: that(1), simp add: eq split: if_splits)
  next
    case none
    then show thesis using that(1) rd False by (simp add: parse_rlp_list_header_def word_le_nat_alt)
  qed
qed

lemma decode_at_pos:
  assumes "length rlp < 2147483648" "rlp \<noteq> []"
  shows "unat (of_nat (length rlp) :: size_t) = length rlp" "at_pos rlp 1 (of_nat (length rlp) - 1)"
proof -
  show u: "unat (of_nat (length rlp) :: size_t) = length rlp"
    using assms by (simp add: unat_of_nat take_bit_nat_eq_self)
  then have "(of_nat (length rlp) :: size_t) \<noteq> 0" using assms(2) by auto
  with u assms show "at_pos rlp 1 (of_nat (length rlp) - 1)"
    by (simp add: at_pos_def unat_minus_one Suc_leI)
qed

lemma decode_not_bad:
  assumes "length rlp < 2147483648"
  shows "decode_ledger_tx rlp tx \<noteq> Bad"
proof (cases "rlp = []")
  case False
  note pos = decode_at_pos [OF assms False]
  have nz: "(of_nat (length rlp) :: size_t) \<noteq> 0" using pos(1) False by auto
  from pos(2) show ?thesis
  proof (cases rule: list_header_cases)
    case (2 pl hl)
    have "at_pos rlp (1 + unat hl) (of_nat (length rlp) - 1 - hl)"
      using at_pos_step [OF pos(2), of "unat hl"] 2 by simp
    from tx_fields_inside [OF this] have "bind_dec (tx_fields rlp tx (1 + unat hl) (of_nat (length rlp) - 1 - hl))
        (\<lambda>tx p remaining. if p \<noteq> e then Fail tx else Go tx p remaining) \<noteq> Bad" for e
      by (cases "tx_fields rlp tx (1 + unat hl) (of_nat (length rlp) - 1 - hl)") simp_all
    with 2 nz False show ?thesis by (simp add: decode_ledger_tx_def Let_def rd_def)
  qed (use nz False in \<open>simp add: decode_ledger_tx_def Let_def rd_def\<close>)
qed (simp add: decode_ledger_tx_def)

text \<open>
  C31.  \<open>decode_ledger_tx\<close> is memory safe: for every received buffer, whatever its bytes, no read of the
  decoder (prefix bytes, length bytes, field contents) is outside the buffer.
\<close>

theorem decode_memory_safe:
  assumes "length rlp < 2147483648"
  shows "decode_ledger_tx rlp tx \<noteq> Bad"
  by (rule decode_not_bad [OF assms])

theorem decode_memory_safe_witness:
  "decode_ledger_tx [0x02, 0xff, 1, 2, 3, 4, 5, 6, 7] tx_zero \<noteq> Bad"
  by (rule decode_memory_safe) simp

subsection \<open>A reference encoder\<close>

text \<open>The minimal big-endian representation, and the RLP encoding of byte strings and lists.\<close>

fun be_bytes :: "nat \<Rightarrow> byte list" where
  "be_bytes n = (if n = 0 then [] else be_bytes (n div 256) @ [of_nat (n mod 256)])"

declare be_bytes.simps [simp del]

definition rlp_header :: "nat \<Rightarrow> nat \<Rightarrow> byte list" where
  "rlp_header base len =
     (if len < 56 then [of_nat (base + len)]
      else of_nat (base + 55 + length (be_bytes len)) # be_bytes len)"

definition rlp_string :: "byte list \<Rightarrow> byte list" where
  "rlp_string bs = (if length bs = 1 \<and> unat (hd bs) < 128 then bs else rlp_header 128 (length bs) @ bs)"

definition rlp_list :: "byte list \<Rightarrow> byte list" where
  "rlp_list payload = rlp_header 192 (length payload) @ payload"

lemma unat_of_nat_byte: "k < 256 \<Longrightarrow> unat (of_nat k :: byte) = k"
  by (simp add: unat_of_nat take_bit_nat_eq_self)

lemma be_nat_be_bytes: "be_nat (be_bytes n) = n"
proof (induction n rule: be_bytes.induct)
  case (1 n)
  then show ?case
    by (cases "n = 0") (simp_all add: be_bytes.simps [of n] be_bytes.simps [of 0] unat_of_nat_byte)
qed

lemma be_bytes_hd: "n \<noteq> 0 \<Longrightarrow> be_bytes n \<noteq> [] \<and> hd (be_bytes n) \<noteq> 0"
proof (induction n rule: be_bytes.induct)
  case (1 n)
  show ?case
  proof (cases "n div 256 = 0")
    case True
    have "unat (of_nat (n mod 256) :: byte) \<noteq> 0" using True 1(2) by (simp add: unat_of_nat_byte)
    then have "(of_nat (n mod 256) :: byte) \<noteq> 0" using unat_0 by metis
    with True 1(2) show ?thesis by (simp add: be_bytes.simps [of n] be_bytes.simps [of 0])
  next
    case False
    with 1 show ?thesis by (simp add: be_bytes.simps [of n])
  qed
qed

lemma be_bytes_length: "n < 256 ^ k \<Longrightarrow> length (be_bytes n) \<le> k"
proof (induction k arbitrary: n)
  case 0
  then show ?case by (simp add: be_bytes.simps)
next
  case (Suc k)
  then have "n div 256 < 256 ^ k" by (simp add: less_mult_imp_div_less)
  with Suc.IH show ?case by (cases "n = 0") (simp_all add: be_bytes.simps [of n] be_bytes.simps [of 0])
qed

lemma be_bytes_long:
  assumes "56 \<le> len" "len < 2147483648"
  shows "length (be_bytes len) \<le> 4" "be_bytes len \<noteq> []" "hd (be_bytes len) \<noteq> 0"
  using be_bytes_length [of len 4] be_bytes_hd [of len] assms by simp_all

lemma accum_len_eq: "accum_len bs = of_nat (be_nat bs)"
proof (induction bs rule: rev_induct)
  case Nil
  then show ?case by (simp add: accum_len_def)
next
  case (snoc b bs)
  have "accum_len (bs @ [b]) = push_bit 8 (accum_len bs) OR ucast b" by (simp add: accum_len_def)
  also have "\<dots> = push_bit 8 (accum_len bs) + ucast b"
    by (rule disjunctive_add [symmetric]) (auto simp: bit_simps dest: bit_imp_le_length)
  also have "\<dots> = of_nat (be_nat bs) * 256 + of_nat (unat b)"
    by (simp only: snoc ucast_byte push_bit_eq_mult) simp
  also have "\<dots> = of_nat (be_nat (bs @ [b]))" by (simp only: be_nat_snoc of_nat_add of_nat_mult of_nat_numeral)
  finally show ?case .
qed

subsection \<open>Parsing what was encoded\<close>

fun shift_res :: "nat \<Rightarrow> (nat \<times> 'a \<times> 'b) res \<Rightarrow> (nat \<times> 'a \<times> 'b) res" where
  "shift_res p (Ok (d, l, k)) = Ok (p + d, l, k)"
| "shift_res p Reject = Reject"
| "shift_res p Oob = Oob"

lemma rd_drop: "p \<le> length buf \<Longrightarrow> rd buf (p + i) = rd (drop p buf) i"
  by (auto simp: rd_def)

lemma rd_slice_drop: "p \<le> length buf \<Longrightarrow> rd_slice buf (p + i) n = rd_slice (drop p buf) i n"
  by (auto simp: rd_slice_def chunk_def add.commute)

lemma shift_bind: "shift_res p (bind_res r f) = bind_res r (\<lambda>x. shift_res p (f x))"
  by (cases r) simp_all

lemma item_nat_drop:
  assumes "p \<le> length buf"
  shows "item_nat buf p m = shift_res p (item_nat (drop p buf) 0 m)"
proof -
  have l: "item_long buf p m ll = shift_res p (item_long (drop p buf) 0 m ll)" for ll
    using rd_drop [OF assms, of 1] rd_slice_drop [OF assms, of 1 ll]
    by (simp add: item_long_def shift_bind if_distrib [of "shift_res p"] cong: if_cong)
  have s: "item_short buf p m len = shift_res p (item_short (drop p buf) 0 m len)" for len
    using rd_drop [OF assms, of 1]
    by (simp add: item_short_def shift_bind if_distrib [of "shift_res p"] cong: if_cong)
  show ?thesis
    using rd_drop [OF assms, of 0]
    by (simp add: item_nat_def l s shift_bind if_distrib [of "shift_res p"] cong: if_cong)
qed

lemma item_long_encoded:
  assumes "56 \<le> len" "len < 2147483648" "len = length bs"
  shows "item_long (b # be_bytes len @ bs @ rest) 0 (1 + length (be_bytes len) + len + length rest) (length (be_bytes len))
    = Ok (1 + length (be_bytes len), of_nat len, 1 + length (be_bytes len) + len)"
proof -
  have "len < 256 ^ 4" using assms(2) by simp
  then have ll: "length (be_bytes len) \<le> 4" by (rule be_bytes_length)
  have hd: "be_bytes len \<noteq> []" "hd (be_bytes len) \<noteq> 0" using be_bytes_hd [of len] assms(1) by auto
  have a: "accum_len (be_bytes len) = of_nat len" by (simp add: accum_len_eq be_nat_be_bytes)
  have u: "unat (of_nat len :: size_t) = len" using assms(2) by (simp add: unat_of_nat take_bit_nat_eq_self)
  have "rd (b # be_bytes len @ bs @ rest) 1 = Ok (hd (be_bytes len))"
    using hd(1) by (cases "be_bytes len") (simp_all add: rd_def)
  moreover have "rd_slice (b # be_bytes len @ bs @ rest) 1 (length (be_bytes len)) = Ok (be_bytes len)"
    by (simp add: rd_slice_def chunk_def)
  ultimately show ?thesis
    using hd assms a u by (simp add: item_long_def)
qed

text \<open>Where the decoder stands: the unread part of the buffer is \<open>s\<close>.\<close>

definition reads :: "byte list \<Rightarrow> nat \<Rightarrow> size_t \<Rightarrow> byte list \<Rightarrow> bool" where
  "reads buf p n s \<longleftrightarrow> at_pos buf p n \<and> drop p buf = s"

lemma reads_length: "reads buf p n s \<Longrightarrow> unat n = length s \<and> p \<le> length buf \<and> length s < 2147483648"
  by (auto simp: reads_def at_pos_def)

lemma parse_string:
  assumes "reads buf p n (rlp_string bs @ rest)"
  obtains d where "parse_rlp_item buf p n = Ok (d, of_nat (length bs), int (length (rlp_string bs)))"
    "d + length bs \<le> length buf" "chunk d (length bs) buf = bs" "unat (of_nat (length bs) :: size_t) = length bs"
    "reads buf (p + length (rlp_string bs)) (n - of_nat (length (rlp_string bs))) rest"
proof -
  note rl = reads_length [OF assms]
  have dr: "drop p buf = rlp_string bs @ rest" and ap: "at_pos buf p n" using assms by (simp_all add: reads_def)
  have lb: "length bs \<le> length (rlp_string bs)" by (simp add: rlp_string_def)
  then have lbs: "length bs < 2147483648" using rl by simp
  obtain d where d: "item_nat (rlp_string bs @ rest) 0 (length (rlp_string bs @ rest)) =
      Ok (d, of_nat (length bs), length (rlp_string bs))" "d + length bs = length (rlp_string bs)"
      "drop d (rlp_string bs) = bs"
  proof -
    consider (single) b where "bs = [b]" "unat b < 128" | (short) "\<not> (length bs = 1 \<and> unat (hd bs) < 128)" "length bs < 56"
      | (long) "56 \<le> length bs" by (cases bs) (auto, metis (no_types) length_0_conv list.sel(1) not_less)
    then show thesis
    proof cases
      case single
      then show thesis using that [of 0] by (simp add: rlp_string_def item_nat_def rd_def)
    next
      case short
      have "unat (of_nat (128 + length bs) :: byte) = 128 + length bs" using short by (intro unat_of_nat_byte) simp
      then show thesis
        using short
        by (intro that [of 1]; cases bs) (auto simp: rlp_string_def rlp_header_def item_nat_def item_short_def rd_def)
    next
      case long
      note ll = be_bytes_long [OF long lbs]
      then have "unat (of_nat (183 + length (be_bytes (length bs))) :: byte) = 183 + length (be_bytes (length bs))"
        by (intro unat_of_nat_byte) simp
      moreover have "0 < length (be_bytes (length bs))" using ll by simp
      ultimately show thesis
        using long item_long_encoded [OF long lbs refl, of "of_nat (183 + length (be_bytes (length bs)))" rest] ll
        by (intro that [of "1 + length (be_bytes (length bs))"])
          (simp_all add: rlp_string_def rlp_header_def item_nat_def rd_def add.assoc)
    qed
  qed
  have "parse_rlp_item buf p n = Ok (p + d, of_nat (length bs), int (length (rlp_string bs)))"
    using parse_rlp_item_nat [of n buf p] item_nat_drop [of p buf "unat n"] rl dr d(1) by simp
  moreover have "chunk (p + d) (length bs) buf = bs"
  proof -
    have "drop (p + d) buf = drop d (rlp_string bs @ rest)" by (metis dr add.commute drop_drop)
    also have "\<dots> = bs @ rest" using d by simp
    finally show ?thesis by (simp add: chunk_def)
  qed
  moreover have "p + d + length bs \<le> length buf"
    using d(2) rl ap by (simp add: at_pos_def)
  moreover have "reads buf (p + length (rlp_string bs)) (n - of_nat (length (rlp_string bs))) rest"
    unfolding reads_def
    using at_pos_step [OF ap, of "length (rlp_string bs)"] rl dr
    by (metis add.commute append_eq_conv_conj drop_drop le_add1 length_append)
  moreover have "unat (of_nat (length bs) :: size_t) = length bs"
    using lbs by (simp add: unat_of_nat take_bit_nat_eq_self)
  ultimately show thesis using that [of "p + d"] by simp
qed

lemma parse_list:
  assumes "reads buf p n (rlp_list pl @ rest)"
  obtains d where "parse_rlp_item buf p n = Ok (d, of_nat (length pl), int (length (rlp_list pl)))"
    "unat (of_nat (length pl) :: size_t) = length pl"
    "reads buf (p + length (rlp_list pl)) (n - of_nat (length (rlp_list pl))) rest"
proof -
  note rl = reads_length [OF assms]
  have dr: "drop p buf = rlp_list pl @ rest" and ap: "at_pos buf p n" using assms by (simp_all add: reads_def)
  have lpl: "length pl < 2147483648" using rl by (simp add: rlp_list_def)
  obtain d where d: "item_nat (rlp_list pl @ rest) 0 (length (rlp_list pl @ rest)) =
      Ok (d, of_nat (length pl), length (rlp_list pl))"
  proof (cases "length pl < 56")
    case True
    then have "unat (of_nat (192 + length pl) :: byte) = 192 + length pl" by (intro unat_of_nat_byte) simp
    with True show thesis by (intro that [of 1]) (simp add: rlp_list_def rlp_header_def item_nat_def rd_def)
  next
    case False
    then have long: "56 \<le> length pl" by simp
    note ll = be_bytes_long [OF long lpl]
    then have "unat (of_nat (247 + length (be_bytes (length pl))) :: byte) = 247 + length (be_bytes (length pl))"
      by (intro unat_of_nat_byte) simp
    with long ll show thesis
      using item_long_encoded [OF long lpl refl, of "of_nat (247 + length (be_bytes (length pl)))" rest]
      by (intro that [of "1 + length (be_bytes (length pl))"])
        (simp add: rlp_list_def rlp_header_def item_nat_def rd_def add.assoc)
  qed
  have "parse_rlp_item buf p n = Ok (p + d, of_nat (length pl), int (length (rlp_list pl)))"
    using parse_rlp_item_nat [of n buf p] item_nat_drop [of p buf "unat n"] rl dr d by simp
  moreover have "reads buf (p + length (rlp_list pl)) (n - of_nat (length (rlp_list pl))) rest"
    unfolding reads_def
    using at_pos_step [OF ap, of "length (rlp_list pl)"] rl dr
    by (metis add.commute append_eq_conv_conj drop_drop le_add1 length_append)
  moreover have "unat (of_nat (length pl) :: size_t) = length pl"
    using lpl by (simp add: unat_of_nat take_bit_nat_eq_self)
  ultimately show thesis using that by blast
qed

lemma list_header_encoded:
  assumes "reads buf p n (rlp_list pl @ rest)"
  shows "parse_rlp_list_header buf p n = Ok (of_nat (length pl), of_nat (length (rlp_header 192 (length pl))))"
    "reads buf (p + length (rlp_header 192 (length pl))) (n - of_nat (length (rlp_header 192 (length pl)))) (pl @ rest)"
    "unat (of_nat (length (rlp_header 192 (length pl))) :: size_t) = length (rlp_header 192 (length pl))"
    "unat (of_nat (length pl) :: size_t) = length pl"
proof -
  note rl = reads_length [OF assms]
  have dr: "drop p buf = rlp_list pl @ rest" and ap: "at_pos buf p n" using assms by (simp_all add: reads_def)
  have lpl: "length pl < 2147483648" using rl by (simp add: rlp_list_def)
  show u: "unat (of_nat (length pl) :: size_t) = length pl"
    using lpl by (simp add: unat_of_nat take_bit_nat_eq_self)
  have hle: "length (rlp_header 192 (length pl)) \<le> unat n" using rl by (simp add: rlp_list_def)
  then show uh: "unat (of_nat (length (rlp_header 192 (length pl))) :: size_t) = length (rlp_header 192 (length pl))"
    using rl by (simp add: unat_of_nat take_bit_nat_eq_self)
  show "reads buf (p + length (rlp_header 192 (length pl))) (n - of_nat (length (rlp_header 192 (length pl)))) (pl @ rest)"
    unfolding reads_def
    using at_pos_step [OF ap hle] dr unfolding rlp_list_def
    by (metis add.commute append_assoc append_eq_conv_conj drop_drop)
  have n0: "n \<noteq> 0" using rl by (auto simp: rlp_list_def rlp_header_def)
  have n1: "unat (n - 1) = unat n - 1" by (rule unat_n1 [OF n0])
  have rdp: "rd buf (p + i) = rd (rlp_list pl @ rest) i" "rd_slice buf (p + i) k = rd_slice (rlp_list pl @ rest) i k" for i k
    using rd_drop [of p buf i] rd_slice_drop [of p buf i k] rl dr by simp_all
  show "parse_rlp_list_header buf p n = Ok (of_nat (length pl), of_nat (length (rlp_header 192 (length pl))))"
  proof (cases "length pl < 56")
    case True
    let ?b = "of_nat (192 + length pl) :: byte"
    have b: "unat ?b = 192 + length pl" using True by (intro unat_of_nat_byte) simp
    have "unat (ucast ?b - 0xc0 :: size_t) = length pl" using ucast_subs(3) [of ?b] b by simp
    then have ub: "ucast ?b - 0xc0 = (of_nat (length pl) :: size_t)" by (metis word_unat_eq_iff u)
    have "rd buf p = Ok ?b" using rdp(1) [of 0] True by (simp add: rlp_list_def rlp_header_def rd_def)
    moreover have "\<not> (of_nat (length pl) :: size_t) > n - 1"
      using n1 u rl True by (simp add: word_less_nat_alt rlp_list_def rlp_header_def)
    ultimately show ?thesis
      using True n0 b ub
      unfolding parse_rlp_list_header_def Let_def by (simp add: word_le_nat_alt rlp_header_def del: of_nat_add)
  next
    case False
    define lb where "lb = be_bytes (length pl)"
    let ?b = "of_nat (247 + length lb) :: byte"
    have ll: "length lb \<le> 4" "lb \<noteq> []" "hd lb \<noteq> 0"
      unfolding lb_def using be_bytes_long [OF _ lpl] False by simp_all
    have b: "unat ?b = 247 + length lb" using ll by (intro unat_of_nat_byte) simp
    have ul: "unat (of_nat (length lb) :: size_t) = length lb" using ll by (simp add: unat_of_nat take_bit_nat_eq_self)
    have "unat (ucast ?b - 0xf7 :: size_t) = length lb" using ucast_subs(4) [of ?b] b by simp
    then have ub: "ucast ?b - 0xf7 = (of_nat (length lb) :: size_t)" by (metis word_unat_eq_iff ul)
    have s: "rlp_list pl @ rest = ?b # lb @ pl @ rest" using False by (simp add: rlp_list_def rlp_header_def lb_def)
    have r0: "rd buf p = Ok ?b" using rdp(1) [of 0] by (simp add: s rd_def del: of_nat_add)
    have r1: "rd buf (p + 1) = Ok (hd lb)" using rdp(1) [of 1] ll by (cases lb) (simp_all add: s rd_def del: of_nat_add)
    have r2: "rd_slice buf (p + 1) (length lb) = Ok lb" using rdp(2) [of 1] by (simp add: s rd_slice_def chunk_def del: of_nat_add)
    have a: "accum_len lb = of_nat (length pl)" by (simp add: accum_len_eq be_nat_be_bytes lb_def)
    have h: "unat (1 + of_nat (length lb) :: size_t) = 1 + length lb" using ll ul by (simp add: unat_add_small)
    have un: "unat n = 1 + length lb + length pl + length rest" using rl arg_cong [OF s, of length] by simp
    have "\<not> (of_nat (length lb) :: size_t) > n - 1" using n1 ul un by (simp add: word_less_nat_alt)
    moreover have "\<not> (of_nat (length pl) :: size_t) > n - (1 + of_nat (length lb))"
      using h un u by (simp add: word_less_nat_alt unat_sub_small)
    moreover have "\<not> (of_nat (length pl) :: size_t) < 56" using u False by (simp add: word_less_nat_alt)
    moreover have "248 \<le> unat ?b" using b ll by (cases lb) simp_all
    ultimately show ?thesis
      using False n0 b ub r0 r1 r2 a ll ul
      unfolding parse_rlp_list_header_def Let_def by (simp add: word_le_nat_alt rlp_header_def lb_def [symmetric] del: of_nat_add)
  qed
qed

subsection \<open>Decoding what was encoded\<close>

text \<open>A transaction as its sender has it; the access list is the payload of its encoding.\<close>

record tx_data =
  t_chain :: "byte list"   t_nonce :: "byte list"   t_tip :: "byte list"   t_fee :: "byte list"
  t_gas :: "byte list"     t_to :: "byte list"      t_value :: "byte list"
  t_data :: "byte list"    t_access :: "byte list"

definition num_ok :: "nat \<Rightarrow> byte list \<Rightarrow> bool" where
  "num_ok k v \<longleftrightarrow> length v \<le> k \<and> (v = [] \<or> hd v \<noteq> 0)"

definition tx_valid :: "tx_data \<Rightarrow> bool" where
  "tx_valid t \<longleftrightarrow> num_ok 32 (t_chain t) \<and> num_ok 8 (t_nonce t) \<and> num_ok 32 (t_tip t) \<and> num_ok 32 (t_fee t)
     \<and> num_ok 8 (t_gas t) \<and> num_ok 32 (t_value t) \<and> (t_to t = [] \<or> length (t_to t) = 64)"

definition encode_payload :: "tx_data \<Rightarrow> byte list" where
  "encode_payload t =
     rlp_string (t_chain t) @ rlp_string (t_nonce t) @ rlp_string (t_tip t) @ rlp_string (t_fee t) @
     rlp_string (t_gas t) @ rlp_string (t_to t) @ rlp_string (t_value t) @ rlp_string (t_data t) @
     rlp_list (t_access t) @ rlp_string [1, 0, 0] @ rlp_string []"

definition encode_tx :: "tx_data \<Rightarrow> byte list" where
  "encode_tx t = 0x02 # rlp_list (encode_payload t)"

text \<open>What the decoder is to store.\<close>

definition store_tx :: "tx_data \<Rightarrow> zond_tx \<Rightarrow> zond_tx" where
  "store_tx t tx = tx\<lparr>
     chain_id := overlay (t_chain t) (chain_id tx), chain_id_len := of_nat (length (t_chain t)),
     nonce := overlay (t_nonce t) (nonce tx), nonce_len := of_nat (length (t_nonce t)),
     gas_tip_cap := overlay (t_tip t) (gas_tip_cap tx), gas_tip_cap_len := of_nat (length (t_tip t)),
     gas_fee_cap := overlay (t_fee t) (gas_fee_cap tx), gas_fee_cap_len := of_nat (length (t_fee t)),
     gas := overlay (t_gas t) (gas tx), gas_len := of_nat (length (t_gas t)),
     to_addr := overlay (t_to t) (replicate 64 0),
     tx_value := overlay (t_value t) (replicate 32 0), value_len := of_nat (length (t_value t)),
     has_data := (t_data t \<noteq> []), has_access_list := (t_access t \<noteq> []),
     descriptor := overlay [1, 0, 0] (descriptor tx), descriptor_len := 3\<rparr>"

definition goes :: "byte list \<Rightarrow> dec \<Rightarrow> zond_tx \<Rightarrow> byte list \<Rightarrow> bool" where
  "goes buf d tx s \<longleftrightarrow> (\<exists>p n. d = Go tx p n \<and> reads buf p n s)"

definition ends :: "byte list \<Rightarrow> dec \<Rightarrow> zond_tx \<Rightarrow> byte list \<Rightarrow> bool" where
  "ends buf d tx s \<longleftrightarrow> (\<exists>p n. d = Go tx p n \<and> p \<le> length buf \<and> drop p buf = s)"

lemma goes_bind:
  "goes buf d tx s \<Longrightarrow> (\<And>p n. reads buf p n s \<Longrightarrow> ends buf (f tx p n) tx' s') \<Longrightarrow> ends buf (bind_dec d f) tx' s'"
  by (auto simp: goes_def)

lemma of_nat_0_small: "unat (of_nat k :: size_t) = k \<Longrightarrow> ((of_nat k :: size_t) = 0) = (k = 0)"
proof
  assume "unat (of_nat k :: size_t) = k" "(of_nat k :: size_t) = 0"
  then show "k = 0" by simp
qed simp

lemma number_field_goes:
  assumes "reads buf p n (rlp_string v @ rest)" "num_ok m v"
  shows "goes buf (number_field buf m tx p n store) (store v) rest"
proof -
  from assms(1) obtain d where d: "parse_rlp_item buf p n = Ok (d, of_nat (length v), int (length (rlp_string v)))"
    "d + length v \<le> length buf" "chunk d (length v) buf = v" "unat (of_nat (length v) :: size_t) = length v"
    "reads buf (p + length (rlp_string v)) (n - of_nat (length (rlp_string v))) rest"
    by (rule parse_string)
  have "rd buf d = Ok (hd v)" if "v \<noteq> []"
  proof -
    have "0 < length v" using that by simp
    then have "d < length buf" using d(2) by linarith
    with that d(3) nth_chunk [of 0 "length v" d buf] show ?thesis by (simp add: rd_def hd_conv_nth)
  qed
  with d assms(2) of_nat_0_small [OF d(4)] show ?thesis
    by (auto simp: number_field_def goes_def num_ok_def rd_slice_def word_neq_0_conv [symmetric] simp del: of_nat_0_eq_iff)
qed

lemma to_field_goes:
  assumes "reads buf p n (rlp_string v @ rest)" "v = [] \<or> length v = 64"
  shows "goes buf (to_field buf tx p n) (tx\<lparr>to_addr := overlay v (replicate 64 0)\<rparr>) rest"
proof -
  from assms(1) obtain d where d: "parse_rlp_item buf p n = Ok (d, of_nat (length v), int (length (rlp_string v)))"
    "d + length v \<le> length buf" "chunk d (length v) buf = v" "unat (of_nat (length v) :: size_t) = length v"
    "reads buf (p + length (rlp_string v)) (n - of_nat (length (rlp_string v))) rest"
    by (rule parse_string)
  with assms(2) show ?thesis by (auto simp: to_field_def goes_def rd_slice_def)
qed

lemma rlp_string_prefix:
  assumes "length v < 2147483648"
  shows "rlp_string v \<noteq> []" "unat (hd (rlp_string v)) < 192"
proof -
  have "unat (of_nat (183 + length (be_bytes (length v))) :: byte) < 192" if "56 \<le> length v"
    using be_bytes_long(1) [OF that assms] by (subst unat_of_nat_byte) simp_all
  moreover have "unat (of_nat (128 + length v) :: byte) < 192" if "length v < 56"
    using that by (subst unat_of_nat_byte) simp_all
  ultimately show "rlp_string v \<noteq> []" "unat (hd (rlp_string v)) < 192"
    by (auto simp: rlp_string_def rlp_header_def)
qed

lemma reads_hd: "reads buf p n (x @ rest) \<Longrightarrow> x \<noteq> [] \<Longrightarrow> n \<noteq> 0 \<and> rd buf p = Ok (hd x)"
proof -
  assume a: "reads buf p n (x @ rest)" "x \<noteq> []"
  have n: "n \<noteq> 0" using reads_length [OF a(1)] a(2) by auto
  have "0 < unat n" using n by (simp add: unat_gt_0)
  then have "hd (drop p buf) = hd x" "p < length buf" using a by (simp_all add: reads_def at_pos_def)
  then have "buf ! p = hd x" by (simp add: hd_drop_conv_nth)
  with n at_pos_rd [of buf p n] a(1) show ?thesis by (simp add: reads_def)
qed

lemma data_field_goes:
  assumes "reads buf p n (rlp_string v @ rest)"
  shows "goes buf (data_field buf tx p n) (tx\<lparr>has_data := (v \<noteq> [])\<rparr>) rest"
proof -
  have "length v < 2147483648" using reads_length [OF assms] by (simp add: rlp_string_def split: if_splits)
  note pre = rlp_string_prefix [OF this]
  from assms obtain d where d: "parse_rlp_item buf p n = Ok (d, of_nat (length v), int (length (rlp_string v)))"
    "unat (of_nat (length v) :: size_t) = length v"
    "reads buf (p + length (rlp_string v)) (n - of_nat (length (rlp_string v))) rest"
    by (rule parse_string)
  with reads_hd [OF assms pre(1)] pre(2) of_nat_0_small [OF d(2)] show ?thesis
    by (simp add: data_field_def goes_def word_le_nat_alt del: of_nat_0_eq_iff)
qed

lemma access_list_field_goes:
  assumes "reads buf p n (rlp_list v @ rest)"
  shows "goes buf (access_list_field buf tx p n) (tx\<lparr>has_access_list := (v \<noteq> [])\<rparr>) rest"
proof -
  have lv: "length v < 2147483648" using reads_length [OF assms] by (simp add: rlp_list_def)
  have "unat (of_nat (247 + length (be_bytes (length v))) :: byte) \<ge> 192" if "56 \<le> length v"
    using be_bytes_long(1) [OF that lv] by (subst unat_of_nat_byte) simp_all
  moreover have "unat (of_nat (192 + length v) :: byte) \<ge> 192" if "length v < 56"
    using that by (subst unat_of_nat_byte) simp_all
  ultimately have pre: "rlp_list v \<noteq> []" "192 \<le> unat (hd (rlp_list v))"
    by (simp_all add: rlp_list_def rlp_header_def)
  from assms obtain d where d: "parse_rlp_item buf p n = Ok (d, of_nat (length v), int (length (rlp_list v)))"
    "unat (of_nat (length v) :: size_t) = length v"
    "reads buf (p + length (rlp_list v)) (n - of_nat (length (rlp_list v))) rest"
    by (rule parse_list)
  with reads_hd [OF assms pre(1)] pre(2) of_nat_0_small [OF d(2)] show ?thesis
    by (simp add: access_list_field_def goes_def word_less_nat_alt del: of_nat_0_eq_iff)
qed

lemma descriptor_field_goes:
  assumes "reads buf p n (rlp_string [1, 0, 0] @ rest)"
  shows "goes buf (descriptor_field buf tx p n) (tx\<lparr>descriptor := overlay [1, 0, 0] (descriptor tx), descriptor_len := 3\<rparr>) rest"
proof -
  from assms obtain d where d: "parse_rlp_item buf p n = Ok (d, of_nat (length [1 :: byte, 0, 0]), int (length (rlp_string [1, 0, 0])))"
    "d + length [1 :: byte, 0, 0] \<le> length buf" "chunk d (length [1 :: byte, 0, 0]) buf = [1, 0, 0]"
    "reads buf (p + length (rlp_string [1, 0, 0])) (n - of_nat (length (rlp_string [1, 0, 0]))) rest"
    by (rule parse_string)
  then have "rd_slice buf d 3 = Ok [1, 0, 0]" by (simp add: rd_slice_def numeral_3_eq_3)
  with d show ?thesis by (simp add: descriptor_field_def goes_def)
qed

lemma extra_params_ends:
  assumes "reads buf p n (rlp_string [] @ rest)"
  shows "ends buf (extra_params_field buf tx p n) tx rest"
proof -
  from assms obtain d where "parse_rlp_item buf p n = Ok (d, of_nat (length ([] :: byte list)), int (length (rlp_string [])))"
    "reads buf (p + length (rlp_string [])) (n - of_nat (length (rlp_string []))) rest"
    by (rule parse_string)
  then show ?thesis by (simp add: extra_params_field_def ends_def reads_def at_pos_def)
qed

lemma tx_fields_ends:
  assumes "reads buf p n (encode_payload t @ trail)" "tx_valid t"
  shows "ends buf (tx_fields buf tx p n) (store_tx t tx) trail"
proof -
  note r = assms(1) [unfolded encode_payload_def append_assoc]
  have v: "num_ok 32 (t_chain t)" "num_ok 8 (t_nonce t)" "num_ok 32 (t_tip t)" "num_ok 32 (t_fee t)"
    "num_ok 8 (t_gas t)" "t_to t = [] \<or> length (t_to t) = 64" "num_ok 32 (t_value t)"
    using assms(2) by (simp_all add: tx_valid_def)
  show ?thesis
    unfolding tx_fields_def store_tx_def
    by (rule goes_bind, rule number_field_goes [OF r v(1)], rule goes_bind, erule number_field_goes [OF _ v(2)],
        rule goes_bind, erule number_field_goes [OF _ v(3)], rule goes_bind, erule number_field_goes [OF _ v(4)],
        rule goes_bind, erule number_field_goes [OF _ v(5)], rule goes_bind, erule to_field_goes [OF _ v(6)],
        rule goes_bind, erule number_field_goes [OF _ v(7)], rule goes_bind, erule data_field_goes,
        rule goes_bind, erule access_list_field_goes, rule goes_bind, erule descriptor_field_goes)
      (simp, erule extra_params_ends)
qed

lemma decode_encoded:
  assumes "tx_valid t" "length (encode_tx t @ trail) < 2147483648"
  shows "\<exists>p n. decode_ledger_tx (encode_tx t @ trail) tx = Go (store_tx t tx) p n"
proof -
  let ?buf = "encode_tx t @ trail" and ?pl = "encode_payload t"
  let ?h = "length (rlp_header 192 (length ?pl))"
  have ne: "?buf \<noteq> []" by (simp add: encode_tx_def)
  note pos = decode_at_pos [OF assms(2) ne]
  have nz: "(of_nat (length ?buf) :: size_t) \<noteq> 0" using pos(1) ne by (metis length_0_conv unat_0)
  have r: "reads ?buf 1 (of_nat (length ?buf) - 1) (rlp_list ?pl @ trail)"
    using pos(2) by (simp add: reads_def encode_tx_def)
  note hdr = list_header_encoded [OF r]
  note rp = reads_length [OF hdr(2)]
  have fits: "\<not> of_nat (length ?pl) > (of_nat (length ?buf) - 1 - of_nat ?h :: size_t)"
    using rp hdr(4) by (simp add: word_less_nat_alt)
  obtain p n where go: "tx_fields ?buf tx (1 + ?h) (of_nat (length ?buf) - 1 - of_nat ?h) = Go (store_tx t tx) p n"
    "p \<le> length ?buf" "drop p ?buf = trail"
    using tx_fields_ends [OF hdr(2) assms(1), of tx] by (auto simp: ends_def)
  have "p = 1 + ?h + length ?pl"
    using go(2) arg_cong [OF go(3), of length] by (simp add: encode_tx_def rlp_list_def)
  moreover have "rd ?buf 0 = Ok 0x02" by (simp add: rd_def encode_tx_def)
  ultimately show ?thesis
    using nz hdr(1,3,4) fits go(1)
    by (simp add: decode_ledger_tx_def Let_def del: length_append append.simps of_nat_add)
qed

text \<open>
  C32.  Round trip: \<open>decode_ledger_tx\<close> accepts the RLP encoding of every well-formed transaction (numbers
  without leading zeros that fit their fields, a recipient of 64 bytes or none, any data, any access
  list) and stores exactly its fields and whether data and access list are empty.
\<close>

theorem decode_round_trip:
  assumes "tx_valid t" "length (encode_tx t) < 2147483648"
  shows "\<exists>p n. decode_ledger_tx (encode_tx t) tx = Go (store_tx t tx) p n"
  using decode_encoded [of t "[]" tx] assms by simp

definition sample_tx :: tx_data where
  "sample_tx = \<lparr>t_chain = [0x01], t_nonce = [], t_tip = [0x3b, 0x9a], t_fee = [0x77, 0x35, 0x94, 0],
     t_gas = [0x52, 0x08], t_to = replicate 64 0xAB, t_value = [0x0d, 0xe0, 0xb6], t_data = [], t_access = []\<rparr>"

theorem decode_round_trip_witness:
  "\<exists>p n. decode_ledger_tx (encode_tx sample_tx) tx_zero = Go (store_tx sample_tx tx_zero) p n"
proof -
  have "tx_valid sample_tx" by (simp add: tx_valid_def sample_tx_def num_ok_def)
  moreover have "length (encode_tx sample_tx) < 2147483648"
    by (simp add: encode_tx_def encode_payload_def sample_tx_def rlp_list_def rlp_string_def rlp_header_def be_bytes.simps)
  ultimately show ?thesis using decode_round_trip by blast
qed

text \<open>
  The decoder checks that the fields fill the outer list but not that the list fills the buffer:
  any bytes may follow the encoded transaction, and the decoded fields are the same.  (The signature
  covers them all the same, as the handler hashes the whole buffer.)
\<close>

theorem trailing_bytes_accepted:
  assumes "tx_valid t" "length (encode_tx t @ trail) < 2147483648"
  shows "\<exists>p n. decode_ledger_tx (encode_tx t @ trail) tx = Go (store_tx t tx) p n"
  using assms by (rule decode_encoded)

theorem trailing_bytes_accepted_witness:
  "\<exists>p n. decode_ledger_tx (encode_tx sample_tx @ [0xde, 0xad, 0xbe, 0xef]) tx_zero = Go (store_tx sample_tx tx_zero) p n"
proof -
  have "tx_valid sample_tx" by (simp add: tx_valid_def sample_tx_def num_ok_def)
  moreover have "length (encode_tx sample_tx @ [0xde, 0xad, 0xbe, 0xef]) < 2147483648"
    by (simp add: encode_tx_def encode_payload_def sample_tx_def rlp_list_def rlp_string_def rlp_header_def be_bytes.simps)
  ultimately show ?thesis using trailing_bytes_accepted by blast
qed

subsection \<open>The stored structure\<close>

text \<open>The layout of \<open>zond_tx_t\<close>: array sizes, and lengths that do not exceed them.\<close>

definition tx_wf :: "zond_tx \<Rightarrow> bool" where
  "tx_wf tx \<longleftrightarrow>
     length (chain_id tx) = 32 \<and> unat (chain_id_len tx) \<le> 32 \<and>
     length (nonce tx) = 8 \<and> unat (nonce_len tx) \<le> 8 \<and>
     length (gas_tip_cap tx) = 32 \<and> unat (gas_tip_cap_len tx) \<le> 32 \<and>
     length (gas_fee_cap tx) = 32 \<and> unat (gas_fee_cap_len tx) \<le> 32 \<and>
     length (gas tx) = 8 \<and> unat (gas_len tx) \<le> 8 \<and>
     length (to_addr tx) = 64 \<and>
     length (tx_value tx) = 32 \<and> unat (value_len tx) \<le> 32 \<and>
     length (descriptor tx) = 3 \<and> unat (descriptor_len tx) \<le> 3"

lemma tx_zero_wf: "tx_wf tx_zero"
  by (simp add: tx_wf_def tx_zero_def)

lemma length_overlay: "length new \<le> length old \<Longrightarrow> length (overlay new old) = length old"
  by (simp add: overlay_def)

lemma unat_len_byte: "k \<le> 64 \<Longrightarrow> unat (of_nat k :: byte) = k"
  by (rule unat_of_nat_byte) simp

definition dec_wf :: "dec \<Rightarrow> bool" where
  "dec_wf d = (case d of Go tx p n \<Rightarrow> tx_wf tx | Fail tx \<Rightarrow> tx_wf tx | Bad \<Rightarrow> True)"

lemma bind_dec_wf: "dec_wf d \<Longrightarrow> (\<And>tx p n. tx_wf tx \<Longrightarrow> dec_wf (f tx p n)) \<Longrightarrow> dec_wf (bind_dec d f)"
  by (cases d) (simp_all add: dec_wf_def)

lemma number_field_wf:
  assumes "tx_wf tx" "\<And>v. length v \<le> m \<Longrightarrow> tx_wf (store v)"
  shows "dec_wf (number_field buf m tx p n store)"
  using assms
  by (cases "parse_rlp_item buf p n")
    (auto simp: number_field_def dec_wf_def rd_def rd_slice_def split: if_splits)

lemma other_fields_wf:
  assumes "tx_wf tx"
  shows "dec_wf (to_field buf tx p n)" "dec_wf (data_field buf tx p n)" "dec_wf (access_list_field buf tx p n)"
    "dec_wf (descriptor_field buf tx p n)" "dec_wf (extra_params_field buf tx p n)"
proof -
  show "dec_wf (to_field buf tx p n)"
    using assms by (cases "parse_rlp_item buf p n")
      (auto simp: to_field_def dec_wf_def tx_wf_def rd_slice_def length_overlay split: if_splits)
  show "dec_wf (data_field buf tx p n)" "dec_wf (access_list_field buf tx p n)"
    using assms by (cases "parse_rlp_item buf p n"; cases "rd buf p";
      auto simp: data_field_def access_list_field_def dec_wf_def tx_wf_def split: if_splits)+
  show "dec_wf (descriptor_field buf tx p n)" "dec_wf (extra_params_field buf tx p n)"
    using assms by (cases "parse_rlp_item buf p n";
      auto simp: descriptor_field_def extra_params_field_def dec_wf_def tx_wf_def rd_slice_def length_overlay split: if_splits)+
qed

lemma tx_fields_wf: "tx_wf tx \<Longrightarrow> dec_wf (tx_fields buf tx p n)"
  unfolding tx_fields_def
  by (intro bind_dec_wf number_field_wf other_fields_wf; (assumption)?)
    (simp_all add: tx_wf_def length_overlay unat_len_byte)

lemma decode_wf:
  assumes "tx_wf tx"
  shows "dec_wf (decode_ledger_tx rlp tx)"
proof -
  have f: "dec_wf (Fail tx)" "dec_wf Bad" using assms by (simp_all add: dec_wf_def)
  have e: "dec_wf (bind_dec (tx_fields rlp tx p n) (\<lambda>tx p r. if p \<noteq> e then Fail tx else Go tx p r))" for p n e
    by (rule bind_dec_wf [OF tx_fields_wf [OF assms]]) (simp add: dec_wf_def)
  have of: "dec_wf (of_res tx r g)" if "\<And>x. dec_wf (g x)" for g and r :: "'x res"
    using that f by (cases r) simp_all
  show ?thesis
    unfolding decode_ledger_tx_def Let_def using f e by (auto intro!: of)
qed

text \<open>
  C33.  No write of \<open>decode_ledger_tx\<close> exceeds an array of \<open>zond_tx_t\<close>: whatever the input, and also when it
  is refused half-way, every array keeps its size and every stored length is within its array.
\<close>

theorem decode_keeps_layout:
  assumes "tx_wf tx"
  shows "case decode_ledger_tx rlp tx of Go tx' p n \<Rightarrow> tx_wf tx' | Fail tx' \<Rightarrow> tx_wf tx' | Bad \<Rightarrow> True"
  using decode_wf [OF assms] by (simp add: dec_wf_def)

theorem decode_keeps_layout_witness:
  "case decode_ledger_tx [0x02, 0xc5, 0x01, 0x88, 9, 9, 9] tx_zero of
     Go tx' p n \<Rightarrow> tx_wf tx' | Fail tx' \<Rightarrow> tx_wf tx' | Bad \<Rightarrow> True"
  by (rule decode_keeps_layout [OF tx_zero_wf])

subsection \<open>What else is accepted\<close>

text \<open>
  A length field of five or more bytes is accumulated in a 32-bit \<open>size_t\<close> and wraps: a string
  whose prefix announces \<open>2^32 + 64\<close> bytes is accepted as one of 64 bytes.
\<close>

theorem long_length_wraps:
  "parse_rlp_item ([0xbc, 0x01, 0, 0, 0, 0x40] @ replicate 64 0xAA) 0 70 = Ok (6, 64, 70)"
  by code_simp

text \<open>
  Outside fields 8 and 9 the decoder does not look at the kind of an item: a list is taken for a
  string.  This transaction has its chain id, its descriptor and its extra parameters encoded as
  lists and is accepted with the chain id 1 and the descriptor 01 00 00.
\<close>

theorem lists_accepted_as_strings:
  "(case decode_ledger_tx [0x02, 0xcf, 0xc1, 0x01, 0x80, 0x80, 0x80, 0x80, 0x80, 0x80, 0x80, 0xc0,
       0xc3, 0x01, 0x00, 0x00, 0xc0] tx_zero of
     Go tx p n \<Rightarrow> chain_id_len tx = 1 \<and> chain_id tx ! 0 = 1 \<and> descriptor tx = [1, 0, 0] | _ \<Rightarrow> False)"
  by code_simp

end
