(* ===== verification/Tx_Format.thy ===== *)
theory Tx_Format
  imports Prelude
begin

text \<open>
  The number formatting of \<open>ui/tx_format.c\<close>: what the user reads on the screen.  A C string is the
  list of its characters without the final NUL; the buffer sizes are checked as in the code, and
  \<open>None\<close> is the return value \<open>false\<close>.  The lemmas show that amounts and fees are displayed exactly:
  the text determines the number that is signed.
\<close>

abbreviation (input) TX_FORMAT_MAX_INTEGER_BYTES :: nat where "TX_FORMAT_MAX_INTEGER_BYTES \<equiv> 40"
abbreviation (input) TX_FORMAT_MAX_DECIMAL_DIGITS :: nat where "TX_FORMAT_MAX_DECIMAL_DIGITS \<equiv> 97"
abbreviation (input) TX_FORMAT_MAX_AMOUNT_LEN :: nat where "TX_FORMAT_MAX_AMOUNT_LEN \<equiv> 100"

subsection \<open>Decimal conversion\<close>

definition digit :: "nat \<Rightarrow> char" where
  "digit r = char_of (48 + r)"

text \<open>
  One pass of the long division by ten over \<open>temp\<close>: the new bytes and the remainder.  The flag \<open>zero\<close>
  of the code is \<open>list_all (\<lambda>b. b = 0)\<close> of the new bytes.
\<close>

fun div10 :: "nat \<Rightarrow> byte list \<Rightarrow> byte list \<times> nat" where
  "div10 remainder [] = ([], remainder)"
| "div10 remainder (b # bs) =
     (let val = push_bit 8 remainder OR unat b;
          (qs, r) = div10 (val mod 10) bs
      in (of_nat (val div 10) # qs, r))"

text \<open>The do-while loop; \<open>index\<close> is the number of free places in \<open>result\<close> and \<open>acc\<close> its filled end.\<close>

fun decimal_loop :: "byte list \<Rightarrow> nat \<Rightarrow> string \<Rightarrow> string option" where
  "decimal_loop temp index acc =
     (let (temp', remainder) = div10 0 temp
      in if index = 0 then None
         else if list_all (\<lambda>b. b = 0) temp' then Some (digit remainder # acc)
         else decimal_loop temp' (index - 1) (digit remainder # acc))"

declare decimal_loop.simps [simp del]

definition uint8_array_to_decimal :: "byte list \<Rightarrow> nat \<Rightarrow> string option" where
  "uint8_array_to_decimal bytes out_len =
     (if out_len = 0 \<or> length bytes > TX_FORMAT_MAX_INTEGER_BYTES then None
      else case decimal_loop bytes TX_FORMAT_MAX_DECIMAL_DIGITS [] of
        None \<Rightarrow> None
      | Some result \<Rightarrow> if length result + 1 > out_len then None else Some result)"

subsection \<open>Placing the decimal point\<close>

definition strip_zeros :: "string \<Rightarrow> string" where
  "strip_zeros s = rev (dropWhile (\<lambda>c. c = CHR ''0'') (rev s))"

definition strip_point :: "string \<Rightarrow> string" where
  "strip_point s = (if s \<noteq> [] \<and> last s = CHR ''.'' then butlast s else s)"

definition format_with_decimals :: "string \<Rightarrow> nat \<Rightarrow> nat \<Rightarrow> string option" where
  "format_with_decimals raw decimals out_len =
     (let len = length raw
      in if out_len = 0 then None
         else if decimals = 0 then (if len + 1 > out_len then None else Some raw)
         else
           (let leading = (if len < decimals then decimals - len else 0);
                needed = (if len > decimals then len - decimals else 1) + 1 + leading
                         + (if len > decimals then decimals else len) + 1
            in if needed > out_len then None
               else if len \<le> decimals
                 then Some (strip_point (strip_zeros (''0.'' @ replicate leading (CHR ''0'') @ raw)))
                 else Some (strip_point (strip_zeros
                        (take (len - decimals) raw @ ''.'' @ take decimals (drop (len - decimals) raw))))))"

definition format_qrl_amount :: "byte list \<Rightarrow> nat \<Rightarrow> string option" where
  "format_qrl_amount amount out_len =
     (case uint8_array_to_decimal amount (TX_FORMAT_MAX_DECIMAL_DIGITS + 1) of
        None \<Rightarrow> None
      | Some decimal \<Rightarrow> format_with_decimals decimal 18 out_len)"

subsection \<open>The product of two big-endian numbers\<close>

definition mult_accum :: "byte list \<Rightarrow> byte list \<Rightarrow> nat \<Rightarrow> nat \<times> nat \<Rightarrow> nat list \<Rightarrow> nat list" where
  "mult_accum a b full_len ij accum =
     (let (i, j) = ij; k = full_len - 1 - i - j
      in accum[k := (accum ! k + unat (a ! (length a - 1 - i)) * unat (b ! (length b - 1 - j))) mod 2 ^ 32])"

definition carry_step :: "nat \<Rightarrow> nat list \<Rightarrow> nat list" where
  "carry_step i accum =
     (let accum = accum[i - 1 := (accum ! (i - 1) + accum ! i div 2 ^ 8) mod 2 ^ 32]
      in accum[i := accum ! i mod 256])"

definition multiply_uint8_arrays :: "byte list \<Rightarrow> byte list \<Rightarrow> nat \<Rightarrow> byte list option" where
  "multiply_uint8_arrays a b out_len =
     (let full_len = length a + length b
      in if full_len > TX_FORMAT_MAX_INTEGER_BYTES then None
         else if full_len = 0 then (if out_len < 1 then None else Some [0])
         else
           (let accum = replicate TX_FORMAT_MAX_INTEGER_BYTES 0;
                accum = fold (mult_accum a b full_len) (List.product [0..<length a] [0..<length b]) accum;
                accum = fold carry_step (rev [1..<full_len]) accum;
                first = length (takeWhile (\<lambda>x. x = 0) (take (full_len - 1) accum));
                significant = full_len - first
            in if significant > out_len then None
               else Some (map of_nat (chunk first significant accum))))"

subsection \<open>Correctness of the decimal conversion\<close>

text \<open>The usual decimal notation.\<close>

fun dec_str :: "nat \<Rightarrow> string" where
  "dec_str n = (if n < 10 then [digit n] else dec_str (n div 10) @ [digit (n mod 10)])"

declare dec_str.simps [simp del]

lemma push8_or: "r < 10 \<Longrightarrow> push_bit 8 r OR unat (b :: byte) = r * 256 + unat b"
proof -
  have "push_bit 8 r OR unat b = push_bit 8 r + unat b"
    by (rule disjunctive_add [symmetric]) (auto simp: bit_simps dest: bit_imp_le_length)
  then show ?thesis by (simp add: push_bit_eq_mult)
qed

lemma div10_correct:
  assumes "r < 10"
  shows "length (fst (div10 r bs)) = length bs"
    "be_nat (fst (div10 r bs)) = (r * 256 ^ length bs + be_nat bs) div 10"
    "snd (div10 r bs) = (r * 256 ^ length bs + be_nat bs) mod 10"
proof -
  have "length (fst (div10 r bs)) = length bs \<and>
    be_nat (fst (div10 r bs)) = (r * 256 ^ length bs + be_nat bs) div 10 \<and>
    snd (div10 r bs) = (r * 256 ^ length bs + be_nat bs) mod 10"
    using assms
  proof (induction bs arbitrary: r)
    case (Cons b bs)
    let ?v = "r * 256 + unat b" and ?K = "256 ^ length bs :: nat"
    have vb: "?v < 2560" using Cons.prems unat_byte_less [of b] by simp
    have r': "?v mod 10 < 10" by simp
    have q: "unat (of_nat (?v div 10) :: byte) = ?v div 10"
      using vb by (simp add: unat_of_nat take_bit_nat_eq_self)
    have split: "r * 256 ^ length (b # bs) + be_nat (b # bs) = 10 * ((?v div 10) * ?K) + ((?v mod 10) * ?K + be_nat bs)"
    proof -
      have "r * 256 ^ length (b # bs) + be_nat (b # bs) = ?v * ?K + be_nat bs"
        by (simp add: be_nat_Cons algebra_simps)
      also have "?v * ?K = (10 * (?v div 10) + ?v mod 10) * ?K" by (simp only: mult_div_mod_eq)
      also have "\<dots> = 10 * ((?v div 10) * ?K) + (?v mod 10) * ?K" by (simp only: distrib_right mult.assoc)
      finally show ?thesis by (simp only: add.assoc)
    qed
    show ?case
      using Cons.IH [OF r'] vb
      unfolding div10.simps push8_or [OF Cons.prems] Let_def split
      by (simp add: case_prod_beta be_nat_Cons q)
  qed simp
  then show "length (fst (div10 r bs)) = length bs"
    "be_nat (fst (div10 r bs)) = (r * 256 ^ length bs + be_nat bs) div 10"
    "snd (div10 r bs) = (r * 256 ^ length bs + be_nat bs) mod 10" by simp_all
qed

lemma be_nat_0_iff: "be_nat bs = 0 \<longleftrightarrow> list_all (\<lambda>b. b = 0) bs"
  by (induction bs) (auto simp: be_nat_Cons unat_eq_zero)

lemma decimal_loop_correct:
  assumes "be_nat bs < 10 ^ index"
  shows "decimal_loop bs index acc = (if index = 0 then None else Some (dec_str (be_nat bs) @ acc))"
  using assms
proof (induction index arbitrary: bs acc)
  case 0
  then show ?case by (simp add: decimal_loop.simps case_prod_beta)
next
  case (Suc index)
  have d: "be_nat (fst (div10 0 bs)) = be_nat bs div 10" "snd (div10 0 bs) = be_nat bs mod 10"
    using div10_correct [of 0 bs] by simp_all
  show ?case
  proof (cases "be_nat bs < 10")
    case True
    then have "list_all (\<lambda>b. b = 0) (fst (div10 0 bs))" using d be_nat_0_iff by (metis div_less)
    with True d show ?thesis by (simp add: decimal_loop.simps [of bs] case_prod_beta dec_str.simps [of "be_nat bs"])
  next
    case False
    then have z: "\<not> list_all (\<lambda>b. b = 0) (fst (div10 0 bs))" using d(1) be_nat_0_iff [of "fst (div10 0 bs)"] div_greater_zero_iff [of "be_nat bs" 10] by simp
    have lt: "be_nat (fst (div10 0 bs)) < 10 ^ index" using Suc.prems d by (simp add: less_mult_imp_div_less mult.commute)
    moreover have "index \<noteq> 0" using lt d False by (cases index) simp_all
    ultimately show ?thesis
      using False z d Suc.IH [OF lt]
      by (simp add: decimal_loop.simps [of bs] case_prod_beta dec_str.simps [of "be_nat bs"])
  qed
qed

lemma dec_str_length: "n < 10 ^ k \<Longrightarrow> 0 < k \<Longrightarrow> length (dec_str n) \<le> k"
proof (induction k arbitrary: n)
  case (Suc k)
  show ?case
  proof (cases "n < 10")
    case False
    then have "n div 10 < 10 ^ k" "0 < k" using Suc.prems(1) by (simp_all add: less_mult_imp_div_less mult.commute) (cases k, simp_all)
    with Suc.IH [of "n div 10"] False show ?thesis by (simp add: dec_str.simps [of n])
  qed (simp add: dec_str.simps)
qed simp

lemma bytes40: "length bs \<le> 40 \<Longrightarrow> be_nat bs < 10 ^ 97"
proof -
  assume "length bs \<le> 40"
  then have "256 ^ length bs \<le> (256 :: nat) ^ 40" by (intro power_increasing) simp_all
  moreover have "(256 :: nat) ^ 40 < 10 ^ 97" by simp
  ultimately show ?thesis using be_nat_less [of bs] by linarith
qed

lemma to_decimal_eq:
  assumes "length bytes \<le> 40"
  shows "uint8_array_to_decimal bytes out_len =
    (if length (dec_str (be_nat bytes)) + 1 \<le> out_len then Some (dec_str (be_nat bytes)) else None)"
  using assms decimal_loop_correct [OF bytes40 [OF assms], of "[]"]
  by (auto simp: uint8_array_to_decimal_def)

text \<open>
  \<open>uint8_array_to_decimal\<close> prints the decimal notation of every big-endian number of up to 40 bytes,
  and fails only if the text and its terminator do not fit the output buffer; its scratch buffer
  of 97 digits always suffices.
\<close>

theorem decimal_conversion_correct:
  assumes "length bytes \<le> 40"
  shows "uint8_array_to_decimal bytes out_len =
      (if length (dec_str (be_nat bytes)) + 1 \<le> out_len then Some (dec_str (be_nat bytes)) else None)
    \<and> length (dec_str (be_nat bytes)) \<le> 97"
  using to_decimal_eq [OF assms] dec_str_length [OF bytes40 [OF assms]] by simp

theorem decimal_conversion_correct_witness:
  "uint8_array_to_decimal [0xff, 0xff] 98 = Some ''65535''"
proof -
  have "be_nat [0xff, 0xff] = 65535" by (simp add: be_nat_def)
  moreover have "dec_str 65535 = ''65535''" by (simp add: dec_str.simps digit_def char_of_def bit_0)
  ultimately show ?thesis using decimal_conversion_correct [of "[0xff, 0xff]" 98] by simp
qed

subsection \<open>Correctness of the amounts\<close>

text \<open>Reading a decimal text back: the digits, and an amount in units of \<open>10^-18\<close>.\<close>

definition digits_val :: "string \<Rightarrow> nat" where
  "digits_val s = foldl (\<lambda>n c. n * 10 + (of_char c - 48)) 0 s"

definition parse_amount :: "string \<Rightarrow> nat" where
  "parse_amount s =
     (let i = takeWhile (\<lambda>c. c \<noteq> CHR ''.'') s; f = drop (length i + 1) s
      in digits_val i * 10 ^ 18 + digits_val (f @ replicate (18 - length f) (CHR ''0'')))"

definition is_digits :: "string \<Rightarrow> bool" where
  "is_digits s \<longleftrightarrow> list_all (\<lambda>c. c \<noteq> CHR ''.'') s"

lemma of_char_digit: "r < 10 \<Longrightarrow> of_char (digit r) = 48 + r"
  by (simp add: digit_def)

lemma digit_not_point: "r < 10 \<Longrightarrow> digit r \<noteq> CHR ''.''"
proof
  assume "r < 10" "digit r = CHR ''.''"
  then have "of_char (CHR ''.'') = 48 + r" using of_char_digit by metis
  then show False by simp
qed

lemma digits_val_snoc: "digits_val (s @ [c]) = digits_val s * 10 + (of_char c - 48)"
  by (simp add: digits_val_def)

lemma digits_val_append: "digits_val (s @ t) = digits_val s * 10 ^ length t + digits_val t"
proof (induction t rule: rev_induct)
  case (snoc c t)
  have "digits_val (s @ t @ [c]) = digits_val (s @ t) * 10 + (of_char c - 48)"
    using digits_val_snoc [of "s @ t" c] by simp
  with snoc show ?case by (simp add: digits_val_snoc algebra_simps)
qed (simp add: digits_val_def)

lemma digits_val_zeros: "digits_val (replicate k (CHR ''0'')) = 0"
  by (induction k) (simp_all add: digits_val_def replicate_append_same [symmetric] del: replicate_Suc, simp)

lemma dec_str_val: "digits_val (dec_str n) = n"
proof (induction n rule: dec_str.induct)
  case (1 n)
  then show ?case
    by (cases "n < 10") (simp_all add: dec_str.simps [of n] digits_val_snoc of_char_digit, simp add: digits_val_def of_char_digit)
qed

lemma dec_str_digits: "is_digits (dec_str n)"
proof (induction n rule: dec_str.induct)
  case (1 n)
  then show ?case by (cases "n < 10") (simp_all add: dec_str.simps [of n] is_digits_def digit_not_point)
qed

text \<open>Stripping zeros from the fraction does not change the value.\<close>

lemma strip_zeros_split:
  obtains k where "f = strip_zeros f @ replicate k (CHR ''0'')"
proof -
  let ?z = "takeWhile (\<lambda>c. c = CHR ''0'') (rev f)"
  have "rev f = ?z @ dropWhile (\<lambda>c. c = CHR ''0'') (rev f)" by simp
  then have "f = strip_zeros f @ rev ?z" by (metis rev_append rev_rev_ident strip_zeros_def)
  moreover have "rev ?z = replicate (length ?z) (CHR ''0'')"
    by (intro replicate_eqI) (auto dest: set_takeWhileD)
  ultimately show thesis using that by metis
qed

lemma strip_zeros_last: "strip_zeros f = [] \<or> last (strip_zeros f) \<noteq> CHR ''0''"
  using hd_dropWhile [of "\<lambda>c. c = CHR ''0''" "rev f"] by (auto simp: strip_zeros_def last_rev)

lemma strip_zeros_point: "strip_zeros (i @ CHR ''.'' # f) = i @ CHR ''.'' # strip_zeros f"
  by (simp add: strip_zeros_def dropWhile_append)

lemma strip_point_eq:
  assumes "is_digits f"
  shows "strip_point (i @ CHR ''.'' # strip_zeros f) = (if strip_zeros f = [] then i else i @ CHR ''.'' # strip_zeros f)"
proof -
  have "set (strip_zeros f) \<subseteq> set f" by (auto simp: strip_zeros_def dest: set_dropWhileD)
  then have "last (strip_zeros f) \<noteq> CHR ''.''" if "strip_zeros f \<noteq> []"
    using that assms last_in_set [of "strip_zeros f"] unfolding is_digits_def list_all_iff by blast
  then show ?thesis by (simp add: strip_point_def butlast_append)
qed

lemma takeWhile_digits: "is_digits i \<Longrightarrow> takeWhile (\<lambda>c. c \<noteq> CHR ''.'') (i @ CHR ''.'' # f) = i"
  by (induction i) (simp_all add: is_digits_def)

lemma parse_stripped:
  assumes "is_digits i" "is_digits f" "length f = 18"
  shows "parse_amount (strip_point (strip_zeros (i @ CHR ''.'' # f))) = digits_val i * 10 ^ 18 + digits_val f"
proof -
  obtain k where k: "f = strip_zeros f @ replicate k (CHR ''0'')" by (rule strip_zeros_split)
  have len: "k = 18 - length (strip_zeros f)" using arg_cong [OF k, of length] assms(3) by simp
  show ?thesis
  proof (cases "strip_zeros f = []")
    case True
    have tw: "takeWhile (\<lambda>c. c \<noteq> CHR ''.'') i = i"
      using assms(1) by (simp add: is_digits_def list_all_iff takeWhile_eq_all_conv)
    have "digits_val f = 0" using k True digits_val_zeros [of k] by simp
    moreover have "strip_point (strip_zeros (i @ CHR ''.'' # f)) = i"
      using strip_point_eq [OF assms(2), of i] True strip_zeros_point [of i f] by simp
    ultimately show ?thesis
      using digits_val_zeros [of 18] by (simp only: parse_amount_def Let_def tw) simp
  next
    case False
    then have "strip_point (strip_zeros (i @ CHR ''.'' # f)) = i @ CHR ''.'' # strip_zeros f"
      by (simp only: strip_zeros_point strip_point_eq [OF assms(2)] if_False)
    then show ?thesis
      using k len by (simp add: parse_amount_def Let_def takeWhile_digits [OF assms(1)])
  qed
qed

lemma is_digits_simps: "is_digits (s @ t) \<longleftrightarrow> is_digits s \<and> is_digits t" "is_digits (replicate k (CHR ''0''))" "is_digits ''0''"
  by (auto simp: is_digits_def list_all_iff)

lemma is_digits_take_drop: "is_digits s \<Longrightarrow> is_digits (take k s)" "is_digits s \<Longrightarrow> is_digits (drop k s)"
  by (metis append_take_drop_id is_digits_simps(1))+

lemma format_18:
  assumes "is_digits raw" "length raw \<le> 97" "100 \<le> out_len"
  shows "\<exists>s. format_with_decimals raw 18 out_len = Some s \<and> parse_amount s = digits_val raw"
proof (cases "length raw \<le> 18")
  case True
  let ?f = "replicate (18 - length raw) (CHR ''0'') @ raw"
  have lead: "(if length raw < 18 then 18 - length raw else 0) = 18 - length raw" using True by simp
  have "parse_amount (strip_point (strip_zeros (''0'' @ CHR ''.'' # ?f))) = digits_val ''0'' * 10 ^ 18 + digits_val ?f"
    using True assms(1) by (intro parse_stripped) (simp_all only: is_digits_simps simp_thms length_append length_replicate le_add_diff_inverse2)
  moreover have "digits_val ?f = digits_val raw" by (simp add: digits_val_append digits_val_zeros)
  moreover have "digits_val ''0'' = 0" by (simp add: digits_val_def)
  moreover have "format_with_decimals raw 18 out_len = Some (strip_point (strip_zeros (''0'' @ CHR ''.'' # ?f)))"
    using True assms(3) by (simp add: format_with_decimals_def Let_def lead)
  ultimately show ?thesis by simp
next
  case False
  let ?i = "take (length raw - 18) raw" and ?f = "drop (length raw - 18) raw"
  have "parse_amount (strip_point (strip_zeros (?i @ CHR ''.'' # ?f))) = digits_val ?i * 10 ^ 18 + digits_val ?f"
    using False assms(1) by (intro parse_stripped is_digits_take_drop) simp_all
  also have "\<dots> = digits_val (?i @ ?f)" using False by (simp add: digits_val_append del: append_take_drop_id)
  also have "\<dots> = digits_val raw" by simp
  finally show ?thesis
    using False assms(2,3) by (simp add: format_with_decimals_def Let_def)
qed

lemma format_amount_exact:
  assumes "length amount \<le> 40" "100 \<le> out_len"
  shows "\<exists>s. format_qrl_amount amount out_len = Some s \<and> parse_amount s = be_nat amount"
proof -
  have len: "length (dec_str (be_nat amount)) \<le> 97" by (rule dec_str_length [OF bytes40 [OF assms(1)]]) simp
  then have "uint8_array_to_decimal amount 98 = Some (dec_str (be_nat amount))"
    using to_decimal_eq [OF assms(1), of 98] by simp
  then show ?thesis
    using format_18 [OF dec_str_digits len assms(2)] by (simp add: format_qrl_amount_def dec_str_val)
qed

text \<open>
  Amounts are displayed exactly and always: for every big-endian amount of up to 40 bytes and
  the display buffer of at least 100 characters, \<open>format_qrl_amount\<close> succeeds, and reading the text
  back as a decimal fraction with 18 places gives the amount, so two different amounts never show
  the same text.
\<close>

theorem amount_display_exact:
  assumes "length amount \<le> 40" "100 \<le> out_len"
  shows "\<exists>s. format_qrl_amount amount out_len = Some s \<and> parse_amount s = be_nat amount"
  by (rule format_amount_exact [OF assms])

theorem amount_display_exact_witness:
  "\<exists>s. format_qrl_amount [0x23, 0x86, 0xf2, 0x6f, 0xc1, 0x00, 0x00] 100 = Some s \<and> parse_amount s = 10000000000000000"
proof -
  have "be_nat [0x23, 0x86, 0xf2, 0x6f, 0xc1, 0x00, 0x00] = 10000000000000000" by (simp add: be_nat_def)
  then show ?thesis using amount_display_exact [of "[0x23, 0x86, 0xf2, 0x6f, 0xc1, 0x00, 0x00]" 100] by simp
qed

subsection \<open>Correctness of the product\<close>

text \<open>The number that the first \<open>n\<close> columns of \<open>accum\<close> stand for while columns may exceed a byte.\<close>

definition column_val :: "nat \<Rightarrow> nat list \<Rightarrow> nat" where
  "column_val n accum = (\<Sum>k<n. accum ! k * 256 ^ (n - 1 - k))"

lemma column_val_update:
  assumes "k < n" "n \<le> length accum"
  shows "column_val n (accum[k := x]) + accum ! k * 256 ^ (n - 1 - k) = column_val n accum + x * 256 ^ (n - 1 - k)"
proof -
  have "column_val n (accum[k := x]) = x * 256 ^ (n - 1 - k) + (\<Sum>j\<in>{..<n} - {k}. accum ! j * 256 ^ (n - 1 - j))"
    using assms by (simp add: column_val_def sum.remove [of "{..<n}" k])
  moreover have "column_val n accum = accum ! k * 256 ^ (n - 1 - k) + (\<Sum>j\<in>{..<n} - {k}. accum ! j * 256 ^ (n - 1 - j))"
    using assms by (simp add: column_val_def sum.remove [of "{..<n}" k])
  ultimately show ?thesis by simp
qed

lemma be_nat_columns: "be_nat bs = column_val (length bs) (map unat bs)"
proof (induction bs)
  case (Cons b bs)
  have "column_val (length (b # bs)) (map unat (b # bs)) = unat b * 256 ^ length bs + column_val (length bs) (map unat bs)"
    unfolding column_val_def by (simp add: sum.lessThan_Suc_shift del: sum.lessThan_Suc)
  with Cons show ?case by (simp add: be_nat_Cons)
qed (simp add: column_val_def)

lemma be_nat_rev_sum: "be_nat bs = sum_list (map (\<lambda>i. unat (bs ! (length bs - 1 - i)) * 256 ^ i) [0..<length bs])"
proof (induction bs)
  case (Cons b bs)
  have m: "map (\<lambda>i. unat ((b # bs) ! (length bs - i)) * 256 ^ i) [0..<length bs]
      = map (\<lambda>i. unat (bs ! (length bs - 1 - i)) * 256 ^ i) [0..<length bs]"
    by (rule map_cong) (simp_all add: nth_Cons')
  have "sum_list (map (\<lambda>i. unat ((b # bs) ! (length bs - i)) * 256 ^ i) [0..<length bs]) = be_nat bs"
    unfolding m by (rule Cons.IH [symmetric])
  then show ?case by (simp add: be_nat_Cons)
qed simp

lemma sum_list_product:
  "sum_list (map (\<lambda>(i, j). f i * g j) (List.product xs ys)) = sum_list (map f xs) * (sum_list (map g ys) :: nat)"
  by (induction xs) (simp_all add: sum_list_const_mult comp_def distrib_right)

text \<open>The double loop: a column grows by at most \<open>255 * 255\<close> per step, far from wrapping.\<close>

definition digit_prod :: "byte list \<Rightarrow> byte list \<Rightarrow> nat \<times> nat \<Rightarrow> nat" where
  "digit_prod a b ij = (case ij of (i, j) \<Rightarrow>
     (unat (a ! (length a - 1 - i)) * 256 ^ i) * (unat (b ! (length b - 1 - j)) * 256 ^ j))"

lemma byte_prod: "unat (x :: byte) * unat (y :: byte) \<le> 65025"
  using mult_le_mono [of "unat x" 255 "unat y" 255] unat_byte_less [of x] unat_byte_less [of y] by simp

lemma mult_accum_step:
  assumes "i < length a" "j < length b" "length a + length b = full" "full \<le> length accum"
    "\<And>k. k < full \<Longrightarrow> accum ! k \<le> B" "B + 65025 < 2 ^ 32"
  shows "length (mult_accum a b full (i, j) accum) = length accum"
    "column_val full (mult_accum a b full (i, j) accum) = column_val full accum + digit_prod a b (i, j)"
    "\<And>k. k < full \<Longrightarrow> mult_accum a b full (i, j) accum ! k \<le> B + 65025"
proof -
  let ?k = "full - 1 - i - j" and ?p = "unat (a ! (length a - 1 - i)) * unat (b ! (length b - 1 - j))"
  have k: "?k < full" "full - 1 - ?k = i + j" using assms(1-3) by simp_all
  have small: "accum ! ?k + ?p \<le> B + 65025" using assms(5) [OF k(1)] byte_prod by (rule add_mono)
  then have "(accum ! ?k + ?p) mod 2 ^ 32 = accum ! ?k + ?p" using assms(6) by (intro mod_less) (rule le_less_trans)
  then have eq: "mult_accum a b full (i, j) accum = accum[?k := accum ! ?k + ?p]"
    by (simp add: mult_accum_def Let_def)
  show "length (mult_accum a b full (i, j) accum) = length accum" by (simp add: eq)
  show "column_val full (mult_accum a b full (i, j) accum) = column_val full accum + digit_prod a b (i, j)"
    using column_val_update [OF k(1) assms(4), of "accum ! ?k + ?p"] k(2)
    by (simp add: eq digit_prod_def power_add algebra_simps)
  show "mult_accum a b full (i, j) accum ! m \<le> B + 65025" if "m < full" for m
    using assms(4) small assms(5) [OF that] that by (cases "?k = m") (simp_all add: eq)
qed

lemma mult_accum_fold:
  assumes "\<And>i j. (i, j) \<in> set ps \<Longrightarrow> i < length a \<and> j < length b"
    "length a + length b = full" "full \<le> length accum"
    "\<And>k. k < full \<Longrightarrow> accum ! k \<le> B" "B + 65025 * length ps < 2 ^ 32"
  shows "length (fold (mult_accum a b full) ps accum) = length accum \<and>
    column_val full (fold (mult_accum a b full) ps accum) = column_val full accum + sum_list (map (digit_prod a b) ps) \<and>
    (\<forall>k<full. fold (mult_accum a b full) ps accum ! k \<le> B + 65025 * length ps)"
  using assms
proof (induction ps arbitrary: accum B)
  case (Cons p ps)
  obtain i j where p: "p = (i, j)" by (cases p)
  have ij: "i < length a" "j < length b" using Cons.prems(1) [of i j] p by simp_all
  have "B + 65025 < 2 ^ 32" using Cons.prems(5) by simp
  note st = mult_accum_step [OF ij Cons.prems(2,3) Cons.prems(4) this]
  have "length (fold (mult_accum a b full) ps (mult_accum a b full p accum)) = length (mult_accum a b full p accum) \<and>
    column_val full (fold (mult_accum a b full) ps (mult_accum a b full p accum))
      = column_val full (mult_accum a b full p accum) + sum_list (map (digit_prod a b) ps) \<and>
    (\<forall>k<full. fold (mult_accum a b full) ps (mult_accum a b full p accum) ! k \<le> B + 65025 + 65025 * length ps)"
    by (rule Cons.IH) (use Cons.prems st p in auto)
  then show ?case using st p by (simp add: algebra_simps)
qed simp

text \<open>The carries: they keep the number and leave a byte in every column they passed.\<close>

lemma carry_step_correct:
  assumes "i \<noteq> 0" "i < full" "full \<le> length accum" "accum ! i \<le> 2 * B" "accum ! (i - 1) \<le> B" "2 * B < 2 ^ 32"
  shows "carry_step i accum = accum[i - 1 := accum ! (i - 1) + accum ! i div 256, i := accum ! i mod 256]"
    "column_val full (carry_step i accum) = column_val full accum"
    "accum ! (i - 1) + accum ! i div 256 \<le> 2 * B"
proof -
  let ?a = "accum[i - 1 := accum ! (i - 1) + accum ! i div 256]"
  show le: "accum ! (i - 1) + accum ! i div 256 \<le> 2 * B" using assms(4,5) by linarith
  then have "(accum ! (i - 1) + accum ! i div 256) mod 2 ^ 32 = accum ! (i - 1) + accum ! i div 256"
    using assms(6) by (intro mod_less) (rule le_less_trans)
  then show eq: "carry_step i accum = ?a[i := accum ! i mod 256]"
    using assms(1) by (simp add: carry_step_def Let_def)
  have i: "full - 1 - (i - 1) = Suc (full - 1 - i)" using assms(1,2) by simp
  have u1: "column_val full ?a = column_val full accum + (accum ! i div 256) * 256 ^ Suc (full - 1 - i)"
    using column_val_update [of "i - 1" full accum "accum ! (i - 1) + accum ! i div 256"] assms(1-3) i
    by (simp add: distrib_right)
  have u2: "column_val full (?a[i := accum ! i mod 256]) + accum ! i * 256 ^ (full - 1 - i)
      = column_val full ?a + (accum ! i mod 256) * 256 ^ (full - 1 - i)"
    using column_val_update [of i full ?a "accum ! i mod 256"] assms(1-3) by simp
  have "accum ! i * 256 ^ (full - 1 - i) = (accum ! i div 256 * 256 + accum ! i mod 256) * 256 ^ (full - 1 - i)" by simp
  also have "\<dots> = (accum ! i div 256) * 256 ^ Suc (full - 1 - i) + (accum ! i mod 256) * 256 ^ (full - 1 - i)"
    by (simp only: distrib_right power_Suc mult.assoc)
  finally show "column_val full (carry_step i accum) = column_val full accum"
    using u1 u2 unfolding eq by linarith
qed

lemma carry_fold:
  assumes "m < full" "full \<le> length accum" "accum ! m \<le> 2 * B" "\<And>k. k < m \<Longrightarrow> accum ! k \<le> B"
    "\<And>k. m < k \<Longrightarrow> k < full \<Longrightarrow> accum ! k < 256" "2 * B < 2 ^ 32"
  shows "length (fold carry_step (rev [1..<Suc m]) accum) = length accum \<and>
    column_val full (fold carry_step (rev [1..<Suc m]) accum) = column_val full accum \<and>
    (\<forall>k. 0 < k \<and> k < full \<longrightarrow> fold carry_step (rev [1..<Suc m]) accum ! k < 256)"
  using assms
proof (induction m arbitrary: accum)
  case (Suc m)
  note st = carry_step_correct [of "Suc m" full accum B, unfolded diff_Suc_1, OF nat.discI [OF refl] Suc.prems(1-3) _ Suc.prems(6)]
  have B: "accum ! m \<le> B" using Suc.prems(4) by simp
  have len: "length (carry_step (Suc m) accum) = length accum" using st(1) [OF B] by simp
  have "length (fold carry_step (rev [1..<Suc m]) (carry_step (Suc m) accum)) = length (carry_step (Suc m) accum) \<and>
    column_val full (fold carry_step (rev [1..<Suc m]) (carry_step (Suc m) accum)) = column_val full (carry_step (Suc m) accum) \<and>
    (\<forall>k. 0 < k \<and> k < full \<longrightarrow> fold carry_step (rev [1..<Suc m]) (carry_step (Suc m) accum) ! k < 256)"
  proof (rule Suc.IH)
    show "carry_step (Suc m) accum ! k \<le> B" if "k < m" for k
      using that Suc.prems(4) [of k] by (simp add: st(1) [OF B])
    show "carry_step (Suc m) accum ! k < 256" if "m < k" "k < full" for k
      using that Suc.prems(2) Suc.prems(5) [of k] by (simp add: st(1) [OF B] nth_list_update)
    show "carry_step (Suc m) accum ! m \<le> 2 * B"
      using Suc.prems(1,2) st(3) [OF B] by (simp add: st(1) [OF B])
  qed (use Suc.prems len in simp_all)
  moreover have "rev [1..<Suc (Suc m)] = Suc m # rev [1..<Suc m]" by simp
  ultimately show ?case using len st(2) [OF B] by (simp del: upt_Suc)
qed simp

lemma be_nat_ge: "bs \<noteq> [] \<Longrightarrow> hd bs \<noteq> 0 \<Longrightarrow> 256 ^ (length bs - 1) \<le> be_nat bs"
  by (cases bs) (auto simp: be_nat_Cons unat_gt_0 Suc_le_eq intro!: trans_le_add1)

lemma be_nat_overflow:
  assumes "out_len < length bs" "length bs = 1 \<or> hd bs \<noteq> 0"
  shows "out_len = 0 \<or> 256 ^ out_len \<le> be_nat bs"
proof (cases "length bs = 1")
  case False
  then have "256 ^ (length bs - 1) \<le> be_nat bs" using assms by (intro be_nat_ge) auto
  moreover have "(256 :: nat) ^ out_len \<le> 256 ^ (length bs - 1)" using assms(1) by (intro power_increasing) simp_all
  ultimately show ?thesis by (metis le_trans)
qed (use assms in simp)

lemma columns_be_nat:
  assumes "length xs = n" "\<And>k. k < n \<Longrightarrow> xs ! k < 256"
  shows "be_nat (map of_nat xs) = column_val n xs"
proof -
  have "map unat (map of_nat xs :: byte list) = xs"
    using assms by (intro nth_equalityI) (simp_all add: unat_of_nat take_bit_nat_eq_self)
  then show ?thesis using be_nat_columns [of "map of_nat xs"] assms(1) by simp
qed

lemma column_val_take: "column_val n (take n xs) = column_val n xs" if "n \<le> length xs"
  using that by (simp add: column_val_def)

text \<open>Together: after both loops the first \<open>full\<close> columns are the bytes of the product.\<close>

definition product_columns :: "byte list \<Rightarrow> byte list \<Rightarrow> nat list" where
  "product_columns a b =
     fold carry_step (rev [1..<length a + length b])
       (fold (mult_accum a b (length a + length b)) (List.product [0..<length a] [0..<length b]) (replicate 40 0))"

lemma four_mult_le: "4 * (x * y) \<le> (x + y) * (x + y)" for x y :: nat
proof (cases "x \<le> y")
  case True
  then obtain d where "y = x + d" using le_Suc_ex by blast
  then show ?thesis by (simp add: algebra_simps)
next
  case False
  then obtain d where "x = y + d" using le_Suc_ex nat_le_linear by blast
  then show ?thesis by (simp add: algebra_simps)
qed

lemma product_columns_correct:
  assumes "0 < length a + length b" "length a + length b \<le> 40"
  shows "length (product_columns a b) = 40"
    "column_val (length a + length b) (product_columns a b) = be_nat a * be_nat b"
    "k < length a + length b \<Longrightarrow> product_columns a b ! k < 256"
proof -
  let ?full = "length a + length b" and ?ps = "List.product [0..<length a] [0..<length b]"
  let ?acc = "fold (mult_accum a b ?full) ?ps (replicate 40 0)"
  have "4 * (length a * length b) \<le> ?full * ?full" by (rule four_mult_le)
  also have "\<dots> \<le> 40 * 40" using assms(2) by (intro mult_le_mono)
  finally have ps: "length ?ps \<le> 400" by simp
  have m: "length ?acc = length (replicate 40 (0 :: nat)) \<and>
    column_val ?full ?acc = column_val ?full (replicate 40 0) + sum_list (map (digit_prod a b) ?ps) \<and>
    (\<forall>k<?full. ?acc ! k \<le> 0 + 65025 * length ?ps)"
    by (rule mult_accum_fold) (use assms ps in auto)
  have "column_val ?full (replicate 40 0) = 0" using assms(2) by (simp add: column_val_def)
  moreover have "sum_list (map (digit_prod a b) ?ps) = be_nat a * be_nat b"
    unfolding digit_prod_def be_nat_rev_sum [of a] be_nat_rev_sum [of b] by (rule sum_list_product)
  ultimately have val: "column_val ?full ?acc = be_nat a * be_nat b" using m by simp
  have B: "?acc ! k \<le> 26010000" if "k < ?full" for k
  proof -
    have "?acc ! k \<le> 65025 * length ?ps" using m that by simp
    then show ?thesis using ps by linarith
  qed
  have c: "length (product_columns a b) = length ?acc \<and> column_val ?full (product_columns a b) = column_val ?full ?acc \<and>
    (\<forall>k. 0 < k \<and> k < ?full \<longrightarrow> product_columns a b ! k < 256)"
  proof -
    have f: "Suc (?full - 1) = ?full" using assms(1) by simp
    have l: "?acc ! (?full - 1) \<le> 2 * 26010000" using B [of "?full - 1"] assms(1) by simp
    have "?full \<le> length ?acc" using m assms(2) by simp
    from carry_fold [of "?full - 1" ?full ?acc 26010000, unfolded f, OF _ this l] B assms(1)
    show ?thesis unfolding product_columns_def by simp
  qed
  then show "length (product_columns a b) = 40" using m by simp
  show eq: "column_val ?full (product_columns a b) = be_nat a * be_nat b" using c val by simp
  have "product_columns a b ! 0 * 256 ^ (?full - 1) \<le> column_val ?full (product_columns a b)"
    unfolding column_val_def
    by (rule order.trans [OF _ member_le_sum [of 0]]) (use assms in auto)
  also have "\<dots> < 256 ^ length a * 256 ^ length b"
    unfolding eq using be_nat_less [of a] be_nat_less [of b] by (intro mult_strict_mono) simp_all
  also have "\<dots> = 256 * 256 ^ (?full - 1)" using assms(1) by (simp flip: power_add power_Suc)
  finally have "product_columns a b ! 0 < 256" by simp
  then show "k < ?full \<Longrightarrow> product_columns a b ! k < 256" using c by (cases k) auto
qed

lemma column_val_Cons: "column_val (Suc n) (x # xs) = x * 256 ^ n + column_val n xs"
  unfolding column_val_def by (simp add: sum.lessThan_Suc_shift del: sum.lessThan_Suc)

lemma column_val_drop:
  "k \<le> length xs \<Longrightarrow> (\<And>j. j < k \<Longrightarrow> xs ! j = 0) \<Longrightarrow> column_val (length xs) xs = column_val (length xs - k) (drop k xs)"
proof (induction xs arbitrary: k)
  case (Cons x xs)
  show ?case
  proof (cases k)
    case (Suc k')
    have "x = 0" using Cons.prems(2) [of 0] Suc by simp
    moreover have "xs ! j = 0" if "j < k'" for j using Cons.prems(2) [of "Suc j"] that Suc by simp
    ultimately show ?thesis using Cons.IH [of k'] Cons.prems(1) Suc by (simp add: column_val_Cons)
  qed simp
qed simp

lemma skip_leading_zeros:
  assumes "xs \<noteq> []" "first = length (takeWhile (\<lambda>x. x = 0) (butlast xs))"
  shows "column_val (length xs) xs = column_val (length xs - first) (drop first xs)"
    "first < length xs" "length xs - first = 1 \<or> xs ! first \<noteq> 0"
proof -
  let ?P = "\<lambda>x. x = (0 :: nat)"
  have le: "first \<le> length xs - 1" using assms(2) length_takeWhile_le [of ?P "butlast xs"] by simp
  then show lt: "first < length xs" using assms(1) by (cases xs) simp_all
  show "length xs - first = 1 \<or> xs ! first \<noteq> 0"
  proof (cases "first = length xs - 1")
    case False
    then have "first < length (butlast xs)" using le by simp
    then show ?thesis using nth_length_takeWhile [of ?P "butlast xs"] assms(2) by (simp add: nth_butlast)
  qed (use lt in simp)
  have z: "xs ! k = 0" if "k < first" for k
    using that assms(2) le takeWhile_nth [of k ?P "butlast xs"] set_takeWhileD [OF nth_mem, of k ?P "butlast xs"]
    by (simp add: nth_butlast)
  show "column_val (length xs) xs = column_val (length xs - first) (drop first xs)"
    using column_val_drop [of first xs] lt z by simp
qed

lemma multiply_product:
  assumes "length a + length b \<le> 40"
  shows "case multiply_uint8_arrays a b out_len of
      Some out \<Rightarrow> be_nat out = be_nat a * be_nat b \<and> length out \<le> out_len \<and> (length out = 1 \<or> hd out \<noteq> 0)
    | None \<Rightarrow> out_len = 0 \<or> 256 ^ out_len \<le> be_nat a * be_nat b"
proof (cases "length a + length b = 0")
  case True
  then show ?thesis by (auto simp: multiply_uint8_arrays_def be_nat_def)
next
  case False
  let ?n = "length a + length b" and ?c = "product_columns a b"
  have n: "0 < ?n" using False by blast
  note c = product_columns_correct [OF n assms]
  let ?xs = "take ?n ?c" and ?out = "\<lambda>first. map of_nat (chunk first (?n - first) ?c) :: byte list"
  obtain first where first: "first = length (takeWhile (\<lambda>x. x = 0) (take (?n - 1) ?c))" by blast
  have len: "length ?xs = ?n" using c(1) assms by simp
  have bl: "butlast ?xs = take (?n - 1) ?c" using c(1) assms by (simp add: butlast_take)
  have "?xs \<noteq> []" using len n by (metis less_irrefl list.size(3))
  note sk = skip_leading_zeros [OF this first [folded bl], unfolded len]
  have ch: "chunk first (?n - first) ?c = drop first ?xs" by (simp add: chunk_def drop_take)
  have val: "be_nat (?out first) = be_nat a * be_nat b"
    unfolding ch using columns_be_nat [of "drop first ?xs" "?n - first"] sk(1,2) c len column_val_take [of ?n ?c] assms
    by simp
  have lo: "length (?out first) = ?n - first" using len by (simp add: ch)
  have hd: "hd (?out first) = of_nat (?c ! first)" "?c ! first < 256"
    using sk(2) c(1,3) assms lo by (simp_all add: hd_conv_nth flip: length_greater_0_conv)
  then have nz: "?n - first = 1 \<or> hd (?out first) \<noteq> 0"
    using sk(2,3) by (auto simp: word_of_nat_eq_0_iff take_bit_nat_eq_self dvd_imp_le dest: nat_dvd_not_less)
  have eq: "multiply_uint8_arrays a b out_len = (if ?n - first > out_len then None else Some (?out first))"
    using n assms unfolding multiply_uint8_arrays_def Let_def first product_columns_def by auto
  show ?thesis
  proof (cases "?n - first > out_len")
    case True
    then have "out_len = 0 \<or> 256 ^ out_len \<le> be_nat (?out first)"
      using be_nat_overflow [of out_len "?out first"] nz lo by simp
    then show ?thesis using True val by (simp add: eq)
  next
    case False
    then show ?thesis using val lo nz by (simp add: eq)
  qed
qed

text \<open>
  C40.  The fee shown to the user, gas limit times fee per gas, is the exact product: for operands of
  together at most 40 bytes no 32-bit accumulator wraps, the result is the big-endian product without
  superfluous leading zeros, and the routine fails only when the product does not fit the output
  buffer.
\<close>

theorem multiply_exact:
  assumes "length a + length b \<le> 40"
  shows "case multiply_uint8_arrays a b out_len of
      Some out \<Rightarrow> be_nat out = be_nat a * be_nat b \<and> length out \<le> out_len \<and> (length out = 1 \<or> hd out \<noteq> 0)
    | None \<Rightarrow> out_len = 0 \<or> 256 ^ out_len \<le> be_nat a * be_nat b"
  by (rule multiply_product [OF assms])

theorem multiply_exact_witness:
  "case multiply_uint8_arrays [0x52, 0x08] [0x3b, 0x9a, 0xca, 0x00] 40 of
     Some out \<Rightarrow> be_nat out = 21000000000000 \<and> length out \<le> 40 \<and> (length out = 1 \<or> hd out \<noteq> 0)
   | None \<Rightarrow> False"
proof -
  have "be_nat [0x52, 0x08] * be_nat [0x3b, 0x9a, 0xca, 0x00] = 21000000000000" by (simp add: be_nat_def)
  then show ?thesis
    using multiply_exact [of "[0x52, 0x08]" "[0x3b, 0x9a, 0xca, 0x00]" 40] by (simp split: option.splits)
qed

end
