(* ===== verification/Device.thy ===== *)
theory Device
  imports Address Rlp Tx_Format
begin

text \<open>
  The application: \<open>app_main.c\<close>, \<open>apdu/dispatcher.c\<close>, \<open>handler/\<close>, \<open>helper/send_response.c\<close> and \<open>ui/\<close>.  A handler is a function on the
  state of the device, which is \<open>G_context\<close>, \<open>N_storage\<close>, the screen and the responses sent so far; it returns the new
  state and the \<open>int\<close> of the C function, or \<open>None\<close> if it does not return.

  The functions of the Ledger SDK that the code calls are the fields of the record \<open>sdk\<close>, and every
  definition takes it as an argument.  \<open>io_send_\<close> functions append to the responses; \<open>nbgl_\<close> functions change the screen; a
  callback runs when the user acts on the screen that registered it.
\<close>

subsection \<open>The SDK\<close>

text \<open>\<open>buffer_t\<close> and \<open>command_t\<close>; a \<open>NULL\<close> pointer is \<open>None\<close>.\<close>

record buffer =
  buf_ptr :: "byte list option"
  buf_size :: nat
  buf_offset :: nat

record command =
  cmd_cla :: byte
  cmd_ins :: byte
  cmd_p1 :: byte
  cmd_p2 :: byte
  cmd_lc :: byte
  cmd_data :: "byte list option"

text \<open>What is sent to the host: the bytes and the status word.\<close>

datatype response = Response (body: "byte list") (sw: "16 word")

text \<open>
  A reader returns its \<open>bool\<close>, the value it has written and the buffer with its new offset.
  \<open>buffer_read_bip32_path\<close> gets the old contents of the array it writes to, and \<open>buffer_move\<close> returns the bytes it has written to
  the output.  \<open>os_derive_bip32_no_throw\<close> gives an error code other than \<open>CX_OK\<close> or the 64 bytes of the raw seed.
\<close>

record sdk =
  os_derive_bip32_no_throw :: "u32 list \<Rightarrow> u32 + byte list"
  buffer_read_u8 :: "buffer \<Rightarrow> bool \<times> byte \<times> buffer"
  buffer_read_bip32_path :: "buffer \<Rightarrow> u32 list \<Rightarrow> nat \<Rightarrow> bool \<times> u32 list \<times> buffer"
  buffer_move :: "buffer \<Rightarrow> nat \<Rightarrow> bool \<times> byte list \<times> buffer"
  apdu_parser :: "byte list \<Rightarrow> command option"
  io_result :: "response \<Rightarrow> int"
  max_bip32_path :: nat

subsection \<open>Constants and the global context\<close>

definition CLA :: byte where "CLA = 0xE0"

definition GET_VERSION :: byte where "GET_VERSION = 0x03"
definition GET_APP_NAME :: byte where "GET_APP_NAME = 0x04"
definition GET_PUBLIC_KEY :: byte where "GET_PUBLIC_KEY = 0x05"
definition SIGN_TX :: byte where "SIGN_TX = 0x06"

definition SW_OK :: "16 word" where "SW_OK = 0x9000"
definition SW_DENY :: "16 word" where "SW_DENY = 0x6985"
definition SW_WRONG_P1P2 :: "16 word" where "SW_WRONG_P1P2 = 0x6A86"
definition SW_WRONG_DATA_LENGTH :: "16 word" where "SW_WRONG_DATA_LENGTH = 0x6A87"
definition SW_INS_NOT_SUPPORTED :: "16 word" where "SW_INS_NOT_SUPPORTED = 0x6D00"
definition SW_CLA_NOT_SUPPORTED :: "16 word" where "SW_CLA_NOT_SUPPORTED = 0x6E00"
definition SW_DISPLAY_ADDRESS_FAIL :: "16 word" where "SW_DISPLAY_ADDRESS_FAIL = 0xB002"
definition SW_DISPLAY_AMOUNT_FAIL :: "16 word" where "SW_DISPLAY_AMOUNT_FAIL = 0xB003"
definition SW_WRONG_TX_LENGTH :: "16 word" where "SW_WRONG_TX_LENGTH = 0xB004"
definition SW_TX_PARSING_FAIL :: "16 word" where "SW_TX_PARSING_FAIL = 0xB005"
definition SW_BAD_STATE :: "16 word" where "SW_BAD_STATE = 0xB007"
definition SW_SIGNATURE_FAIL :: "16 word" where "SW_SIGNATURE_FAIL = 0xB008"

abbreviation (input) MAX_TRANSACTION_LEN :: nat where "MAX_TRANSACTION_LEN \<equiv> 510"
abbreviation (input) SIGNATURE_CHUNK_SIZE :: nat where "SIGNATURE_CHUNK_SIZE \<equiv> 258"
abbreviation (input) SIGNATURE_LAST_CHUNK_SIZE :: nat where "SIGNATURE_LAST_CHUNK_SIZE \<equiv> 241"
abbreviation (input) PK_CHUNK_SIZE :: nat where "PK_CHUNK_SIZE \<equiv> 258"
abbreviation (input) PK_LAST_CHUNK_SIZE :: nat where "PK_LAST_CHUNK_SIZE \<equiv> 12"
abbreviation (input) PK_CHUNKS :: nat where "PK_CHUNKS \<equiv> 11"

datatype state_e = STATE_NONE | STATE_PARSED | STATE_APPROVED

datatype request_type_e = CONFIRM_ADDRESS | CONFIRM_TRANSACTION

text \<open>\<open>raw_tx_len\<close> never exceeds 510, so a natural number stands for the \<open>size_t\<close>.  The other member of the union, \<open>pk_info\<close>, is not used.\<close>

record transaction_ctx =
  raw_tx :: "byte list"
  raw_tx_len :: nat
  m_hash :: "byte list"

record global_ctx =
  state :: state_e
  tx_info :: transaction_ctx
  req_type :: request_type_e
  bip32_path :: "u32 list"
  bip32_path_len :: byte
  address :: "byte list"

text \<open>\<open>explicit_bzero(&G_context, sizeof(G_context))\<close>.\<close>

definition ctx_cleared :: "sdk \<Rightarrow> global_ctx" where
  "ctx_cleared sdk = \<lparr>
     state = STATE_NONE,
     tx_info = \<lparr>raw_tx = replicate MAX_TRANSACTION_LEN 0, raw_tx_len = 0, m_hash = replicate 32 0\<rparr>,
     req_type = CONFIRM_ADDRESS,
     bip32_path = replicate (max_bip32_path sdk) 0, bip32_path_len = 0,
     address = replicate ADDRESS_SIZE 0\<rparr>"

text \<open>
  The screens.  A review holds the texts as they are when it starts; the flag says that it is the
  blind-signing flow, with the SDK's warning.
\<close>

datatype status_page = TRANSACTION_SIGNED | TRANSACTION_REJECTED | ADDRESS_VERIFIED | ADDRESS_REJECTED

datatype screen =
  Home
| Spinner string
| Review_address string
| Review_transaction bool "(string \<times> string) list"
| Status status_page

record device =
  G_context :: global_ctx
  N_storage :: nvm
  screen :: screen
  switches :: "byte list"
  sent :: "response list"

text \<open>Updates of one field of the context.\<close>

definition set_ctx :: "(global_ctx \<Rightarrow> global_ctx) \<Rightarrow> device \<Rightarrow> device" where
  "set_ctx f d = d\<lparr>G_context := f (G_context d)\<rparr>"

definition set_nvm :: "(nvm \<Rightarrow> nvm) \<Rightarrow> device \<Rightarrow> device" where
  "set_nvm f d = d\<lparr>N_storage := f (N_storage d)\<rparr>"

definition current_path :: "device \<Rightarrow> u32 list" where
  "current_path d = take (unat (bip32_path_len (G_context d))) (bip32_path (G_context d))"

subsection \<open>Responses\<close>

definition io_send_response_pointer :: "sdk \<Rightarrow> byte list \<Rightarrow> 16 word \<Rightarrow> device \<Rightarrow> device \<times> int" where
  "io_send_response_pointer sdk bytes w d = (d\<lparr>sent := sent d @ [Response bytes w]\<rparr>, io_result sdk (Response bytes w))"

definition io_send_sw :: "sdk \<Rightarrow> 16 word \<Rightarrow> device \<Rightarrow> device \<times> int" where
  "io_send_sw sdk w d = io_send_response_pointer sdk [] w d"

definition helper_send_response_address :: "sdk \<Rightarrow> device \<Rightarrow> device \<times> int" where
  "helper_send_response_address sdk d =
     (let resp = of_char (CHR ''Q'') # take ADDRESS_SIZE (address (G_context d))
      in io_send_response_pointer sdk resp SW_OK d)"

definition helper_send_response_sig :: "sdk \<Rightarrow> byte \<Rightarrow> device \<Rightarrow> device \<times> int" where
  "helper_send_response_sig sdk index d =
     (let n = (if index < 17 then SIGNATURE_CHUNK_SIZE else SIGNATURE_LAST_CHUNK_SIZE);
          resp = map (\<lambda>i. nv_sig (N_storage d) ! (i + unat index * SIGNATURE_CHUNK_SIZE)) [0..<n];
          (d, ret) = io_send_response_pointer sdk resp SW_OK d;
          d = (if index = 0 then set_nvm (\<lambda>s. s\<lparr>is_sending_signature := 1\<rparr>) d
               else if index = 17 then set_nvm (\<lambda>s. s\<lparr>is_sending_signature := 0\<rparr>) d
               else d)
      in (d, 0))"

definition helper_send_response_pk_chunk :: "sdk \<Rightarrow> byte \<Rightarrow> device \<Rightarrow> device \<times> int" where
  "helper_send_response_pk_chunk sdk index d =
     (if unat index \<ge> PK_CHUNKS then io_send_sw sdk SW_WRONG_DATA_LENGTH d
      else
        (let chunk_size = (if unat index < PK_CHUNKS - 1 then PK_CHUNK_SIZE else PK_LAST_CHUNK_SIZE);
             resp = map (\<lambda>i. nv_pk (N_storage d) ! (i + unat index * PK_CHUNK_SIZE)) [0..<chunk_size];
             (d, ret) = io_send_response_pointer sdk resp SW_OK d
         in (d, 0)))"

subsection \<open>Review of an address\<close>

text \<open>\<open>address_from_bip32_path\<close> on the device: it shows a spinner between the derivation and the key generation.\<close>

definition context_address :: "sdk \<Rightarrow> device \<Rightarrow> (device \<times> (u32 + byte list)) option" where
  "context_address sdk d =
     (case address_from_bip32_path (os_derive_bip32_no_throw sdk) (current_path d) (N_storage d) of
        None \<Rightarrow> None
      | Some (s, Inl err) \<Rightarrow> Some (d\<lparr>N_storage := s\<rparr>, Inl err)
      | Some (s, Inr a) \<Rightarrow>
          Some (set_ctx (\<lambda>c. c\<lparr>address := a\<rparr>) (d\<lparr>N_storage := s, screen := Spinner ''Getting address''\<rparr>), Inr a))"

definition ui_display_address :: "sdk \<Rightarrow> device \<Rightarrow> device \<times> int" where
  "ui_display_address sdk d =
     (if req_type (G_context d) \<noteq> CONFIRM_ADDRESS \<or> state (G_context d) \<noteq> STATE_NONE
      then io_send_sw sdk SW_BAD_STATE (set_ctx (\<lambda>c. c\<lparr>state := STATE_NONE\<rparr>) d)
      else case format_checksummed_address (address (G_context d)) (1 + ADDRESS_SIZE * 2 + 1) of
        None \<Rightarrow> io_send_sw sdk SW_DISPLAY_ADDRESS_FAIL d
      | Some g_address \<Rightarrow> (d\<lparr>screen := Review_address g_address\<rparr>, 0))"

definition validate_pubkey :: "sdk \<Rightarrow> bool \<Rightarrow> device \<Rightarrow> device" where
  "validate_pubkey sdk choice d =
     (if choice then fst (helper_send_response_address sdk d) else fst (io_send_sw sdk SW_DENY d))"

text \<open>\<open>review_choice\<close> of \<open>nbgl_display_address.c\<close>.\<close>

definition address_review_choice :: "sdk \<Rightarrow> bool \<Rightarrow> device \<Rightarrow> device" where
  "address_review_choice sdk confirm d =
     (let d = validate_pubkey sdk confirm d
      in if confirm then d\<lparr>screen := Status ADDRESS_VERIFIED\<rparr> else d\<lparr>screen := Status ADDRESS_REJECTED\<rparr>)"

subsection \<open>Review of a transaction\<close>

definition bytes_to_lower_hex :: "byte list \<Rightarrow> string" where
  "bytes_to_lower_hex bytes = concat (map (\<lambda>b. [hexc ! unat (drop_bit 4 b), hexc ! unat (b AND 0x0F)]) bytes)"

text \<open>\<open>snprintf\<close> of \<open>"QRL %s"\<close> into a buffer of \<open>TX_FORMAT_MAX_AMOUNT_LEN + 5\<close> bytes.\<close>

definition qrl_text :: "string \<Rightarrow> string" where
  "qrl_text amount = take (TX_FORMAT_MAX_AMOUNT_LEN + 5 - 1) (''QRL '' @ amount)"

text \<open>
  The texts of the review, or the status word of the first formatting step that fails.  \<open>from\<close> is the derived
  address and \<open>s\<close> the storage with the display settings.
\<close>

definition review_pairs :: "byte list \<Rightarrow> byte list \<Rightarrow> nvm \<Rightarrow> zond_tx \<Rightarrow> 16 word + (string \<times> string) list" where
  "review_pairs from hash s tx =
     (case format_checksummed_address from (1 + ADDRESS_SIZE * 2 + 1) of None \<Rightarrow> Inl SW_DISPLAY_ADDRESS_FAIL | Some g_from_address \<Rightarrow>
      case format_qrl_amount (take (unat (value_len tx)) (tx_value tx)) TX_FORMAT_MAX_AMOUNT_LEN of None \<Rightarrow> Inl SW_DISPLAY_AMOUNT_FAIL | Some amount \<Rightarrow>
      case format_checksummed_address (to_addr tx) (1 + ADDRESS_SIZE * 2 + 1) of None \<Rightarrow> Inl SW_DISPLAY_ADDRESS_FAIL | Some g_to_address \<Rightarrow>
      case multiply_uint8_arrays (take (unat (gas_fee_cap_len tx)) (gas_fee_cap tx)) (take (unat (gas_len tx)) (gas tx))
        TX_FORMAT_MAX_INTEGER_BYTES of None \<Rightarrow> Inl SW_DISPLAY_AMOUNT_FAIL | Some fee_product \<Rightarrow>
      case format_qrl_amount fee_product TX_FORMAT_MAX_AMOUNT_LEN of None \<Rightarrow> Inl SW_DISPLAY_AMOUNT_FAIL | Some max_fees \<Rightarrow>
      case uint8_array_to_decimal (take (unat (chain_id_len tx)) (chain_id tx)) (TX_FORMAT_MAX_DECIMAL_DIGITS + 1)
        of None \<Rightarrow> Inl SW_DISPLAY_AMOUNT_FAIL | Some g_chain_id \<Rightarrow>
      case uint8_array_to_decimal (take (unat (gas_len tx)) (gas tx)) 21 of None \<Rightarrow> Inl SW_DISPLAY_AMOUNT_FAIL | Some g_gas_limit \<Rightarrow>
      case format_qrl_amount (take (unat (gas_tip_cap_len tx)) (gas_tip_cap tx)) TX_FORMAT_MAX_AMOUNT_LEN of
        None \<Rightarrow> Inl SW_DISPLAY_AMOUNT_FAIL | Some tip \<Rightarrow>
      let pairs = [(''From'', g_from_address), (''Amount'', qrl_text amount), (''To'', g_to_address), (''Chain ID'', g_chain_id),
                   (''Gas limit'', g_gas_limit), (''Priority fee / gas'', qrl_text tip), (''Max fees'', qrl_text max_fees)];
          hash_pair = (if display_tx_hash s \<noteq> 0 then [(''Transaction hash'', bytes_to_lower_hex (take 32 hash))] else [])
      in if display_nonce s \<noteq> 0
         then (case uint8_array_to_decimal (take (unat (nonce_len tx)) (nonce tx)) 21 of
                 None \<Rightarrow> Inl SW_DISPLAY_AMOUNT_FAIL
               | Some g_nonce \<Rightarrow> Inr (pairs @ [(''Nonce'', g_nonce)] @ hash_pair))
         else Inr (pairs @ hash_pair))"

definition ui_display_transaction_bs_choice :: "sdk \<Rightarrow> bool \<Rightarrow> zond_tx \<Rightarrow> device \<Rightarrow> (device \<times> int) option" where
  "ui_display_transaction_bs_choice sdk is_blind_signed tx d =
     (if req_type (G_context d) \<noteq> CONFIRM_TRANSACTION \<or> state (G_context d) \<noteq> STATE_PARSED
      then Some (io_send_sw sdk SW_BAD_STATE (set_ctx (\<lambda>c. c\<lparr>state := STATE_NONE\<rparr>) d))
      else
        (let d = d\<lparr>screen := Spinner ''Getting address''\<rparr>
         in case context_address sdk d of
              None \<Rightarrow> None
            | Some (d, Inl err) \<Rightarrow> Some (io_send_sw sdk SW_DISPLAY_ADDRESS_FAIL d)
            | Some (d, Inr from) \<Rightarrow>
                (case review_pairs from (m_hash (tx_info (G_context d))) (N_storage d) tx of
                   Inl w \<Rightarrow> Some (io_send_sw sdk w d)
                 | Inr pairs \<Rightarrow> Some (d\<lparr>screen := Review_transaction is_blind_signed pairs\<rparr>, 0))))"

definition ui_display_transaction :: "sdk \<Rightarrow> zond_tx \<Rightarrow> device \<Rightarrow> (device \<times> int) option" where
  "ui_display_transaction sdk tx d = ui_display_transaction_bs_choice sdk False tx d"

subsection \<open>Approval\<close>

text \<open>\<open>rnd\<close> is what \<open>cx_rng\<close> gives while signing.\<close>

definition crypto_sign_message :: "sdk \<Rightarrow> byte list \<Rightarrow> device \<Rightarrow> (device \<times> int) option" where
  "crypto_sign_message sdk rnd d =
     (case crypto_sign_optimized (os_derive_bip32_no_throw sdk) (current_path d) (m_hash (tx_info (G_context d))) rnd (N_storage d) of
        None \<Rightarrow> None
      | Some (s, error) \<Rightarrow>
          if error \<noteq> Code ERR_NONE then Some (d\<lparr>N_storage := wipe_nvm_secrets s\<rparr>, - 1)
          else
            (case crypto_verify_optimized (os_derive_bip32_no_throw sdk) (current_path d) (nv_sig s) (m_hash (tx_info (G_context d))) s of
               None \<Rightarrow> None
             | Some (s, error, is_verified) \<Rightarrow>
                 let d = d\<lparr>N_storage := wipe_nvm_secrets s\<rparr>
                 in if error \<noteq> Code ERR_NONE \<or> \<not> is_verified then Some (d, - 1) else Some (d, 0)))"

definition validate_transaction :: "sdk \<Rightarrow> bool \<Rightarrow> byte list \<Rightarrow> device \<Rightarrow> device option" where
  "validate_transaction sdk choice rnd d =
     (if choice then
        (let d = set_ctx (\<lambda>c. c\<lparr>state := STATE_APPROVED\<rparr>) d
         in case crypto_sign_message sdk rnd d of
              None \<Rightarrow> None
            | Some (d, ret) \<Rightarrow>
                if ret \<noteq> 0 then Some (fst (io_send_sw sdk SW_SIGNATURE_FAIL (set_ctx (\<lambda>c. c\<lparr>state := STATE_NONE\<rparr>) d)))
                else Some (fst (helper_send_response_sig sdk 0 d)))
      else Some (fst (io_send_sw sdk SW_DENY (set_ctx (\<lambda>c. c\<lparr>state := STATE_NONE\<rparr>) d))))"

text \<open>\<open>review_choice\<close> of \<open>nbgl_display_transaction.c\<close>.\<close>

definition review_choice :: "sdk \<Rightarrow> bool \<Rightarrow> byte list \<Rightarrow> device \<Rightarrow> device option" where
  "review_choice sdk confirm rnd d =
     (if confirm then
        (case validate_transaction sdk True rnd (d\<lparr>screen := Spinner ''Signing''\<rparr>) of
           None \<Rightarrow> None
         | Some d \<Rightarrow> Some (d\<lparr>screen := Status TRANSACTION_SIGNED\<rparr>))
      else
        (case validate_transaction sdk False rnd d of
           None \<Rightarrow> None
         | Some d \<Rightarrow> Some (d\<lparr>screen := Status TRANSACTION_REJECTED\<rparr>)))"

subsection \<open>Handlers\<close>

text \<open>The version and the name come from the \<open>Makefile\<close>.\<close>

definition handler_get_version :: "sdk \<Rightarrow> device \<Rightarrow> device \<times> int" where
  "handler_get_version sdk d = io_send_response_pointer sdk [2, 2, 2] SW_OK d"

definition handler_get_app_name :: "sdk \<Rightarrow> device \<Rightarrow> device \<times> int" where
  "handler_get_app_name sdk d = io_send_response_pointer sdk (map of_char ''QRL v2.0'') SW_OK d"

text \<open>
  How both handlers start a request: clear the context, set the type of the request and read the path.  The
  flag is \<open>False\<close> where they answer \<open>SW_WRONG_DATA_LENGTH\<close>.
\<close>

definition start_request :: "sdk \<Rightarrow> request_type_e \<Rightarrow> buffer \<Rightarrow> device \<Rightarrow> device \<times> bool" where
  "start_request sdk req cdata d =
     (let d = d\<lparr>G_context := (ctx_cleared sdk)\<lparr>req_type := req, state := STATE_NONE\<rparr>\<rparr>;
          (ok, len, cdata) = buffer_read_u8 sdk cdata;
          d = set_ctx (\<lambda>c. c\<lparr>bip32_path_len := len\<rparr>) d
      in if \<not> ok then (d, False)
         else
           (let (ok, path, cdata) = buffer_read_bip32_path sdk cdata (bip32_path (G_context d)) (unat len);
                d = set_ctx (\<lambda>c. c\<lparr>bip32_path := path\<rparr>) d
            in if \<not> ok then (d, False)
               else if \<not> is_valid_zond_bip32_path path (unat len) then (d, False)
               else (d, True)))"

definition handler_get_public_key :: "sdk \<Rightarrow> buffer \<Rightarrow> bool \<Rightarrow> device \<Rightarrow> (device \<times> int) option" where
  "handler_get_public_key sdk cdata display d =
     (let (d, ok) = start_request sdk CONFIRM_ADDRESS cdata d
      in if \<not> ok then Some (io_send_sw sdk SW_WRONG_DATA_LENGTH d)
         else case context_address sdk d of
           None \<Rightarrow> None
         | Some (d, Inl error) \<Rightarrow> Some (io_send_sw sdk (ucast error) d)
         | Some (d, Inr a) \<Rightarrow>
             if display then Some (ui_display_address sdk d) else Some (helper_send_response_address sdk d))"

definition handler_get_public_key_chunk :: "sdk \<Rightarrow> byte \<Rightarrow> device \<Rightarrow> device \<times> int" where
  "handler_get_public_key_chunk sdk chunk_index d = helper_send_response_pk_chunk sdk chunk_index d"

text \<open>The part the branches \<open>p1 == 1\<close> and \<open>p1 == 2 && p2 == 0\<close> share: append a chunk to the transaction, or the status word of the refusal.\<close>

definition receive_chunk :: "sdk \<Rightarrow> buffer \<Rightarrow> device \<Rightarrow> device \<times> 16 word option" where
  "receive_chunk sdk cdata d =
     (if req_type (G_context d) \<noteq> CONFIRM_TRANSACTION then (d, Some SW_BAD_STATE)
      else
        (let t = tx_info (G_context d)
         in if raw_tx_len t + buf_size cdata > MAX_TRANSACTION_LEN then (d, Some SW_WRONG_TX_LENGTH)
            else
              (let (ok, bytes, cdata') = buffer_move sdk cdata (buf_size cdata);
                   t = t\<lparr>raw_tx := write_at (raw_tx_len t) bytes (raw_tx t)\<rparr>
               in if \<not> ok then (set_ctx (\<lambda>c. c\<lparr>tx_info := t\<rparr>) d, Some SW_TX_PARSING_FAIL)
                  else (set_ctx (\<lambda>c. c\<lparr>tx_info := t\<lparr>raw_tx_len := raw_tx_len t + buf_size cdata\<rparr>\<rparr>) d, None))))"

definition received_tx :: "device \<Rightarrow> byte list" where
  "received_tx d = take (raw_tx_len (tx_info (G_context d))) (raw_tx (tx_info (G_context d)))"

definition keccak256 :: "byte list \<Rightarrow> byte list" where
  "keccak256 m = fst (keccak256_squeeze (keccak256_finalize (keccak256_absorb keccak256_init m)))"

text \<open>The state after the last chunk: \<open>STATE_PARSED\<close>, and the hash of all received bytes.\<close>

definition hash_tx :: "device \<Rightarrow> device" where
  "hash_tx d =
     (let d = set_ctx (\<lambda>c. c\<lparr>state := STATE_PARSED\<rparr>) d
      in set_ctx (\<lambda>c. c\<lparr>tx_info := (tx_info c)\<lparr>m_hash := keccak256 (received_tx d)\<rparr>\<rparr>) d)"

text \<open>\<open>Bad\<close>, a read outside the received bytes, would be undefined behaviour; it does not occur.\<close>

definition handler_sign_tx :: "sdk \<Rightarrow> buffer \<Rightarrow> byte \<Rightarrow> byte \<Rightarrow> device \<Rightarrow> (device \<times> int) option" where
  "handler_sign_tx sdk cdata p1 p2 d =
     (if p1 = 0 then
        (let (d, ok) = start_request sdk CONFIRM_TRANSACTION cdata d
         in if \<not> ok then Some (io_send_sw sdk SW_WRONG_DATA_LENGTH d) else Some (io_send_sw sdk SW_OK d))
      else if p1 = 1 then
        (case receive_chunk sdk cdata d of
           (d, Some w) \<Rightarrow> Some (io_send_sw sdk w d)
         | (d, None) \<Rightarrow> Some (io_send_sw sdk SW_OK d))
      else if p1 = 2 \<and> p2 = 0 then
        (case receive_chunk sdk cdata d of
           (d, Some w) \<Rightarrow> Some (io_send_sw sdk w d)
         | (d, None) \<Rightarrow>
             (let d = hash_tx d
              in case decode_ledger_tx (received_tx d) tx_zero of
                   Bad \<Rightarrow> None
                 | Fail tx \<Rightarrow> Some (io_send_sw sdk SW_TX_PARSING_FAIL d)
                 | Go tx p n \<Rightarrow>
                     let blind = (has_data tx \<or> has_access_list tx)
                     in if blind \<and> enable_blind_signing (N_storage d) = 0 then Some (io_send_sw sdk SW_DENY d)
                        else ui_display_transaction_bs_choice sdk blind tx d))
      else if p1 = 2 \<and> p2 > 0 \<and> p2 < 18 then
        (if req_type (G_context d) \<noteq> CONFIRM_TRANSACTION then Some (io_send_sw sdk SW_BAD_STATE d)
         else if is_sending_signature (N_storage d) \<noteq> 0 then Some (helper_send_response_sig sdk p2 d)
         else Some (io_send_sw sdk SW_BAD_STATE d))
      else Some (io_send_sw sdk SW_WRONG_P1P2 d))"

subsection \<open>The dispatcher\<close>

definition apdu_dispatcher :: "sdk \<Rightarrow> command \<Rightarrow> device \<Rightarrow> (device \<times> int) option" where
  "apdu_dispatcher sdk cmd d =
     (let buf = \<lparr>buf_ptr = cmd_data cmd, buf_size = unat (cmd_lc cmd), buf_offset = 0\<rparr>
      in if cmd_cla cmd \<noteq> CLA then Some (io_send_sw sdk SW_CLA_NOT_SUPPORTED d)
         else if cmd_ins cmd = GET_VERSION then
           (if cmd_p1 cmd \<noteq> 0 \<or> cmd_p2 cmd \<noteq> 0 then Some (io_send_sw sdk SW_WRONG_P1P2 d) else Some (handler_get_version sdk d))
         else if cmd_ins cmd = GET_APP_NAME then
           (if cmd_p1 cmd \<noteq> 0 \<or> cmd_p2 cmd \<noteq> 0 then Some (io_send_sw sdk SW_WRONG_P1P2 d) else Some (handler_get_app_name sdk d))
         else if cmd_ins cmd = GET_PUBLIC_KEY then
           (if cmd_p1 cmd > 1 \<or> cmd_p2 cmd > 11 then Some (io_send_sw sdk SW_WRONG_P1P2 d)
            else if cmd_p2 cmd > 0 then Some (handler_get_public_key_chunk sdk (cmd_p2 cmd - 1) d)
            else if cmd_data cmd = None then Some (io_send_sw sdk SW_WRONG_DATA_LENGTH d)
            else handler_get_public_key sdk buf (cmd_p1 cmd \<noteq> 0) d)
         else if cmd_ins cmd = SIGN_TX then
           (if (cmd_p1 cmd \<noteq> 0 \<and> cmd_p1 cmd \<noteq> 1 \<and> cmd_p1 cmd \<noteq> 2) \<or> cmd_p2 cmd > 17 then Some (io_send_sw sdk SW_WRONG_P1P2 d)
            else if cmd_data cmd = None \<and> cmd_p2 cmd = 0 then Some (io_send_sw sdk SW_WRONG_DATA_LENGTH d)
            else handler_sign_tx sdk buf (cmd_p1 cmd) (cmd_p2 cmd) d)
         else Some (io_send_sw sdk SW_INS_NOT_SUPPORTED d))"

subsection \<open>The menu and the main loop\<close>

datatype setting = BLIND_SIGNING_SWITCH | NONCE_SWITCH | TX_HASH_SWITCH

definition negate :: "byte \<Rightarrow> byte" where
  "negate b = (if b = 0 then 1 else 0)"

definition controls_callback :: "setting \<Rightarrow> device \<Rightarrow> device" where
  "controls_callback token d =
     (let s = N_storage d in
      case token of
        BLIND_SIGNING_SWITCH \<Rightarrow>
          d\<lparr>switches := (switches d)[0 := negate (enable_blind_signing s)],
            N_storage := s\<lparr>enable_blind_signing := negate (enable_blind_signing s)\<rparr>\<rparr>
      | NONCE_SWITCH \<Rightarrow>
          d\<lparr>switches := (switches d)[1 := negate (display_nonce s)],
            N_storage := s\<lparr>display_nonce := negate (display_nonce s)\<rparr>\<rparr>
      | TX_HASH_SWITCH \<Rightarrow>
          d\<lparr>switches := (switches d)[2 := negate (display_tx_hash s)],
            N_storage := s\<lparr>display_tx_hash := negate (display_tx_hash s)\<rparr>\<rparr>)"

definition ui_menu_main :: "device \<Rightarrow> device" where
  "ui_menu_main d =
     d\<lparr>switches := [enable_blind_signing (N_storage d), display_nonce (N_storage d), display_tx_hash (N_storage d)],
       screen := Home\<rparr>"

text \<open>\<open>app_main\<close> before its loop, on the storage an earlier run has left.\<close>

definition app_start :: "sdk \<Rightarrow> nvm \<Rightarrow> device" where
  "app_start sdk s =
     (let d = \<lparr>G_context = ctx_cleared sdk, N_storage = wipe_nvm_secrets s, screen = Home, switches = [0, 0, 0], sent = []\<rparr>;
          d = ui_menu_main d
      in d\<lparr>G_context := ctx_cleared sdk\<rparr>)"

text \<open>One pass of the loop on received bytes; the flag is \<open>False\<close> if \<open>app_main\<close> returns.\<close>

definition app_step :: "sdk \<Rightarrow> byte list \<Rightarrow> device \<Rightarrow> (device \<times> bool) option" where
  "app_step sdk input d =
     (case apdu_parser sdk input of
        None \<Rightarrow> Some (fst (io_send_sw sdk SW_WRONG_DATA_LENGTH d), True)
      | Some cmd \<Rightarrow>
          (case apdu_dispatcher sdk cmd d of
             None \<Rightarrow> None
           | Some (d, ret) \<Rightarrow> Some (d, \<not> ret < 0)))"

subsection \<open>Runs of the device\<close>

text \<open>
  What can happen to the device: bytes from the host, a choice on a review, a switch of a setting, the
  end of a status page, and a restart, which keeps only \<open>N_storage\<close>.  Bytes may arrive at any time, also while a command is
  unanswered.  Whether the transport of the SDK delivers them then is not stated in this repository: the relation allows every
  behaviour of it, and what is proved of all runs holds for those that can occur.
\<close>

datatype event =
  Receive "byte list"
| Choice bool "byte list"
| Toggle setting
| Dismiss
| Restart

inductive step :: "sdk \<Rightarrow> device \<Rightarrow> event \<Rightarrow> device \<Rightarrow> bool" for sdk where
  receive: "app_step sdk input d = Some (d', True) \<Longrightarrow> step sdk d (Receive input) d'"
| choice_transaction: "screen d = Review_transaction blind pairs \<Longrightarrow> review_choice sdk confirm rnd d = Some d' \<Longrightarrow>
    step sdk d (Choice confirm rnd) d'"
| choice_address: "screen d = Review_address text \<Longrightarrow> step sdk d (Choice confirm rnd) (address_review_choice sdk confirm d)"
| toggle: "screen d = Home \<Longrightarrow> step sdk d (Toggle token) (controls_callback token d)"
| dismiss: "screen d = Status page \<Longrightarrow> step sdk d Dismiss (ui_menu_main d)"
| restart: "step sdk d Restart (app_start sdk (N_storage d))"

inductive_cases stepE: "step sdk d evt d'"

inductive reachable :: "sdk \<Rightarrow> nvm \<Rightarrow> device \<Rightarrow> bool" for sdk s where
  start: "reachable sdk s (app_start sdk s)"
| extend: "reachable sdk s d \<Longrightarrow> step sdk d evt d' \<Longrightarrow> reachable sdk s d'"

end
