(* ===== verification/Sig_Codec.thy ===== *)
theory Sig_Codec
  imports Sign
begin

text \<open>
  The byte formats of \<open>sign.c\<close>: the public key, the signature with its hint encoding, the view
  \<open>buf_verify\<close> of the union \<open>pack1\<close>, and the wiping of secrets.  The main result is that
  \<open>unpack_sig_volatile\<close> inverts \<open>pack_sig_volatile\<close> on everything the signer can produce and refuses every
  hint encoding that is not canonical.
\<close>

subsection \<open>Writing consecutive blocks\<close>

lemma write_blocks:
  assumes "\<And>i. i < m \<Longrightarrow> length (f i) = n" "base + m * n \<le> length old"
  shows "fold (\<lambda>i. write_at (base + i * n) (f i)) [0..<m] old =
    take base old @ concat (map f [0..<m]) @ drop (base + m * n) old"
  using assms
proof (induction m)
  case (Suc m)
  have len: "length (concat (map f [0..<m])) = m * n" using Suc.prems(1) by (intro length_concat_map_const) simp
  have "fold (\<lambda>i. write_at (base + i * n) (f i)) [0..<Suc m] old =
      write_at (base + m * n) (f m) (take base old @ concat (map f [0..<m]) @ drop (base + m * n) old)"
    using Suc by simp
  also have "\<dots> = (take base old @ concat (map f [0..<m])) @ f m @ drop (base + Suc m * n) old"
    using Suc.prems len by (simp add: write_at_def algebra_simps)
  finally show ?case by simp
qed simp

lemma pack_pk_eq:
  assumes "length rho = 32" "length pk = 2592"
  shows "pack_pk_volatile rho t1 pk = rho @ concat (map (\<lambda>b. poly_t1_pack (t1 ! b)) [0..<8])"
proof -
  have "length (write_at 0 rho pk) = 2592" using assms by simp
  with write_blocks [of 8 "\<lambda>b. poly_t1_pack (t1 ! b)" 320 32 "write_at 0 rho pk"] show ?thesis
    using assms by (simp add: pack_pk_volatile_def write_at_def)
qed

lemma pack_w1_eq:
  assumes "1024 \<le> length r"
  shows "poly_vec_k_pack_w1_volatile w1 r = concat (map (\<lambda>i. poly_w1_pack (w1 ! i)) [0..<8]) @ drop 1024 r"
    "poly_vec_k_pack_w1_volatile_verify w1 r = concat (map (\<lambda>i. poly_w1_pack (w1 ! i)) [0..<8]) @ drop 1024 r"
  using write_blocks [of 8 "\<lambda>i. poly_w1_pack (w1 ! i)" 128 0 r] assms
  by (simp_all add: poly_vec_k_pack_w1_volatile_def poly_vec_k_pack_w1_volatile_verify_def)

lemma length_w1_bytes: "length (concat (map (\<lambda>i. poly_w1_pack (w1 ! i)) [0..<8])) = 1024"
  using length_concat_map_const [of 8 "\<lambda>i. poly_w1_pack (w1 ! i)" 128] by simp

lemma length_z_bytes: "length (concat (map (\<lambda>b. poly_z_pack (z ! b)) [0..<7])) = 4480"
  using length_concat_map_const [of 7 "\<lambda>b. poly_z_pack (z ! b)" 640] by simp

subsection \<open>The union pack1\<close>

lemma le32_up_pk: "length c = 1 \<Longrightarrow> - 2147483648 \<le> c ! 0 \<Longrightarrow> c ! 0 < 2147483648 \<Longrightarrow> le32_int (le32_bytes c) = c"
proof -
  assume a: "length c = 1" "- 2147483648 \<le> c ! 0" "c ! 0 < 2147483648"
  then obtain x where c: "c = [x]" by (auto simp: length_Suc_conv)
  have "i32 (take_bit 8 x OR push_bit 8 (take_bit 8 (asr x 8)) OR push_bit 16 (take_bit 8 (asr x 16))
      OR push_bit 24 (take_bit 8 (asr x 24))) = i32 x"
  proof (rule bit_eqI)
    fix n :: nat
    consider "n < 8" | "8 \<le> n" "n < 16" | "16 \<le> n" "n < 24" | "24 \<le> n" by linarith
    then show "bit (i32 (take_bit 8 x OR push_bit 8 (take_bit 8 (asr x 8)) OR push_bit 16 (take_bit 8 (asr x 16))
        OR push_bit 24 (take_bit 8 (asr x 24)))) n = bit (i32 x) n"
      unfolding i32_def asr_def by cases (auto simp: bit_simps min_def)
  qed
  with a show ?thesis unfolding c le32_int_def le32_bytes_def by (simp add: uint_byte_of)
qed

lemma le32_pk_up: "length b = 4 \<Longrightarrow> le32_bytes (le32_int b) = b"
proof -
  assume "length b = 4"
  then obtain x y z w where b: "b = [x, y, z, w]" using exhaust4 by blast
  have u: "bit (uint v) n \<longleftrightarrow> bit v n" for v :: byte and n by (simp add: bit_uint_byte)
  show ?thesis
    unfolding b le32_bytes_def le32_int_def i32_def asr_def
    by (auto intro!: bit_word_eqI simp: bit_simps u bit_byte_high)
qed

definition int32_ok :: "int \<Rightarrow> bool" where
  "int32_ok x \<longleftrightarrow> - 2147483648 \<le> x \<and> x < 2147483648"

interpretation le32c: block_codec le32_bytes le32_int int32_ok 1 4
proof
  fix c :: "int list" assume "length c = 1" "list_all int32_ok c"
  then show "le32_int (le32_bytes c) = c" by (intro le32_up_pk) (auto simp: length_Suc_conv int32_ok_def)
qed (auto simp: le32_pk_up, simp_all add: le32_bytes_def le32_int_def int32_ok_def i32_range)

lemma buf_verify_store:
  assumes "length buf = 1024" "t0 \<noteq> []"
  shows "buf_verify (store_buf_verify buf t0) = buf"
  using le32c.encode_decode [of buf 256] assms by (simp add: buf_verify_def store_buf_verify_def)

lemma length_buf_verify: "length (buf_verify t0) = 1024"
  unfolding buf_verify_def by (subst length_encode_blocks [of _ 4]) (simp_all add: le32_bytes_def)

subsection \<open>Encoding the hint\<close>

text \<open>The positions of the ones of row \<open>i\<close>, and of all rows before \<open>m\<close>.\<close>

definition row_pos :: "poly \<Rightarrow> nat list" where
  "row_pos p = filter (\<lambda>j. p ! j \<noteq> 0) [0..<N]"

definition all_pos :: "polyvec \<Rightarrow> nat \<Rightarrow> nat list" where
  "all_pos h m = concat (map (\<lambda>i. row_pos (h ! i)) [0..<m])"

lemma all_pos_0 [simp]: "all_pos h 0 = []" and all_pos_Suc [simp]: "all_pos h (Suc m) = all_pos h m @ row_pos (h ! m)"
  by (simp_all add: all_pos_def)

definition hint_array :: "nat list \<Rightarrow> byte list \<Rightarrow> byte list" where
  "hint_array P cnt = map of_nat P @ replicate (OMEGA - length P) 0 @ cnt"

lemma hint_step_eq:
  assumes "length P + (if h ! i ! j \<noteq> 0 then 1 else 0) \<le> 75" "length cnt = 8" "i < 8"
  shows "hint_step h (i, j) (hint_array P cnt, length P) =
    (let P' = P @ (if h ! i ! j \<noteq> 0 then [j] else []) in (hint_array P' (cnt[i := of_nat (length P')]), length P'))"
proof -
  have c: "(hint_array P' cnt)[75 + i := x] = hint_array P' (cnt[i := x])" if "length P' \<le> 75" for P' x
    using that assms(2,3) by (auto simp: hint_array_def list_update_append)
  have "(hint_array P cnt)[length P := of_nat j] = hint_array (P @ [j]) cnt" if lt: "length P < 75"
  proof -
    obtain d where "75 - length P = Suc d" using lt by (cases "75 - length P") simp_all
    then show ?thesis by (simp add: hint_array_def list_update_append)
  qed
  with c assms(1) show ?thesis by (auto simp: hint_step_def Let_def add.commute)
qed

lemma hint_row_encode:
  assumes "length (P @ filter (\<lambda>j. h ! i ! j \<noteq> 0) js) \<le> 75" "length cnt = 8" "i < 8"
  shows "fold (hint_step h) (map (Pair i) js) (hint_array P cnt, length P) =
    (let P' = P @ filter (\<lambda>j. h ! i ! j \<noteq> 0) js
     in (hint_array P' (if js = [] then cnt else cnt[i := of_nat (length P')]), length P'))"
  using assms
proof (induction js arbitrary: P cnt)
  case (Cons j js)
  let ?P = "P @ (if h ! i ! j \<noteq> 0 then [j] else [])"
  have "length P + (if h ! i ! j \<noteq> 0 then 1 else 0) \<le> 75" using Cons.prems(1) by (auto split: if_splits)
  from hint_step_eq [OF this Cons.prems(2,3)]
  have "fold (hint_step h) (map (Pair i) (j # js)) (hint_array P cnt, length P)
      = fold (hint_step h) (map (Pair i) js) (hint_array ?P (cnt[i := of_nat (length ?P)]), length ?P)"
    by (simp add: Let_def)
  also have "\<dots> = (let P' = ?P @ filter (\<lambda>j. h ! i ! j \<noteq> 0) js
     in (hint_array P' (if js = [] then cnt[i := of_nat (length ?P)] else (cnt[i := of_nat (length ?P)])[i := of_nat (length P')]), length P'))"
    using Cons.prems by (intro Cons.IH) (auto split: if_splits)
  also have "\<dots> = (let P' = P @ filter (\<lambda>j. h ! i ! j \<noteq> 0) (j # js)
     in (hint_array P' (if j # js = [] then cnt else cnt[i := of_nat (length P')]), length P'))"
    by (auto simp: Let_def algebra_simps)
  finally show ?case .
qed simp

lemma hint_rows_encode:
  assumes "m \<le> 8" "length (all_pos h m) \<le> 75"
  shows "fold (hint_step h) (List.product [0..<m] [0..<256]) (replicate 83 0, 0) =
    (hint_array (all_pos h m) (map (\<lambda>i. of_nat (length (all_pos h (Suc i)))) [0..<m] @ replicate (8 - m) 0), length (all_pos h m))"
  using assms
proof (induction m)
  case 0
  have "replicate 83 0 = replicate 75 0 @ replicate 8 (0 :: byte)" by (simp flip: replicate_add)
  then show ?case by (simp add: hint_array_def)
next
  case (Suc m)
  let ?c = "map (\<lambda>i. of_nat (length (all_pos h (Suc i)))) [0..<m] @ replicate (8 - m) (0 :: byte)"
  have p: "List.product [0..<Suc m] [0..<256] = List.product [0..<m] [0..<256] @ map (Pair m) [0..<256]"
    by (simp add: product_concat_map)
  have r: "all_pos h m @ filter (\<lambda>j. h ! m ! j \<noteq> 0) [0..<256] = all_pos h (Suc m)" by (simp add: row_pos_def)
  have upd: "?c[m := x] = map (\<lambda>i. of_nat (length (all_pos h (Suc i)))) [0..<m] @ [x] @ replicate (8 - Suc m) 0" for x
  proof -
    obtain d where "8 - m = Suc d" "8 - Suc m = d" using Suc.prems(1) by (metis Suc_diff_Suc Suc_le_lessD)
    then show ?thesis by (simp add: list_update_append)
  qed
  have "fold (hint_step h) (List.product [0..<Suc m] [0..<256]) (replicate 83 0, 0)
      = fold (hint_step h) (map (Pair m) [0..<256]) (hint_array (all_pos h m) ?c, length (all_pos h m))"
    unfolding p using Suc by (simp del: upt_Suc)
  also have "\<dots> = (hint_array (all_pos h (Suc m)) (?c[m := of_nat (length (all_pos h (Suc m)))]), length (all_pos h (Suc m)))"
    using hint_row_encode [of "all_pos h m" h m "[0..<256]" ?c] Suc.prems unfolding r by (simp add: Let_def del: all_pos_Suc)
  finally show ?case unfolding upd by (simp del: all_pos_Suc)
qed

lemma hint_bytes_eq:
  assumes "length (all_pos h 8) \<le> 75"
  shows "hint_bytes h = hint_array (all_pos h 8) (map (\<lambda>i. of_nat (length (all_pos h (Suc i)))) [0..<8])"
  using hint_rows_encode [of 8 h] assms by (simp add: hint_bytes_def)

subsection \<open>Decoding the hint\<close>

lemma hint_row_ok:
  assumes "\<And>j. k < j \<Longrightarrow> a \<le> j \<Longrightarrow> j < b \<Longrightarrow> hb ! (j - 1) < hb ! j"
  shows "hint_row hb k [a..<b] p = (fold (\<lambda>x p. p[x := 1]) (map (\<lambda>j. unat (hb ! j)) [a..<b]) p, False)"
  using assms
proof (induction "b - a" arbitrary: a p)
  case (Suc d)
  then have ab: "a < b" "[a..<b] = a # [Suc a..<b]" by (simp_all add: upt_conv_Cons)
  have "\<not> (a > k \<and> hb ! a \<le> hb ! (a - 1))" using Suc.prems [of a] ab(1) by auto
  moreover have "hint_row hb k [Suc a..<b] (p[unat (hb ! a) := 1]) =
      (fold (\<lambda>x p. p[x := 1]) (map (\<lambda>j. unat (hb ! j)) [Suc a..<b]) (p[unat (hb ! a) := 1]), False)"
    using Suc.hyps(2) Suc.prems by (intro Suc.hyps(1)) simp_all
  ultimately show ?case unfolding ab(2) by (simp only: hint_row.simps list.map fold_simps if_False o_apply)
qed simp

lemma nth_fold_ones:
  "n < length p \<Longrightarrow> fold (\<lambda>x p. p[x := 1]) xs p ! n = (if n \<in> set xs then 1 else p ! n)"
  "length (fold (\<lambda>x p. p[x := 1]) xs p) = length p" for p :: "int list"
proof -
  have "length (fold (\<lambda>x p. p[x := 1]) xs p) = length p \<and>
      (n < length p \<longrightarrow> fold (\<lambda>x p. p[x := 1]) xs p ! n = (if n \<in> set xs then 1 else p ! n))"
    by (induction xs arbitrary: p) (auto simp: nth_list_update)
  then show "n < length p \<Longrightarrow> fold (\<lambda>x p. p[x := 1]) xs p ! n = (if n \<in> set xs then 1 else p ! n)"
    "length (fold (\<lambda>x p. p[x := 1]) xs p) = length p" by simp_all
qed

definition hint_poly_ok :: "poly \<Rightarrow> bool" where
  "hint_poly_ok p \<longleftrightarrow> length p = N \<and> set p \<subseteq> {0, 1}"

lemma ones_of_row_pos:
  assumes "hint_poly_ok p"
  shows "fold (\<lambda>x p. p[x := 1]) (row_pos p) (replicate 256 0) = p"
proof (rule nth_equalityI)
  show "length (fold (\<lambda>x p. p[x := 1]) (row_pos p) (replicate 256 (0 :: int))) = length p"
    using assms by (simp add: nth_fold_ones(2) hint_poly_ok_def)
  fix n assume "n < length (fold (\<lambda>x p. p[x := 1]) (row_pos p) (replicate 256 (0 :: int)))"
  then have n: "n < 256" by (simp add: nth_fold_ones(2))
  then have "p ! n \<in> {0, 1}" using assms nth_mem [of n p] unfolding hint_poly_ok_def by (metis subsetD)
  then show "fold (\<lambda>x p. p[x := 1]) (row_pos p) (replicate 256 0) ! n = p ! n"
    using n by (auto simp: nth_fold_ones(1) row_pos_def)
qed

lemma row_pos_sorted: "sorted_wrt (<) (row_pos p)" "x \<in> set (row_pos p) \<Longrightarrow> x < 256"
  by (simp_all add: row_pos_def sorted_wrt_filter)

lemma length_all_pos_mono: "i \<le> j \<Longrightarrow> length (all_pos h i) \<le> length (all_pos h j)"
  by (induction j) (auto simp: le_Suc_eq)

lemma all_pos_prefix: "i \<le> j \<Longrightarrow> \<exists>ys. all_pos h j = all_pos h i @ ys"
  by (induction j) (auto simp: le_Suc_eq)

lemma nth_all_pos:
  assumes "i < 8" "length (all_pos h i) \<le> j" "j < length (all_pos h (Suc i))"
  shows "all_pos h 8 ! j = row_pos (h ! i) ! (j - length (all_pos h i))"
proof -
  obtain ys where "all_pos h 8 = all_pos h (Suc i) @ ys" using all_pos_prefix [of "Suc i" 8 h] assms(1) by auto
  with assms(2,3) show ?thesis by (auto simp: nth_append)
qed

lemma hint_array_nth:
  assumes "length P \<le> 75"
  shows "j < length P \<Longrightarrow> hint_array P cnt ! j = of_nat (P ! j)"
    "length P \<le> j \<Longrightarrow> j < 75 \<Longrightarrow> hint_array P cnt ! j = 0"
    "i < length cnt \<Longrightarrow> hint_array P cnt ! (75 + i) = cnt ! i"
  using assms by (auto simp: hint_array_def nth_append)

text \<open>Row by row the decoder reads back what the encoder wrote.\<close>

lemma hint_row_decode:
  assumes "length (all_pos h 8) \<le> 75" "i < 8" "hint_poly_ok (h ! i)"
  shows "hint_row (hint_bytes h) (length (all_pos h i)) [length (all_pos h i)..<length (all_pos h (Suc i))] (replicate 256 0)
    = (h ! i, False)"
proof -
  let ?C = "\<lambda>i. length (all_pos h i)"
  have le: "?C (Suc i) \<le> ?C 8" using assms(2) by (intro length_all_pos_mono) simp
  have hb: "unat (hint_bytes h ! j) = row_pos (h ! i) ! (j - ?C i)" if "?C i \<le> j" "j < ?C (Suc i)" for j
  proof -
    have "hint_bytes h ! j = of_nat (all_pos h 8 ! j)"
      using that le assms(1) by (simp add: hint_bytes_eq hint_array_nth(1))
    also have "all_pos h 8 ! j = row_pos (h ! i) ! (j - ?C i)" using nth_all_pos [OF assms(2) that] .
    finally show ?thesis
      using row_pos_sorted(2) [OF nth_mem, of "j - ?C i" "h ! i"] that by (simp add: unat_of_nat take_bit_nat_eq_self)
  qed
  have "hint_bytes h ! (j - 1) < hint_bytes h ! j" if "?C i < j" "?C i \<le> j" "j < ?C (Suc i)" for j
  proof -
    have "row_pos (h ! i) ! (j - 1 - ?C i) < row_pos (h ! i) ! (j - ?C i)"
      using that by (intro sorted_wrt_nth_less [OF row_pos_sorted(1)]) simp_all
    then show ?thesis using hb [of j] hb [of "j - 1"] that by (simp add: word_less_nat_alt)
  qed
  note r = hint_row_ok [OF this]
  have "map (\<lambda>j. unat (hint_bytes h ! j)) [?C i..<?C (Suc i)] = row_pos (h ! i)"
    using hb by (intro nth_equalityI) simp_all
  then show ?thesis by (simp add: r ones_of_row_pos [OF assms(3)])
qed

lemma hint_rows_decode:
  assumes "length (all_pos h 8) \<le> 75" "length h = 8" "\<And>i. i < 8 \<Longrightarrow> hint_poly_ok (h ! i)" "length h0 = 8" "i \<le> 8"
  shows "hint_rows (hint_bytes h) [i..<8] (length (all_pos h i)) h0 = (take i h0 @ drop i h, Some (length (all_pos h 8)))"
  using assms(4,5)
proof (induction "8 - i" arbitrary: i h0)
  case 0
  then show ?case using assms(2) by simp
next
  case (Suc d)
  let ?C = "\<lambda>i. length (all_pos h i)"
  have i: "i < 8" "[i..<8] = i # [Suc i..<8]" using Suc.hyps(2) by (simp_all add: upt_conv_Cons)
  have le: "?C i \<le> ?C (Suc i)" "?C (Suc i) \<le> ?C 8" using i(1) by (intro length_all_pos_mono; simp)+
  have cnt: "unat (hint_bytes h ! (75 + i)) = ?C (Suc i)"
    using i(1) le assms(1) by (simp add: hint_bytes_eq hint_array_nth(3) unat_of_nat take_bit_nat_eq_self del: all_pos_Suc)
  have "hint_rows (hint_bytes h) [i..<8] (?C i) h0 = hint_rows (hint_bytes h) [Suc i..<8] (?C (Suc i)) (h0[i := h ! i])"
    unfolding i(2) using le assms(1) i(1) Suc.prems(1) hint_row_decode [OF assms(1) i(1) assms(3) [OF i(1)]]
    by (simp add: cnt del: all_pos_Suc)
  also have "\<dots> = (take (Suc i) (h0[i := h ! i]) @ drop (Suc i) h, Some (?C 8))"
    using Suc.hyps(2) i(1) Suc.prems(1) by (intro Suc.hyps(1)) simp_all
  also have "take (Suc i) (h0[i := h ! i]) @ drop (Suc i) h = take i h0 @ drop i h"
    using i(1) Suc.prems(1) assms(2) by (simp add: take_Suc_conv_app_nth Cons_nth_drop_Suc)
  finally show ?case .
qed

subsection \<open>Signatures\<close>

lemma pack_sig_eq:
  assumes "length c = 64" "length sig = 4627" "length (hint_bytes h) = 83"
  shows "pack_sig_volatile sig c z h = c @ concat (map (\<lambda>b. poly_z_pack (z ! b)) [0..<7]) @ hint_bytes h"
proof -
  let ?z = "concat (map (\<lambda>b. poly_z_pack (z ! b)) [0..<7])"
  have "length (write_at 0 c sig) = 4627" using assms by simp
  with write_blocks [of 7 "\<lambda>b. poly_z_pack (z ! b)" 640 64 "write_at 0 c sig"] assms
  have "fold (\<lambda>b. write_at (64 + b * 640) (poly_z_pack (z ! b))) [0..<7] (write_at 0 c sig) = (c @ ?z) @ drop 4544 sig @ []"
    by (simp add: write_at_def)
  moreover have "length (c @ ?z) = 4544" using assms(1) length_z_bytes [of z] by simp
  ultimately show ?thesis
    using assms write_at_append [of "c @ ?z" 4544 "drop 4544 sig" "replicate 83 0" "[]"]
      write_at_append [of "c @ ?z" 4544 "replicate 83 0" "hint_bytes h" "[]"]
    by (simp add: pack_sig_volatile_def)
qed

lemma length_hint_bytes: "length (hint_bytes h) = 83"
proof -
  have "length (fst (fold (hint_step h) ijs (t, k))) = length t" for ijs t k
    by (induction ijs arbitrary: t k) (auto simp: hint_step_def Let_def split: prod.splits if_splits)
  then show ?thesis by (simp add: hint_bytes_def)
qed

lemma z_unpack_prefix: "encode_blocks 128 5 z_unpack2 bs = poly_z_unpack (take 640 bs)"
  unfolding poly_z_unpack_def encode_blocks_def
  by (intro arg_cong [where f = concat] map_cong arg_cong [where f = z_unpack2]) (auto simp: chunk_def drop_take min_def)

definition hint_ok :: "polyvec \<Rightarrow> bool" where
  "hint_ok h \<longleftrightarrow> length h = K \<and> list_all hint_poly_ok h \<and> length (all_pos h K) \<le> OMEGA"

definition z_vec_ok :: "polyvec \<Rightarrow> bool" where
  "z_vec_ok z \<longleftrightarrow> length z = L \<and> list_all (\<lambda>p. length p = N \<and> list_all z_ok p) z"

lemma unpack_pack:
  assumes "length c = 64" "length sig = 4627" "z_vec_ok z" "hint_ok h" "length h0 = 8"
  shows "unpack_sig_volatile (pack_sig_volatile sig c z h) h0 = (c, z, h, 0)"
proof -
  let ?zb = "\<lambda>b. poly_z_pack (z ! b)" and ?C = "\<lambda>i. length (all_pos h i)"
  let ?z = "concat (map ?zb [0..<7])"
  have S: "pack_sig_volatile sig c z h = c @ ?z @ hint_bytes h" by (rule pack_sig_eq [OF assms(1,2) length_hint_bytes])
  have lz: "length ?z = 4480" by (rule length_z_bytes)
  have hb: "drop 4544 (c @ ?z @ hint_bytes h) = hint_bytes h" using assms(1) lz by simp
  have "map (\<lambda>b. encode_blocks 128 5 z_unpack2 (drop (64 + b * 640) (c @ ?z @ hint_bytes h))) [0..<7] = z"
  proof (rule nth_equalityI)
    show "length (map (\<lambda>b. encode_blocks 128 5 z_unpack2 (drop (64 + b * 640) (c @ ?z @ hint_bytes h))) [0..<7]) = length z"
      using assms(3) by (simp add: z_vec_ok_def)
    fix b assume "b < length (map (\<lambda>b. encode_blocks 128 5 z_unpack2 (drop (64 + b * 640) (c @ ?z @ hint_bytes h))) [0..<7])"
    then have b: "b < 7" by simp
    then have "b * 640 + 640 \<le> 4480" by simp
    then have "take 640 (drop (64 + b * 640) (c @ ?z @ hint_bytes h)) = chunk (b * 640) 640 ?z"
      using assms(1) lz by (simp add: chunk_def)
    also have "\<dots> = ?zb b" using b by (intro chunk_concat_map) simp_all
    moreover have "length (z ! b) = 256" "list_all z_ok (z ! b)" using assms(3) b by (auto simp: z_vec_ok_def list_all_length)
    ultimately show "map (\<lambda>b. encode_blocks 128 5 z_unpack2 (drop (64 + b * 640) (c @ ?z @ hint_bytes h))) [0..<7] ! b = z ! b"
      using b by (simp add: z_unpack_prefix z_pack_unpack(1))
  qed
  moreover have "hint_rows (hint_bytes h) [0..<8] 0 h0 = (h, Some (?C 8))"
    using hint_rows_decode [of h h0 0] assms(4,5) by (simp add: hint_ok_def list_all_length)
  moreover have "list_all (\<lambda>j. hint_bytes h ! j = 0) [?C 8..<75]"
    using assms(4) by (auto simp: hint_ok_def hint_bytes_eq list_all_iff hint_array_nth(2))
  ultimately show ?thesis
    unfolding S unpack_sig_volatile_def Let_def using hb assms(1) by (simp del: upt_Suc)
qed

text \<open>A response and a hint with a single one in its last row, for examples.\<close>

definition sample_z :: polyvec where
  "sample_z = replicate 7 (replicate 256 (- 524287))"

definition sample_h :: polyvec where
  "sample_h = replicate 7 (replicate 256 0) @ [1 # replicate 255 0]"

lemma sample_ok: "z_vec_ok sample_z" "hint_ok sample_h"
proof -
  show "z_vec_ok sample_z" by (simp add: sample_z_def z_vec_ok_def list_all_iff z_ok_def)
  have r0: "row_pos (replicate 256 0) = []" by (simp add: row_pos_def)
  have "row_pos (1 # replicate 255 0) = [0]"
    unfolding row_pos_def by (subst upt_conv_Cons) (auto simp: nth_Cons' filter_empty_conv)
  moreover have "sample_h ! 7 = 1 # replicate 255 0" by (simp add: sample_h_def nth_append)
  moreover have "sample_h ! i = replicate 256 0" if "i < 7" for i using that by (simp add: sample_h_def nth_append)
  moreover have "[0..<8] = [0..<7] @ [7]" by (simp add: upt_rec)
  ultimately have "all_pos sample_h 8 = [0]" by (simp add: all_pos_def r0 concat_eq_Nil_conv del: upt_Suc)
  then show "hint_ok sample_h" by (auto simp: hint_ok_def hint_poly_ok_def list_all_iff sample_h_def)
qed

text \<open>
  C34.  A signature survives packing: whatever bytes the buffer held before, \<open>unpack_sig_volatile\<close> returns
  success and exactly the challenge, the response and the hint that \<open>pack_sig_volatile\<close> stored, for
  every response in the range of the format and every hint with at most 75 ones.
\<close>

theorem signature_round_trip:
  assumes "length c = 64" "length sig = 4627" "z_vec_ok z" "hint_ok h" "length h0 = 8"
  shows "length (pack_sig_volatile sig c z h) = 4627
    \<and> unpack_sig_volatile (pack_sig_volatile sig c z h) h0 = (c, z, h, 0)"
  using unpack_pack [OF assms] pack_sig_eq [OF assms(1,2) length_hint_bytes, of z h]
  by (simp add: length_z_bytes length_hint_bytes assms(1))

theorem signature_round_trip_witness:
  "unpack_sig_volatile (pack_sig_volatile (replicate 4627 0x55) (replicate 64 7) sample_z sample_h) (replicate 8 (replicate 256 0))
   = (replicate 64 7, sample_z, sample_h, 0)"
  using signature_round_trip [of "replicate 64 7" "replicate 4627 0x55" sample_z sample_h "replicate 8 (replicate 256 0)"]
    sample_ok by simp

subsection \<open>Only canonical encodings are accepted\<close>

lemma hint_row_increasing:
  assumes "hint_row hb k [a..<b] p = (q, False)" "k < j" "a \<le> j" "j < b"
  shows "hb ! (j - 1) < hb ! j"
  using assms
proof (induction "b - a" arbitrary: a p)
  case (Suc d)
  then have ab: "[a..<b] = a # [Suc a..<b]" by (simp add: upt_conv_Cons)
  from Suc.prems(1) have ok: "\<not> (a > k \<and> hb ! a \<le> hb ! (a - 1))" and rec: "hint_row hb k [Suc a..<b] (p[unat (hb ! a) := 1]) = (q, False)"
    unfolding ab by (auto split: if_splits)
  show ?case
  proof (cases "j = a")
    case True
    with ok Suc.prems(2) show ?thesis by auto
  next
    case False
    with Suc.hyps(1) [OF _ rec Suc.prems(2)] Suc.hyps(2) Suc.prems(3,4) show ?thesis by simp
  qed
qed simp

text \<open>The cumulated counts that the encoding claims.\<close>

definition claimed :: "byte list \<Rightarrow> nat \<Rightarrow> nat" where
  "claimed hb m = (if m = 0 then 0 else unat (hb ! (74 + m)))"

definition claimed_row :: "byte list \<Rightarrow> nat \<Rightarrow> nat list" where
  "claimed_row hb m = map (\<lambda>j. unat (hb ! j)) [claimed hb m..<claimed hb (Suc m)]"

definition row_accepted :: "byte list \<Rightarrow> polyvec \<Rightarrow> nat \<Rightarrow> bool" where
  "row_accepted hb h m \<longleftrightarrow> claimed hb m \<le> claimed hb (Suc m) \<and> claimed hb (Suc m) \<le> OMEGA \<and>
     sorted_wrt (<) (claimed_row hb m) \<and> h ! m = fold (\<lambda>x p. p[x := 1]) (claimed_row hb m) (replicate N 0)"

lemma hint_rows_sound:
  assumes "hint_rows hb [i..<8] (claimed hb i) h0 = (h, Some k)" "length h0 = 8" "i \<le> 8"
  shows "length h = 8 \<and> k = claimed hb 8 \<and> (\<forall>m < i. h ! m = h0 ! m) \<and> (\<forall>m. i \<le> m \<and> m < 8 \<longrightarrow> row_accepted hb h m)"
  using assms
proof (induction "8 - i" arbitrary: i h0)
  case (Suc d)
  then have i: "i < 8" "[i..<8] = i # [Suc i..<8]" by (simp_all add: upt_conv_Cons)
  let ?h = "h0[i := replicate 256 0]" and ?c = "claimed hb (Suc i)"
  have c: "unat (hb ! (75 + i)) = ?c" by (simp add: claimed_def)
  obtain q bad where q: "hint_row hb (claimed hb i) [claimed hb i..<?c] (replicate 256 0) = (q, bad)" by (cases "hint_row hb (claimed hb i) [claimed hb i..<?c] (replicate 256 0)")
  have le: "claimed hb i \<le> ?c" "?c \<le> 75" and nb: "\<not> bad" and rec: "hint_rows hb [Suc i..<8] ?c (h0[i := q]) = (h, Some k)"
    using Suc.prems(1,2) i(1) q unfolding i(2) hint_rows.simps Let_def c by (auto split: if_splits)
  have "length h = 8 \<and> k = claimed hb 8 \<and> (\<forall>m < Suc i. h ! m = h0[i := q] ! m) \<and> (\<forall>m. Suc i \<le> m \<and> m < 8 \<longrightarrow> row_accepted hb h m)"
    using Suc.hyps(2) Suc.prems(2) i(1) by (intro Suc.hyps(1) [OF _ rec]) simp_all
  then have IH: "length h = 8" "k = claimed hb 8" "\<And>m. m < i \<Longrightarrow> h ! m = h0 ! m" "h ! i = q"
    "\<And>m. Suc i \<le> m \<Longrightarrow> m < 8 \<Longrightarrow> row_accepted hb h m" using Suc.prems(2) i(1) by auto
  have inc: "hb ! (j - 1) < hb ! j" if "claimed hb i < j" "claimed hb i \<le> j" "j < ?c" for j
    using hint_row_increasing [OF _ that] q nb by simp
  have "q = fold (\<lambda>x p. p[x := 1]) (claimed_row hb i) (replicate 256 0)"
    using hint_row_ok [OF inc] q by (simp add: claimed_row_def)
  moreover have "sorted_wrt (<) (claimed_row hb i)"
  proof -
    have "unat (hb ! (claimed hb i + n)) < unat (hb ! (claimed hb i + Suc n))" if "claimed hb i + Suc n < ?c" for n
      using inc [of "claimed hb i + Suc n"] that by (simp add: word_less_nat_alt)
    then show ?thesis unfolding claimed_row_def by (auto simp: sorted_wrt_iff_nth_Suc_transp)
  qed
  ultimately have "row_accepted hb h i" using IH(4) le by (simp add: row_accepted_def)
  then have "row_accepted hb h m" if "i \<le> m" "m < 8" for m using IH(5) [of m] that by (cases "m = i") simp_all
  with IH show ?case by simp
qed auto

lemma row_pos_fold:
  assumes "sorted_wrt (<) xs" "\<And>x. x \<in> set xs \<Longrightarrow> x < 256"
  shows "row_pos (fold (\<lambda>x p. p[x := 1]) xs (replicate 256 0)) = xs"
proof (rule strict_sorted_equal)
  show "set (row_pos (fold (\<lambda>x p. p[x := 1]) xs (replicate 256 0))) = set xs"
    using assms(2) by (auto simp: row_pos_def nth_fold_ones(1) split: if_splits)
qed (use assms(1) row_pos_sorted(1) in auto)

lemma accepted_rows_encode:
  assumes "\<And>m. m < 8 \<Longrightarrow> row_accepted hb h m" "length hb = 83" "\<And>j. claimed hb 8 \<le> j \<Longrightarrow> j < 75 \<Longrightarrow> hb ! j = 0"
  shows "length (all_pos h 8) \<le> 75" "hint_bytes h = hb" "\<And>m. m < 8 \<Longrightarrow> hint_poly_ok (h ! m)"
proof -
  have row: "row_pos (h ! m) = claimed_row hb m" if "m < 8" for m
    using assms(1) [OF that] unfolding row_accepted_def by (auto simp: claimed_row_def intro!: row_pos_fold unat_byte_less)
  have pos: "all_pos h m = map (\<lambda>j. unat (hb ! j)) [0..<claimed hb m]" if "m \<le> 8" for m
    using that
  proof (induction m)
    case (Suc m)
    have "claimed hb m \<le> claimed hb (Suc m)" using assms(1) [of m] Suc.prems by (simp add: row_accepted_def)
    then have "[0..<claimed hb (Suc m)] = [0..<claimed hb m] @ [claimed hb m..<claimed hb (Suc m)]"
      using upt_add_eq_append [of 0 "claimed hb m" "claimed hb (Suc m) - claimed hb m"] by simp
    with Suc row [of m] show ?case by (simp add: claimed_row_def)
  qed (simp add: claimed_def)
  have c8: "claimed hb 8 \<le> 75" using assms(1) [of 7] by (simp add: row_accepted_def)
  show l: "length (all_pos h 8) \<le> 75" using pos [of 8] c8 by simp
  have cnt: "of_nat (length (all_pos h (Suc i))) = hb ! (75 + i)" if "i < 8" for i
    using pos [of "Suc i"] that by (simp add: claimed_def del: all_pos_Suc)
  show "hint_bytes h = hb"
  proof (rule nth_equalityI)
    fix j assume "j < length (hint_bytes h)"
    then have j: "j < 83" by (simp add: length_hint_bytes)
    consider "j < claimed hb 8" | "claimed hb 8 \<le> j" "j < 75" | "75 \<le> j" by linarith
    then show "hint_bytes h ! j = hb ! j"
    proof cases
      case 1
      then show ?thesis using l c8 pos [of 8] by (simp add: hint_bytes_eq hint_array_nth(1))
    next
      case 2
      then show ?thesis using l pos [of 8] assms(3) by (simp add: hint_bytes_eq hint_array_nth(2))
    next
      case 3
      then have "j - 75 < 8" "j = 75 + (j - 75)" using j by simp_all
      then show ?thesis using l cnt [of "j - 75"] hint_array_nth(3) [OF l, of "j - 75"]
        by (simp add: hint_bytes_eq del: all_pos_Suc)
    qed
  qed (simp add: length_hint_bytes assms(2))
  show "hint_poly_ok (h ! m)" if "m < 8" for m
  proof -
    have "h ! m = fold (\<lambda>x p. p[x := 1]) (claimed_row hb m) (replicate 256 0)" using assms(1) [OF that] by (simp add: row_accepted_def)
    then have "length (h ! m) = 256" "\<And>n. n < 256 \<Longrightarrow> h ! m ! n \<in> {0, 1}" by (simp_all add: nth_fold_ones)
    then show ?thesis unfolding hint_poly_ok_def by (metis in_set_conv_nth subsetI)
  qed
qed

lemma unpack_canonical:
  assumes "unpack_sig_volatile sig h0 = (c, z, h, 0)" "length sig = 4627" "length h0 = 8" "length sig' = 4627"
  shows "pack_sig_volatile sig' c z h = sig \<and> z_vec_ok z \<and> hint_ok h"
proof -
  let ?hb = "drop 4544 sig" and ?zb = "\<lambda>b. chunk (64 + b * 640) 640 sig"
  from assms(1) obtain k where rows: "hint_rows ?hb [0..<8] (claimed ?hb 0) h0 = (h, Some k)" and c: "c = take 64 sig"
    and z: "z = map (\<lambda>b. encode_blocks 128 5 z_unpack2 (drop (64 + b * 640) sig)) [0..<7]"
    and tail: "list_all (\<lambda>j. ?hb ! j = 0) [k..<75]"
    unfolding unpack_sig_volatile_def Let_def by (auto simp: claimed_def split: option.splits prod.splits if_splits)
  from hint_rows_sound [OF rows assms(3)] have lh: "length h = 8" and k: "k = claimed ?hb 8"
    and acc: "\<And>m. m < 8 \<Longrightarrow> row_accepted ?hb h m" by auto
  have "?hb ! j = 0" if "claimed ?hb 8 \<le> j" "j < 75" for j using tail that k by (simp add: list_all_iff)
  note enc = accepted_rows_encode [OF acc _ this]
  have lhb: "length ?hb = 83" using assms(2) by simp
  have z': "z = map (\<lambda>b. poly_z_unpack (?zb b)) [0..<7]" unfolding z z_unpack_prefix chunk_def by simp
  have lzb: "length (?zb b) = 640" if "b < 7" for b using that assms(2) by simp
  have "concat (map (\<lambda>b. poly_z_pack (z ! b)) [0..<7]) = concat (map ?zb [0..<7])"
    using lzb by (intro arg_cong [where f = concat] map_cong) (simp_all add: z' z_pack_unpack(2))
  also have "\<dots> = concat (map (\<lambda>b. chunk (b * 640) 640 (drop 64 sig)) [0..<7])"
    by (intro arg_cong [where f = concat] map_cong) (simp_all add: chunk_def add.commute)
  also have "\<dots> = take 4480 (drop 64 sig)" using concat_chunks [of 640 "drop 64 sig" 7] by simp
  finally have zz: "concat (map (\<lambda>b. poly_z_pack (z ! b)) [0..<7]) = take 4480 (drop 64 sig)" .
  have "pack_sig_volatile sig' c z h = take 64 sig @ take 4480 (drop 64 sig) @ drop 4544 sig"
    using pack_sig_eq [of c sig' h z] c assms(2,4) enc(2) lhb zz length_hint_bytes by simp
  also have "\<dots> = sig"
    using append_take_drop_id [of 4480 "drop 64 sig"] by (simp del: append_take_drop_id add: append_take_drop_id [of 64 sig])
  finally show ?thesis
    using enc(1,3) lhb lh z_pack_unpack(3,4) [OF lzb] by (auto simp: z_vec_ok_def hint_ok_def list_all_length z')
qed

text \<open>
  C35.  The signature format is canonical: if \<open>unpack_sig_volatile\<close> accepts 4627 bytes, then packing what it
  returned gives these bytes again, so two different encodings are never taken for the same
  signature; the accepted response is in the range of the format and the hint has at most 75 ones.
\<close>

theorem signature_canonical:
  assumes "unpack_sig_volatile sig h0 = (c, z, h, 0)" "length sig = 4627" "length h0 = 8" "length sig' = 4627"
  shows "pack_sig_volatile sig' c z h = sig \<and> z_vec_ok z \<and> hint_ok h"
  by (rule unpack_canonical [OF assms])

theorem signature_canonical_witness:
  "pack_sig_volatile (replicate 4627 0) (replicate 64 7) sample_z sample_h
     = pack_sig_volatile (replicate 4627 0x55) (replicate 64 7) sample_z sample_h"
proof -
  let ?s = "pack_sig_volatile (replicate 4627 0x55) (replicate 64 7) sample_z sample_h"
  have "unpack_sig_volatile ?s (replicate 8 []) = (replicate 64 7, sample_z, sample_h, 0)"
    using sample_ok by (intro unpack_pack) simp_all
  moreover have "length ?s = 4627"
    using pack_sig_eq [of "replicate 64 7" "replicate 4627 0x55" sample_h sample_z] by (simp add: length_z_bytes length_hint_bytes)
  ultimately show ?thesis using signature_canonical [of ?s "replicate 8 []" "replicate 64 7" sample_z sample_h "replicate 4627 0"] by simp
qed

subsection \<open>Wiping\<close>

lemma nvm_zero_from_covers:
  "off \<le> length dst \<Longrightarrow> take off dst = replicate off 0 \<Longrightarrow>
   fold (\<lambda>(off, n). write_at off (replicate n 0)) (nvm_zero_from off (length dst)) dst = replicate (length dst) (0 :: byte)"
proof (induction "length dst - off" arbitrary: off dst rule: less_induct)
  case less
  show ?case
  proof (cases "off < length dst")
    case True
    define n where "n = (if length dst - off > 256 then 256 else length dst - off)"
    have n: "0 < n" "off + n \<le> length dst" using True by (auto simp: n_def)
    let ?d = "write_at off (replicate n 0) dst"
    have l: "length ?d = length dst" using n by simp
    have "take (off + n) ?d = replicate (off + n) 0"
      using less.prems(2) n by (simp add: write_at_def replicate_add)
    moreover have "length ?d - (off + n) < length dst - off" using l n True by simp
    ultimately have "fold (\<lambda>(off, n). write_at off (replicate n 0)) (nvm_zero_from (off + n) (length ?d)) ?d = replicate (length ?d) 0"
      using less.hyps [of ?d "off + n"] n l by simp
    then show ?thesis using True l by (subst nvm_zero_from.simps) (simp add: Let_def n_def)
  next
    case False
    with less.prems show ?thesis by (subst nvm_zero_from.simps) simp
  qed
qed

lemma nvm_zero_eq: "nvm_zero dst = replicate (length dst) 0"
  using nvm_zero_from_covers [of 0 dst] by (simp add: nvm_zero_def)

lemma length_vec_bytes: "length (vec_bytes v) = length v * 1024"
proof -
  have "length (encode_blocks 256 1 le32_bytes p) = 1024" for p
    by (subst length_encode_blocks [of _ 4]) (simp_all add: le32_bytes_def)
  then show ?thesis by (induction v) (simp_all add: vec_bytes_def)
qed

lemma bytes_vec_zero: "bytes_vec n (replicate (n * 1024) 0) = replicate n (replicate 256 0)"
proof -
  have z: "le32_int (replicate 4 0) = [0]" by (simp add: le32_int_def i32_def)
  have "encode_blocks 256 4 le32_int (replicate 1024 0) = concat (map (\<lambda>i. [0]) [0..<256])"
    unfolding encode_blocks_def by (intro arg_cong [where f = concat] map_cong) (simp_all add: chunk_def z)
  also have "\<dots> = replicate 256 0" by (simp add: map_replicate_const flip: map_concat)  
  finally have "encode_blocks 256 4 le32_int (chunk (i * 1024) 1024 (replicate (n * 1024) 0)) = replicate 256 0" if "i < n" for i
    using that mult_le_mono1 [of "Suc i" n 1024] by (simp add: chunk_def)
  then show ?thesis unfolding bytes_vec_def by (intro nth_equalityI) simp_all
qed

lemma wipe_eq:
  assumes "nvm_ok s"
  shows "wipe_nvm_secrets s = s\<lparr>nv_y := replicate 7 (replicate 256 0), nv_t0 := replicate 8 (replicate 256 0),
    nv_w0 := replicate 8 (replicate 256 0)\<rparr>"
proof -
  have "length (nv_y s) = 7" "length (nv_t0 s) = 8" "length (nv_w0 s) = 8" using assms by (simp_all add: nvm_ok_def polyvec_ok_def)
  then show ?thesis
    using bytes_vec_zero [of 7] bytes_vec_zero [of 8]
    by (simp add: wipe_nvm_secrets_def nvm_zero_eq length_vec_bytes del: replicate.simps)
qed

text \<open>
  C38.  \<open>wipe_nvm_secrets\<close> overwrites every byte of the mask \<open>y\<close>, of \<open>pack1\<close> and of \<open>w0\<close> with zero, in chunks of at
  most 256 bytes, and changes nothing else: in particular the response \<open>z\<close>, the hint \<open>h\<close> and the
  challenge keep their contents.
\<close>

theorem wipe_zeroes_secrets:
  assumes "nvm_ok s"
  shows "wipe_nvm_secrets s = s\<lparr>nv_y := replicate 7 (replicate 256 0), nv_t0 := replicate 8 (replicate 256 0),
    nv_w0 := replicate 8 (replicate 256 0)\<rparr>"
  by (rule wipe_eq [OF assms])

text \<open>The contents of \<open>N_storage_real\<close> in a fresh installation: everything zero.\<close>

definition nvm_fresh :: nvm where
  "nvm_fresh = \<lparr>
     nv_t1 = replicate 8 (replicate 256 0), nv_w1 = replicate 8 (replicate 256 0), nv_w0 = replicate 8 (replicate 256 0),
     nv_h = replicate 8 (replicate 256 0), nv_y = replicate 7 (replicate 256 0), nv_z = replicate 7 (replicate 256 0),
     nv_cp = replicate 256 0, nv_t0 = replicate 8 (replicate 256 0), nv_sig = replicate 4627 0, nv_pk = replicate 2592 0,
     enable_blind_signing = 0, display_nonce = 0, display_tx_hash = 0, initialized = 0, is_sending_signature = 0\<rparr>"

lemma nvm_fresh_ok: "nvm_ok nvm_fresh"
  by (simp add: nvm_ok_def nvm_fresh_def polyvec_ok_def list_all_iff)

theorem wipe_zeroes_secrets_witness:
  "wipe_nvm_secrets (nvm_fresh\<lparr>nv_y := replicate 7 (replicate 256 5), nv_w0 := replicate 8 (replicate 256 (- 3))\<rparr>) = nvm_fresh"
proof -
  let ?s = "nvm_fresh\<lparr>nv_y := replicate 7 (replicate 256 5), nv_w0 := replicate 8 (replicate 256 (- 3))\<rparr>"
  have "nvm_ok ?s" by (simp add: nvm_ok_def nvm_fresh_def polyvec_ok_def list_all_iff)
  from wipe_zeroes_secrets [OF this] show ?thesis by (simp add: nvm_fresh_def)
qed

end
