(* ===== verification/Sign_Verify.thy ===== *)
theory Sign_Verify
  imports Sig_Codec
begin

text \<open>
  Signing and verifying fit together.  The transforms turn every product of the scheme into a product
  of values at the 256 roots of \<open>X^256 + 1\<close>; there the verifier's \<open>A z - c t1 2^d\<close> equals the signer's
  \<open>w - c s2 + c t0\<close>, and the hint lemma of the rounding theory recovers the committed high bits.
  All intermediate values stay in the ranges in which the 32-bit and 64-bit code is exact.
\<close>

subsection \<open>Values at the roots\<close>

definition ev :: "poly \<Rightarrow> nat \<Rightarrow> int" where
  "ev p k = peval p (node (256 + k))"

lemma ev_cong: "eqml a b \<Longrightarrow> eqm (ev a k) (ev b k)"
  unfolding ev_def by (rule peval_cong)

lemma ev_add: "length a = 256 \<Longrightarrow> length b = 256 \<Longrightarrow> ev (map2 (+) a b) k = ev a k + ev b k"
  unfolding ev_def by (rule peval_add)

lemma ev_map2: "length a = 256 \<Longrightarrow> length b = 256 \<Longrightarrow> ev (map2 (-) a b) k = ev a k - ev b k"
  unfolding ev_def peval_def by (simp add: sum_subtractf left_diff_distrib)

lemma ev_scale: "length a = 256 \<Longrightarrow> ev (map (\<lambda>x. x * c) a) k = ev a k * c"
  unfolding ev_def peval_def by (simp add: sum_distrib_right mult.assoc mult.left_commute [of c] mult.commute [of c])

lemma ntt_ev: "bounded B p \<Longrightarrow> B \<le> 2080440312 \<Longrightarrow> k < 256 \<Longrightarrow> eqm (ntt p ! k) (ev p k)"
  unfolding ev_def by (rule ntt_eval) simp_all

lemma inv_ev:
  assumes "bounded 8388608 r" "k < 256"
  shows "eqm (ev (inv_ntt_to_mont r) k) (4294967296 * r ! k)"
proof -
  have "bounded 4211199 (inv_ntt_to_mont r)" by (rule inv_ntt_correct(1) [OF assms(1)]) simp
  then have "eqm (ev (inv_ntt_to_mont r) k) (ntt (inv_ntt_to_mont r) ! k)"
    using assms(2) by (intro eqm_sym [OF ntt_ev [of 4211199]]) simp_all
  also have "eqm \<dots> (4294967296 * r ! k)"
    using eqml_nth [OF ntt_inv_ntt [OF assms(1)] assms(2)] assms by (simp add: bounded_length)
  finally show ?thesis .
qed

text \<open>A polynomial is determined modulo \<open>q\<close> by its values.\<close>

lemma ev_inj:
  assumes "bounded B a" "bounded B b" "B \<le> 2080440312" "\<And>k. k < 256 \<Longrightarrow> eqm (ev a k) (ev b k)"
  shows "eqml a b"
proof -
  let ?y = "map (\<lambda>x. x mod 8380417) (ntt a)"
  have la: "length (ntt a) = 256" "length (ntt b) = 256"
    using ntt_bounds [OF assms(1)] ntt_bounds [OF assms(2)] assms(3) by (simp_all add: bounded_length)
  have y: "bounded 8388608 ?y"
  proof (rule boundedI)
    fix i :: nat assume "i < 256"
    moreover have "0 \<le> x mod 8380417" "x mod 8380417 < 8380417" for x :: int by simp_all
    ultimately show "\<bar>?y ! i\<bar> < 8388608" using la(1) by simp
  qed (simp add: la)
  have ya: "eqml ?y (ntt a)" using la(1) by (simp add: eqml_def eqm_mod)
  have "eqm (ntt a ! k) (ntt b ! k)" if "k < 256" for k
    using eqm_trans [OF ntt_ev [OF assms(1,3) that] eqm_trans [OF assms(4) [OF that] eqm_sym [OF ntt_ev [OF assms(2,3) that]]]] .
  then have yb: "eqml ?y (ntt b)" using eqml_trans [OF ya] la by (simp add: eqml_def)
  have "eqml (scale 4294967296 a) (scale 4294967296 b)"
    using eqml_trans [OF eqml_sym [OF inv_ntt_ntt [OF assms(1) y ya]] inv_ntt_ntt [OF assms(2) y yb]] assms(3) by simp
  then show ?thesis by (rule eqml_cancel_mont)
qed

subsection \<open>The matrix\<close>

definition mat :: "byte list \<Rightarrow> nat \<Rightarrow> nat \<Rightarrow> poly" where
  "mat rho i j = the (matrix_entry rho i j)"

definition mat_defined :: "byte list \<Rightarrow> bool" where
  "mat_defined rho \<longleftrightarrow> (\<forall>i < K. \<forall>j < L. matrix_entry rho i j \<noteq> None)"

lemma combined_row_Some: "combined_row rho v i js t = Some r \<Longrightarrow> j \<in> set js \<Longrightarrow> matrix_entry rho i j \<noteq> None"
  by (induction js arbitrary: t) (auto simp: Option.bind_eq_Some_conv Let_def)

lemma combined_row_defined: "(\<And>j. j \<in> set js \<Longrightarrow> matrix_entry rho i j \<noteq> None) \<Longrightarrow> \<exists>r. combined_row rho v i js t = Some r"
proof (induction js arbitrary: t)
  case (Cons a js)
  then obtain y where "matrix_entry rho i a = Some y" by (metis list.set_intros(1) option.exhaust)
  then show ?case using Cons by (simp add: Let_def)
qed simp

lemma combined_row_first: "combined_row rho v i [0..<7] t = combined_row rho v i [0..<7] t'"
proof -
  have "[0..<7] = 0 # [1..<7]" by (simp add: upt_conv_Cons)
  then show ?thesis by (simp add: Let_def)
qed

lemma combined_method_old: "combined_method t v rho = combined_method t' v rho"
  unfolding combined_method_def by (intro arg_cong [where f = those] map_cong refl combined_row_first)

lemma combined_method_defined: "combined_method t v rho = Some r \<Longrightarrow> mat_defined rho"
  unfolding combined_method_def those_map_Some mat_defined_def
  by (metis combined_row_Some atLeastLessThan_iff diff_zero length_upt less_nat_zero_code linorder_not_less nth_upt plus_nat.add_0 set_upt)

lemma mat_defined_combined: "mat_defined rho \<Longrightarrow> \<exists>r. combined_method t v rho = Some r"
proof -
  assume "mat_defined rho"
  then have "\<exists>r. combined_row rho v i [0..<7] (t ! i) = Some r" if "i < 8" for i
    using that by (intro combined_row_defined) (auto simp: mat_defined_def)
  then obtain f where "\<And>i. i < 8 \<Longrightarrow> combined_row rho v i [0..<7] (t ! i) = Some (f i)" by metis
  then show ?thesis unfolding combined_method_def those_map_Some by (intro exI [of _ "map f [0..<8]"]) simp
qed

lemma mat_bounded: "mat_defined rho \<Longrightarrow> i < 8 \<Longrightarrow> j < 7 \<Longrightarrow> bounded 8380417 (mat rho i j)"
  unfolding mat_defined_def mat_def using matrix_entry_range(3) by (metis option.collapse)

lemma combined_row_correct:
  assumes "mat_defined rho" "i < 8" "\<And>j. j < 7 \<Longrightarrow> bounded B (v ! j)" "B \<le> 2147483648"
    "combined_row rho v i [j..<7] t = Some r" "j \<le> 7"
    "0 < j \<Longrightarrow> bounded (int j * 8380417) t \<and> (\<forall>k < 256. eqm (4294967296 * t ! k) (\<Sum>m<j. mat rho i m ! k * v ! m ! k))"
  shows "bounded (7 * 8380417) r \<and> (\<forall>k < 256. eqm (4294967296 * r ! k) (\<Sum>m<7. mat rho i m ! k * v ! m ! k))"
  using assms(5-7)
proof (induction "7 - j" arbitrary: j t)
  case 0
  then show ?case by simp
next
  case (Suc d)
  then have j: "j < 7" "[j..<7] = j # [Suc j..<7]" by (simp_all add: upt_conv_Cons)
  let ?p = "poly_pointwise_montgomery (mat rho i j) (v ! j)" and ?t = "if j = 0 then poly_pointwise_montgomery (mat rho i j) (v ! j) else poly_add t (poly_pointwise_montgomery (mat rho i j) (v ! j))"
  have "matrix_entry rho i j = Some (mat rho i j)" using assms(1,2) j(1) by (auto simp: mat_defined_def mat_def)
  with Suc.prems(1) have rec: "combined_row rho v i [Suc j..<7] ?t = Some r" unfolding j(2) by (simp add: Let_def)
  have "8380417 * B \<le> 2147483648 * 8380417" using assms(4) by simp
  note p = pointwise_correct [OF mat_bounded [OF assms(1,2) j(1)] assms(3) [OF j(1)] this]
  have "bounded (int (Suc j) * 8380417) ?t \<and> (\<forall>k < 256. eqm (4294967296 * ?t ! k) (\<Sum>m<Suc j. mat rho i m ! k * v ! m ! k))"
  proof (cases "j = 0")
    case True
    then show ?thesis using p by simp
  next
    case False
    then have t: "bounded (int j * 8380417) t" "\<And>k. k < 256 \<Longrightarrow> eqm (4294967296 * t ! k) (\<Sum>m<j. mat rho i m ! k * v ! m ! k)"
      using Suc.prems(3) by auto
    have "int j * 8380417 + 8380417 \<le> 2147483648" using j(1) by simp
    note a = poly_add_correct [OF t(1) p(1) this]
    have "4294967296 * (poly_add t ?p ! k) = 4294967296 * t ! k + 4294967296 * ?p ! k" if "k < 256" for k
      using that t(1) p(1) by (simp add: a(1) bounded_length distrib_left)
    note e = this
    have "eqm (4294967296 * poly_add t ?p ! k) (\<Sum>m<Suc j. mat rho i m ! k * v ! m ! k)" if "k < 256" for k
      unfolding e [OF that] sum.lessThan_Suc using t(2) p(2) that by (intro eqm_add)
    then show ?thesis using False a(2) by (simp add: distrib_right add.commute)
  qed
  then show ?case using Suc.hyps(1) [OF _ rec] Suc.hyps(2) j(1) by simp
qed

lemma combined_correct:
  assumes "combined_method t v rho = Some r" "\<And>j. j < 7 \<Longrightarrow> bounded B (v ! j)" "B \<le> 2147483648"
  shows "length r = 8"
    "i < 8 \<Longrightarrow> bounded (7 * 8380417) (r ! i)"
    "i < 8 \<Longrightarrow> k < 256 \<Longrightarrow> eqm (4294967296 * r ! i ! k) (\<Sum>m<7. mat rho i m ! k * v ! m ! k)"
proof -
  note d = combined_method_defined [OF assms(1)]
  from assms(1) have r: "length r = 8" "\<And>i. i < 8 \<Longrightarrow> combined_row rho v i [0..<7] (t ! i) = Some (r ! i)"
    unfolding combined_method_def those_map_Some by simp_all
  then show "length r = 8" by blast
  show "i < 8 \<Longrightarrow> bounded (7 * 8380417) (r ! i)"
    "i < 8 \<Longrightarrow> k < 256 \<Longrightarrow> eqm (4294967296 * r ! i ! k) (\<Sum>m<7. mat rho i m ! k * v ! m ! k)"
    using combined_row_correct [OF d _ assms(2,3) r(2)] by auto
qed

subsection \<open>Products and sums at the roots\<close>

text \<open>\<open>inv_ntt_to_mont\<close> after \<open>reduce\<close>.\<close>

lemma inv_reduce:
  assumes "bounded 2143289344 r"
  shows "bounded 4211199 (inv_ntt_to_mont (map reduce_32 r))"
    "k < 256 \<Longrightarrow> eqm (ev (inv_ntt_to_mont (map reduce_32 r)) k) (4294967296 * r ! k)"
proof -
  note red = poly_reduce_correct [OF assms, unfolded poly_reduce_def]
  have b: "bounded 8388608 (map reduce_32 r)" by (rule bounded_mono [OF red(1)]) simp
  show "bounded 4211199 (inv_ntt_to_mont (map reduce_32 r))" by (rule inv_ntt_correct(1) [OF b]) simp
  show "k < 256 \<Longrightarrow> eqm (ev (inv_ntt_to_mont (map reduce_32 r)) k) (4294967296 * r ! k)"
    using inv_ev [OF b] eqml_nth [OF red(2)] by (meson eqm_mult eqm_refl eqm_trans)
qed

lemma matvec:
  assumes "combined_method t (map ntt v) rho = Some r" "length v = 7" "\<And>j. j < 7 \<Longrightarrow> bounded B (v ! j)" "B \<le> 2080440312" "i < 8"
  shows "bounded 4211199 (inv_ntt_to_mont (map reduce_32 (r ! i)))"
    "k < 256 \<Longrightarrow> eqm (ev (inv_ntt_to_mont (map reduce_32 (r ! i))) k) (\<Sum>m<7. mat rho i m ! k * ev (v ! m) k)"
proof -
  have n: "bounded (B + 67043336) (map ntt v ! j)" if "j < 7" for j
    using ntt_bounds [OF assms(3) [OF that]] assms(2,4) that by simp
  have "B + 67043336 \<le> 2147483648" using assms(4) by simp
  note c = combined_correct [of _ _ _ _ "B + 67043336", OF assms(1) n this]
  have r: "bounded 2143289344 (r ! i)" by (rule bounded_mono [OF c(2) [OF _ assms(5)]]) simp_all
  show "bounded 4211199 (inv_ntt_to_mont (map reduce_32 (r ! i)))" by (rule inv_reduce(1) [OF r])
  assume k: "k < 256"
  have "eqm (ev (inv_ntt_to_mont (map reduce_32 (r ! i))) k) (4294967296 * r ! i ! k)" by (rule inv_reduce(2) [OF r k])
  also have "eqm \<dots> (\<Sum>m<7. mat rho i m ! k * map ntt v ! m ! k)" by (rule c(3) [OF _ assms(5) k])
  also have "eqm \<dots> (\<Sum>m<7. mat rho i m ! k * ev (v ! m) k)"
    using assms(2) ntt_ev [OF assms(3,4) k] by (intro eqm_sum eqm_mult) auto
  finally show "eqm (ev (inv_ntt_to_mont (map reduce_32 (r ! i))) k) (\<Sum>m<7. mat rho i m ! k * ev (v ! m) k)" .
qed

text \<open>The product of the challenge with a short polynomial.\<close>

lemma challenge_product:
  assumes "bounded 2 c" "bounded B p" "B \<le> 8380417" "k < 256"
  shows "bounded 8380417 (map2 (\<lambda>x y. montgomery_reduce (i64 (x * y))) (ntt c) (ntt p))"
    "eqm (4294967296 * map2 (\<lambda>x y. montgomery_reduce (i64 (x * y))) (ntt c) (ntt p) ! k) (ev c k * ev p k)"
    "bounded 4211199 (inv_ntt_to_mont (map2 (\<lambda>x y. montgomery_reduce (i64 (x * y))) (ntt c) (ntt p)))"
    "eqm (ev (inv_ntt_to_mont (map2 (\<lambda>x y. montgomery_reduce (i64 (x * y))) (ntt c) (ntt p))) k) (ev c k * ev p k)"
proof -
  let ?m = "map2 (\<lambda>x y. montgomery_reduce (i64 (x * y))) (ntt c) (ntt p)"
  have nc: "bounded 67043338 (ntt c)" using ntt_bounds [OF assms(1)] by simp
  have np: "bounded 75423753 (ntt p)" using ntt_bounds [OF bounded_mono [OF assms(2,3)]] by simp
  have "67043338 * 75423753 \<le> (2147483648 * 8380417 :: int)" by simp
  note pw = pointwise_correct [OF nc np this, unfolded poly_pointwise_montgomery_def]
  show "bounded 8380417 ?m" by (rule pw(1))
  have "eqm (ntt c ! k * ntt p ! k) (ev c k * ev p k)"
    using ntt_ev [OF assms(1) _ assms(4)] ntt_ev [OF bounded_mono [OF assms(2,3)] _ assms(4)] by (intro eqm_mult) simp_all
  with pw(2) [OF assms(4)] show e: "eqm (4294967296 * ?m ! k) (ev c k * ev p k)" by (rule eqm_trans)
  have b: "bounded 8388608 ?m" by (rule bounded_mono [OF pw(1)]) simp
  show "bounded 4211199 (inv_ntt_to_mont ?m)" by (rule inv_ntt_correct(1) [OF b]) simp
  show "eqm (ev (inv_ntt_to_mont ?m) k) (ev c k * ev p k)" using inv_ev [OF b assms(4)] e by (rule eqm_trans)
qed

subsection \<open>The public vector\<close>

lemma ev_mod: "length a = 256 \<Longrightarrow> eqm (ev (map (\<lambda>x. x mod 8380417) a) k) (ev a k)"
  by (intro ev_cong) (simp add: eqml_def eqm_mod)

text \<open>Polynomials in standard form.\<close>

definition residues :: "poly \<Rightarrow> bool" where
  "residues p \<longleftrightarrow> length p = N \<and> list_all (\<lambda>x. 0 \<le> x \<and> x < Q_CONST) p"

lemma residuesD:
  assumes "residues p"
  shows "length p = 256" "n < 256 \<Longrightarrow> 0 \<le> p ! n" "n < 256 \<Longrightarrow> p ! n < 8380417" "bounded 8380417 p"
  using assms by (auto simp: residues_def bounded_def list_all_iff)

lemma c_addq_residues:
  assumes "bounded 8380417 a"
  shows "map c_addq a = map (\<lambda>x. x mod 8380417) a" "residues (map c_addq a)"
    "eqm (ev (map c_addq a) k) (ev a k)"
proof -
  note len = bounded_length [OF assms]
  show e: "map c_addq a = map (\<lambda>x. x mod 8380417) a" using poly_c_addq_correct [OF assms] by (simp add: poly_c_addq_def)
  show "residues (map c_addq a)" unfolding e by (simp add: len residues_def list_all_iff)
  show "eqm (ev (map c_addq a) k) (ev a k)" unfolding e by (rule ev_mod [OF len])
qed

text \<open>\<open>poly_add\<close> and \<open>poly_sub\<close> where the sums do not overflow.\<close>

lemma add_ev:
  assumes "bounded A a" "bounded B b" "A + B \<le> 2147483648"
  shows "map2 (\<lambda>x y. i32 (x + y)) a b = map2 (+) a b" "bounded (A + B) (map2 (\<lambda>x y. i32 (x + y)) a b)"
    "ev (map2 (\<lambda>x y. i32 (x + y)) a b) k = ev a k + ev b k"
    "map2 (\<lambda>x y. i32 (x - y)) a b = map2 (-) a b" "bounded (A + B) (map2 (\<lambda>x y. i32 (x - y)) a b)"
    "ev (map2 (\<lambda>x y. i32 (x - y)) a b) k = ev a k - ev b k"
proof -
  note p = poly_add_correct [OF assms, unfolded poly_add_def poly_sub_def]
  note len = bounded_length [OF assms(1)] bounded_length [OF assms(2)]
  show "map2 (\<lambda>x y. i32 (x + y)) a b = map2 (+) a b" "bounded (A + B) (map2 (\<lambda>x y. i32 (x + y)) a b)"
    "map2 (\<lambda>x y. i32 (x - y)) a b = map2 (-) a b" "bounded (A + B) (map2 (\<lambda>x y. i32 (x - y)) a b)"
    by (rule p)+
  show "ev (map2 (\<lambda>x y. i32 (x + y)) a b) k = ev a k + ev b k" unfolding p(1) by (rule ev_add [OF len])
  show "ev (map2 (\<lambda>x y. i32 (x - y)) a b) k = ev a k - ev b k" unfolding p(3) by (rule ev_map2 [OF len])
qed

lemma reduce_ev:
  assumes "bounded 2143289344 a"
  shows "bounded 6283010 (map reduce_32 a)" "eqm (ev (map reduce_32 a) k) (ev a k)"
  using poly_reduce_correct [OF assms, unfolded poly_reduce_def] ev_cong by blast+

lemma public_t_row:
  assumes "public_t rho (map ntt s1) s2 told = Some t" "length s1 = 7" "\<And>j. j < 7 \<Longrightarrow> bounded 3 (s1 ! j)"
    "length s2 = 8" "\<And>j. j < 8 \<Longrightarrow> bounded 3 (s2 ! j)"
  shows "mat_defined rho" "length t = 8" "i < 8 \<Longrightarrow> residues (t ! i)"
    "i < 8 \<Longrightarrow> k < 256 \<Longrightarrow> eqm (ev (t ! i) k) ((\<Sum>m<7. mat rho i m ! k * ev (s1 ! m) k) + ev (s2 ! i) k)"
proof -
  from assms(1) obtain r where r: "combined_method told (map ntt s1) rho = Some r"
    and t: "t = map (map c_addq) (map2 (map2 (\<lambda>x y. i32 (x + y))) (map inv_ntt_to_mont (map (map reduce_32) r)) s2)"
    by (auto simp: public_t_def Option.bind_eq_Some_conv poly_vec_k_reduce_volatile_def poly_vec_k_inv_ntt_to_mont_volatile_def
        poly_vec_k_add_volatile_def poly_vec_k_c_addq_volatile_def)
  show "mat_defined rho" by (rule combined_method_defined [OF r])
  have lr: "length r = 8" using r by (auto simp: combined_method_def those_map_Some)
  with t assms(4) show "length t = 8" by simp
  assume i: "i < 8"
  let ?a = "inv_ntt_to_mont (map reduce_32 (r ! i))" and ?b = "map2 (\<lambda>x y. i32 (x + y)) (inv_ntt_to_mont (map reduce_32 (r ! i))) (s2 ! i)"
  have ti: "t ! i = map c_addq ?b" using i lr assms(4) t by simp
  have a: "bounded 4211199 ?a" "k < 256 \<Longrightarrow> eqm (ev ?a k) (\<Sum>m<7. mat rho i m ! k * ev (s1 ! m) k)" for k
    using matvec [OF r assms(2) assms(3) _ i] by simp_all
  note b = add_ev [OF a(1) assms(5) [OF i]]
  have q: "bounded 8380417 ?b" by (rule bounded_mono [OF b(2)]) simp_all
  note c = c_addq_residues [OF q]
  show "residues (t ! i)" unfolding ti by (rule c(2))
  assume k: "k < 256"
  have "eqm (ev (t ! i) k) (ev ?a k + ev (s2 ! i) k)" using c(3) [of k] b(3) [of k] by (simp add: ti)
  also have "eqm \<dots> ((\<Sum>m<7. mat rho i m ! k * ev (s1 ! m) k) + ev (s2 ! i) k)" using a(2) [OF k] by (intro eqm_add) simp_all
  finally show "eqm (ev (t ! i) k) ((\<Sum>m<7. mat rho i m ! k * ev (s1 ! m) k) + ev (s2 ! i) k)" .
qed

text \<open>\<open>t = t1 2^13 + t0\<close>.\<close>

lemma power2_round_split:
  assumes "0 \<le> a" "a < 8380417"
  shows "a = fst (power2_round a) * 8192 + snd (power2_round a)" "0 \<le> fst (power2_round a)" "fst (power2_round a) \<le> 1023"
    "\<bar>snd (power2_round a)\<bar> \<le> 4096"
proof -
  let ?r = "mod_pm a 8192"
  have p: "power2_round a = ((a - ?r) div 8192, ?r)" using power2_round_fips assms by (simp add: fips_power2round_def Let_def)
  have r: "- 4096 < ?r" "?r \<le> 4096" "(a - ?r) mod 8192 = 0" 
    unfolding mod_pm_def Let_def by (simp_all split: if_splits) presburger+
  from r(3) have "8192 * ((a - ?r) div 8192) = a - ?r" by (intro dvd_mult_div_cancel mod_0_imp_dvd)
  with r assms show "a = fst (power2_round a) * 8192 + snd (power2_round a)" "0 \<le> fst (power2_round a)"
    "fst (power2_round a) \<le> 1023" "\<bar>snd (power2_round a)\<bar> \<le> 4096" by (auto simp: p)
qed

lemma power2_round_row:
  assumes "residues p"
  defines "p1 \<equiv> map (\<lambda>a. fst (power2_round a)) p" and "p0 \<equiv> map (\<lambda>a. snd (power2_round a)) p"
  shows "bounded 4097 p0" "map (\<lambda>x. i32 (push_bit 13 x)) p1 = map (\<lambda>x. x * 8192) p1" "bounded 8380417 (map (\<lambda>x. x * 8192) p1)"
    "ev p k = ev (map (\<lambda>x. x * 8192) p1) k + ev p0 k"
proof -
  note len = residuesD(1) [OF assms(1)] and s = power2_round_split [OF residuesD(2,3) [OF assms(1)]]
  have b: "0 \<le> fst (power2_round (p ! n))" "fst (power2_round (p ! n)) \<le> 1023" "\<bar>snd (power2_round (p ! n))\<bar> \<le> 4096" if "n < 256" for n
    using s [OF that that] by simp_all
  show "bounded 4097 p0"
  proof (rule boundedI)
    show "\<bar>p0 ! n\<bar> < 4097" if "n < 256" for n using b(3) [OF that] that len by (simp add: p0_def)
  qed (simp add: p0_def len)
  show "bounded 8380417 (map (\<lambda>x. x * 8192) p1)"
  proof (rule boundedI)
    show "\<bar>map (\<lambda>x. x * 8192) p1 ! n\<bar> < 8380417" if "n < 256" for n
      using b(1,2) [OF that] that len by (simp add: p1_def)
  qed (simp add: p1_def len)
  show "map (\<lambda>x. i32 (push_bit 13 x)) p1 = map (\<lambda>x. x * 8192) p1"
  proof -
    have "i32 (fst (power2_round (p ! n)) * 8192) = fst (power2_round (p ! n)) * 8192" if "n < 256" for n
      using b(1,2) [OF that] by (intro i32_id) simp_all
    then show ?thesis using len by (auto simp: list_eq_iff_nth_eq p1_def push_bit_eq_mult)
  qed
  have "p = map2 (+) (map (\<lambda>x. x * 8192) p1) p0"
    using s(1) len by (auto simp: list_eq_iff_nth_eq p1_def p0_def)
  then show "ev p k = ev (map (\<lambda>x. x * 8192) p1) k + ev p0 k"
    using ev_add [of "map (\<lambda>x. x * 8192) p1" p0 k] len by (simp add: p1_def p0_def)
qed

text \<open>\<open>w = w1 (2 gamma2) + w0\<close> modulo q.\<close>

lemma decompose_split:
  assumes "0 \<le> a" "a < 8380417"
  shows "eqm (fst (decompose a) * 523776 + snd (decompose a)) a"
  using assms
proof (cases rule: residue_cases)
  case wrap
  with decompose_wrap [of a] assms show ?thesis by (simp add: eqm_def)
qed (simp add: decompose_inner)

lemma decompose_row:
  assumes "residues w"
  defines "w1 \<equiv> map (\<lambda>a. fst (decompose a)) w" and "w0 \<equiv> map (\<lambda>a. snd (decompose a)) w"
  shows "n < 256 \<Longrightarrow> 0 \<le> w1 ! n \<and> w1 ! n < 16" "bounded 261889 w0" "bounded 7856641 (map (\<lambda>x. x * 523776) w1)"
    "eqm (ev (map (\<lambda>x. x * 523776) w1) k + ev w0 k) (ev w k)"
proof -
  note len = residuesD(1) [OF assms(1)] and r = fst_decompose_range [OF residuesD(2,3) [OF assms(1)]]
  have w1: "0 \<le> w1 ! n \<and> w1 ! n < 16" if "n < 256" for n using r(1,2) [OF that that] that len by (simp add: w1_def)
  then show "n < 256 \<Longrightarrow> 0 \<le> w1 ! n \<and> w1 ! n < 16" .
  show "bounded 261889 w0"
  proof (rule boundedI)
    show "\<bar>w0 ! n\<bar> < 261889" if "n < 256" for n using r(3,4) [OF that that] that len by (simp add: w0_def)
  qed (simp add: w0_def len)
  show "bounded 7856641 (map (\<lambda>x. x * 523776) w1)"
  proof (rule boundedI)
    show "\<bar>map (\<lambda>x. x * 523776) w1 ! n\<bar> < 7856641" if "n < 256" for n
      using w1 [OF that] that len by (simp add: w1_def)
  qed (simp add: w1_def len)
  have "eqml (map2 (+) (map (\<lambda>x. x * 523776) w1) w0) w"
    using len decompose_split [OF residuesD(2,3) [OF assms(1)]] by (simp add: eqml_def w1_def w0_def)
  from ev_cong [OF this, of k] show "eqm (ev (map (\<lambda>x. x * 523776) w1) k + ev w0 k) (ev w k)"
    using ev_add [of "map (\<lambda>x. x * 523776) w1" w0 k] len by (simp add: w1_def w0_def)
qed

subsection \<open>One row of a verification\<close>

text \<open>
  \<open>cmul c p\<close> is the product of two polynomials as the code computes it.  The sums over row \<open>i\<close> of the matrix at root
  \<open>k\<close> are \<open>AS\<close> (with \<open>s1\<close>), \<open>AY\<close> (with \<open>y\<close>) and \<open>AZ\<close> (with \<open>z\<close>).
\<close>

definition cmul :: "poly \<Rightarrow> poly \<Rightarrow> poly" where
  "cmul c p = map2 (\<lambda>x y. montgomery_reduce (i64 (x * y))) (ntt c) (ntt p)"

lemma cmul_correct:
  assumes "bounded 2 c" "bounded B p" "B \<le> 8380417"
  shows "bounded 8380417 (cmul c p)" "k < 256 \<Longrightarrow> eqm (4294967296 * cmul c p ! k) (ev c k * ev p k)"
    "bounded 4211199 (inv_ntt_to_mont (cmul c p))" "k < 256 \<Longrightarrow> eqm (ev (inv_ntt_to_mont (cmul c p)) k) (ev c k * ev p k)"
  using challenge_product [OF assms, folded cmul_def] by (auto intro: challenge_product(1,3) [OF assms, folded cmul_def, of 0])

lemma signed_low_bits:
  assumes c: "bounded 2 c" and s2: "bounded 3 s2" and p0: "bounded 4097 p0" and w0: "bounded 261889 w0"
  defines "d \<equiv> map reduce_32 (map2 (\<lambda>x y. i32 (x - y)) w0 (inv_ntt_to_mont (cmul c s2)))"
    and "ht \<equiv> map reduce_32 (inv_ntt_to_mont (cmul c p0))"
  defines "a0 \<equiv> map2 (\<lambda>x y. i32 (x + y)) d ht"
  assumes d: "bounded 261768 d" and ht: "bounded 261888 ht"
  shows "bounded 523656 a0" "k < 256 \<Longrightarrow> eqm (ev a0 k) (ev w0 k - ev c k * ev s2 k + ev c k * ev p0 k)"
proof -
  note a = add_ev [OF d ht, folded a0_def]
  show "bounded 523656 a0" using a(2) by simp
  note hs = cmul_correct [OF c s2] and hp = cmul_correct [OF c p0]
  note sub = add_ev [OF w0 hs(3)]
  assume k: "k < 256"
  have "bounded 2143289344 (map2 (\<lambda>x y. i32 (x - y)) w0 (inv_ntt_to_mont (cmul c s2)))"
    by (rule bounded_mono [OF sub(5)]) simp_all
  from reduce_ev(2) [OF this, of k] have "eqm (ev d k) (ev w0 k - ev (inv_ntt_to_mont (cmul c s2)) k)"
    using sub(6) [of k] by (simp add: d_def)
  also have "eqm \<dots> (ev w0 k - ev c k * ev s2 k)" using hs(4) [OF _ k] by (intro eqm_diff) simp_all
  finally have ed: "eqm (ev d k) (ev w0 k - ev c k * ev s2 k)" .
  have "bounded 2143289344 (inv_ntt_to_mont (cmul c p0))" by (rule bounded_mono [OF hp(3)]) simp_all
  from reduce_ev(2) [OF this, of k] have "eqm (ev ht k) (ev (inv_ntt_to_mont (cmul c p0)) k)" by (simp add: ht_def)
  also have "eqm \<dots> (ev c k * ev p0 k)" using hp(4) [OF _ k] by simp
  finally show "eqm (ev a0 k) (ev w0 k - ev c k * ev s2 k + ev c k * ev p0 k)"
    using ed a(3) [of k] by (simp add: eqm_add)
qed

lemma verifier_value:
  assumes c: "bounded 2 c" and p: "bounded 8380417 p8" and r: "bounded (7 * 8380417) r"
    and AZ: "\<forall>k < 256. eqm (4294967296 * r ! k) (AZ k)"
  defines "u \<equiv> map c_addq (inv_ntt_to_mont (map reduce_32 (map2 (\<lambda>x y. i32 (x - y)) r (cmul c p8))))"
  shows "residues u" "k < 256 \<Longrightarrow> eqm (ev u k) (AZ k - ev c k * ev p8 k)"
proof -
  note m = cmul_correct [OF c p]
  note sub = add_ev [OF r m(1)]
  let ?d = "map2 (\<lambda>x y. i32 (x - y)) r (cmul c p8)"
  have d: "bounded 2143289344 ?d" by (rule bounded_mono [OF sub(5)]) simp_all
  note i = inv_reduce [OF d]
  have "bounded 8380417 (inv_ntt_to_mont (map reduce_32 ?d))" by (rule bounded_mono [OF i(1)]) simp
  note q = c_addq_residues [OF this, folded u_def]
  show "residues u" by (rule q(2))
  assume k: "k < 256"
  have len: "length r = 256" "length (cmul c p8) = 256" using r m(1) by (simp_all add: bounded_length)
  have "eqm (ev u k) (4294967296 * ?d ! k)" using eqm_trans [OF q(3) i(2) [OF k]] .
  also have "4294967296 * ?d ! k = 4294967296 * r ! k - 4294967296 * cmul c p8 ! k"
  proof -
    have "?d = map2 (-) r (cmul c p8)" by (rule sub(4)) simp_all
    from arg_cong [OF this, of "\<lambda>v. v ! k"] show ?thesis using k len by (simp add: right_diff_distrib)
  qed
  also have "eqm \<dots> (AZ k - ev c k * ev p8 k)" using AZ k m(2) [OF _ k] by (intro eqm_diff) simp_all
  finally show "eqm (ev u k) (AZ k - ev c k * ev p8 k)" .
qed

lemma recovered_row:
  assumes c: "bounded 2 c" and s2: "bounded 3 s2"
    and t: "residues t" "\<forall>k < 256. eqm (ev t k) (AS k + ev s2 k)"
    and w: "residues w" "\<forall>k < 256. eqm (ev w k) (AY k)"
    and r: "bounded (7 * 8380417) r" "\<forall>k < 256. eqm (4294967296 * r ! k) (ev c k * AS k + AY k)"
  defines "p1 \<equiv> map (\<lambda>a. fst (power2_round a)) t" and "p0 \<equiv> map (\<lambda>a. snd (power2_round a)) t"
    and "w1 \<equiv> map (\<lambda>a. fst (decompose a)) w" and "w0 \<equiv> map (\<lambda>a. snd (decompose a)) w"
  defines "d \<equiv> map reduce_32 (map2 (\<lambda>x y. i32 (x - y)) w0 (inv_ntt_to_mont (cmul c s2)))"
    and "ht \<equiv> map reduce_32 (inv_ntt_to_mont (cmul c p0))"
  defines "a0 \<equiv> map2 (\<lambda>x y. i32 (x + y)) d ht"
    and "u \<equiv> map c_addq (inv_ntt_to_mont (map reduce_32 (map2 (\<lambda>x y. i32 (x - y)) r (cmul c (map (\<lambda>x. i32 (push_bit 13 x)) p1)))))"
  assumes d: "bounded 261768 d" and ht: "bounded 261888 ht"
  shows "map2 use_hint u (map2 make_hint a0 w1) = w1"
proof -
  note P = power2_round_row [OF t(1), folded p1_def p0_def] and W = decompose_row [OF w(1), folded w1_def w0_def]
  note A = signed_low_bits [OF c s2 P(1) W(2), folded d_def ht_def, folded a0_def, OF d ht]
  note U = verifier_value [OF c P(3) r, folded P(2), folded u_def]
  let ?x = "map2 (+) (map (\<lambda>x. x * 523776) w1) a0"
  have len: "length w1 = 256" "length a0 = 256" "length u = 256" using residuesD(1) [OF w(1)] A(1) residuesD(1) [OF U(1)] by (simp_all add: w1_def bounded_length)
  have x: "bounded 8380417 ?x"
  proof (rule boundedI)
    fix n :: nat assume n: "n < 256"
    from bounded_nth [OF W(3) n] bounded_nth [OF A(1) n] show "\<bar>?x ! n\<bar> < 8380417" using n len by (simp add: abs_less_iff)
  qed (simp add: len)
  have "eqm (ev u k) (ev ?x k)" if k: "k < 256" for k
  proof -
    have "eqm (ev u k) (ev c k * AS k + AY k - ev c k * ev (map (\<lambda>x. i32 (push_bit 13 x)) p1) k)" using U(2) [OF k] by simp
    also have "\<dots> = ev c k * AS k + AY k - ev c k * (ev t k - ev p0 k)" unfolding P(2) using P(4) [of k] by simp
    also have "eqm \<dots> (ev c k * AS k + AY k - ev c k * (AS k + ev s2 k - ev p0 k))"
      using t(2) k by (intro eqm_diff eqm_mult) simp_all
    also have "\<dots> = AY k - ev c k * ev s2 k + ev c k * ev p0 k" by (simp add: algebra_simps)
    also have "eqm \<dots> (ev (map (\<lambda>x. x * 523776) w1) k + ev w0 k - ev c k * ev s2 k + ev c k * ev p0 k)"
      using eqm_sym [OF eqm_trans [OF W(4) w(2) [rule_format, OF k]]] by (intro eqm_diff eqm_add) simp_all
    also have "\<dots> = ev (map (\<lambda>x. x * 523776) w1) k + (ev w0 k - ev c k * ev s2 k + ev c k * ev p0 k)" by simp
    also have "eqm \<dots> (ev (map (\<lambda>x. x * 523776) w1) k + ev a0 k)" using eqm_sym [OF A(2) [OF k]] by (intro eqm_add) simp_all
    also have "\<dots> = ev ?x k" by (rule sym, rule ev_add) (simp_all add: len)
    finally show ?thesis .
  qed
  from ev_inj [OF residuesD(4) [OF U(1)] x _ this] have e: "eqml u ?x" by simp
  have "u ! n = (w1 ! n * 523776 + a0 ! n) mod 8380417" if n: "n < 256" for n
    using eqml_nth [OF e, of n] residuesD(2,3) [OF U(1) n] n len by (simp add: eqm_mod)
  moreover have "use_hint ((w1 ! n * 523776 + a0 ! n) mod 8380417) (make_hint (a0 ! n) (w1 ! n)) = w1 ! n" if n: "n < 256" for n
    using use_make_hint [of "w1 ! n" "a0 ! n"] W(1) [OF n] bounded_nth [OF A(1) n] by simp
  ultimately show ?thesis using len by (simp add: list_eq_iff_nth_eq)
qed

end
