(* ===== verification/Sign_Correct.thy ===== *)
theory Sign_Correct
  imports Sign_Verify
begin

text \<open>
  The operations on \<open>N_storage\<close>: what a successful pass of the rejection loop has computed, that the loop ends, that
  every operation keeps the storage well formed, and that the verifier accepts what the signer returns.
\<close>

subsection \<open>One pass of the loop\<close>

lemmas volatile_defs = poly_vec_k_reduce_volatile_def poly_vec_k_inv_ntt_to_mont_volatile_def poly_vec_k_add_volatile_def
  poly_vec_k_ntt_volatile_def poly_vec_k_c_addq_volatile_def poly_vec_k_power2_round_volatile_def
  poly_vec_l_ntt_volatile_def poly_vec_k_decompose_volatile_def poly_vec_l_pointwise_poly_montgomery_volatile_def
  poly_vec_l_inv_ntt_to_mont_volatile_def poly_vec_l_add_volatile_def poly_vec_l_reduce_volatile_def
  poly_vec_k_sub_volatile_def poly_vec_k_pointwise_poly_montgomery_volatile_def poly_ntt_volatile_def
  poly_vec_k_make_hint_volatile_def poly_vec_k_shift_l_volatile_def poly_vec_k_use_hint_volatile_def

text \<open>The parts of an attempt: the commitment, the response, the low bits and the hint.\<close>

definition commit :: "polyvec \<Rightarrow> polyvec" where
  "commit r = map (\<lambda>p. map c_addq (inv_ntt_to_mont (map reduce_32 p))) r"

definition pmul :: "poly \<Rightarrow> polyvec \<Rightarrow> polyvec" where
  "pmul c v = map (\<lambda>p. inv_ntt_to_mont (map2 (\<lambda>x y. montgomery_reduce (i64 (x * y))) c p)) v"

definition vadd :: "polyvec \<Rightarrow> polyvec \<Rightarrow> polyvec" where
  "vadd u v = map2 (map2 (\<lambda>x y. i32 (x + y))) u v"

definition vsub :: "polyvec \<Rightarrow> polyvec \<Rightarrow> polyvec" where
  "vsub u v = map2 (map2 (\<lambda>x y. i32 (x - y))) u v"

definition vreduce :: "polyvec \<Rightarrow> polyvec" where
  "vreduce v = map (map reduce_32) v"

definition high_bits :: "polyvec \<Rightarrow> polyvec" where
  "high_bits w = map (map (\<lambda>a. fst (decompose a))) w"

definition low_bits :: "polyvec \<Rightarrow> polyvec" where
  "low_bits w = map (map (\<lambda>a. snd (decompose a))) w"

definition w1_bytes :: "polyvec \<Rightarrow> byte list" where
  "w1_bytes w1 = concat (map (\<lambda>i. poly_w1_pack (w1 ! i)) [0..<K])"

definition commit_hash :: "sign_env \<Rightarrow> polyvec \<Rightarrow> byte list" where
  "commit_hash e r = shake256_of [se_mu e, w1_bytes (high_bits (commit r))] CTILDE_BYTES"

definition response :: "sign_env \<Rightarrow> polyvec \<Rightarrow> poly \<Rightarrow> polyvec" where
  "response e y cp = vreduce (vadd (pmul (ntt cp) (se_s1 e)) y)"

definition low_part :: "sign_env \<Rightarrow> polyvec \<Rightarrow> poly \<Rightarrow> polyvec" where
  "low_part e r cp = vreduce (vsub (low_bits (commit r)) (pmul (ntt cp) (se_s2 e)))"

definition t0_part :: "polyvec \<Rightarrow> poly \<Rightarrow> polyvec" where
  "t0_part t0 cp = vreduce (pmul (ntt cp) t0)"

definition hint_of :: "sign_env \<Rightarrow> polyvec \<Rightarrow> polyvec \<Rightarrow> poly \<Rightarrow> polyvec" where
  "hint_of e t0 r cp = map2 (map2 make_hint) (vadd (low_part e r cp) (t0_part t0 cp)) (high_bits (commit r))"

definition hint_count :: "polyvec \<Rightarrow> int" where
  "hint_count h = fold (\<lambda>p s. uw32 (s + fold (\<lambda>x s2. uw32 (s2 + uw32 x)) p 0)) h 0"

definition hashed_sig :: "sign_env \<Rightarrow> polyvec \<Rightarrow> byte list \<Rightarrow> byte list" where
  "hashed_sig e r sig = write_at 0 (commit_hash e r) (poly_vec_k_pack_w1_volatile (high_bits (commit r)) sig)"

text \<open>The storage and the flag after a pass, from the masking vector, the sampled product and the challenge.\<close>

definition attempt_result :: "sign_env \<Rightarrow> nvm \<Rightarrow> polyvec \<Rightarrow> polyvec \<Rightarrow> poly \<Rightarrow> nvm \<times> bool" where
  "attempt_result e s y r cp =
     (let z = response e y cp; d = low_part e r cp; ht = t0_part (nv_t0 s) cp; h = hint_of e (nv_t0 s) r cp;
          sig = hashed_sig e r (nv_sig s);
          s = s\<lparr>nv_y := y, nv_w1 := high_bits (commit r), nv_sig := sig, nv_cp := ntt cp, nv_z := z\<rparr>
      in if chk_norm_vec z (GAMMA1 - BETA) \<noteq> 0 then (s\<lparr>nv_w0 := low_bits (commit r)\<rparr>, False)
         else if chk_norm_vec d (GAMMA2 - BETA) \<noteq> 0 then (s\<lparr>nv_w0 := d, nv_h := pmul (ntt cp) (se_s2 e)\<rparr>, False)
         else if chk_norm_vec ht GAMMA2 \<noteq> 0 then (s\<lparr>nv_w0 := d, nv_h := ht\<rparr>, False)
         else if hint_count h > int OMEGA then (s\<lparr>nv_w0 := vadd d ht, nv_h := h\<rparr>, False)
         else (s\<lparr>nv_w0 := vadd d ht, nv_h := h, nv_sig := pack_sig_volatile sig (commit_hash e r) z h\<rparr>, True))"

lemma take_pack_w1: "4627 \<le> length sig \<Longrightarrow> take 1024 (poly_vec_k_pack_w1_volatile w1 sig) = w1_bytes w1"
  by (simp add: pack_w1_eq(1) length_w1_bytes w1_bytes_def)

lemma length_pack_w1 [simp]: "1024 \<le> length sig \<Longrightarrow> length (poly_vec_k_pack_w1_volatile w1 sig) = length sig"
  by (simp add: pack_w1_eq(1) length_w1_bytes)

lemma length_shake256_of [simp]: "length (shake256_of parts n) = n"
  by (simp add: shake256_of_def sh256.length_squeeze)

lemma gamma1_volatile: "poly_vec_l_uniform_gamma1_volatile seed nonce = map (\<lambda>j. poly_uniform_gamma1 seed (7 * nonce + of_nat j)) [0..<7]"
  unfolding poly_vec_l_uniform_gamma1_volatile_def poly_uniform_gamma1_def poly_z_unpack_def
  by (simp add: case_prod_beta Let_def)

lemma volatile_eqs:
  "poly_vec_l_pointwise_poly_montgomery_volatile c v = map (map2 (\<lambda>x y. montgomery_reduce (i64 (x * y))) c) v"
  "poly_vec_k_pointwise_poly_montgomery_volatile c v = map (map2 (\<lambda>x y. montgomery_reduce (i64 (x * y))) c) v"
  "poly_vec_l_inv_ntt_to_mont_volatile (map (map2 (\<lambda>x y. montgomery_reduce (i64 (x * y))) c) v) = pmul c v"
  "poly_vec_k_inv_ntt_to_mont_volatile (map (map2 (\<lambda>x y. montgomery_reduce (i64 (x * y))) c) v) = pmul c v"
  "poly_vec_l_add_volatile u v = vadd u v" "poly_vec_k_add_volatile u v = vadd u v" "poly_vec_k_sub_volatile u v = vsub u v"
  "poly_vec_l_reduce_volatile v = vreduce v" "poly_vec_k_reduce_volatile v = vreduce v"
  "poly_vec_k_c_addq_volatile (poly_vec_k_inv_ntt_to_mont_volatile (vreduce v)) = commit v"
  "poly_vec_l_ntt_volatile v = map ntt v" "poly_vec_k_ntt_volatile v = map ntt v" "poly_ntt_volatile c = ntt c"
  "poly_vec_k_decompose_volatile v = (high_bits v, low_bits v)"
  "poly_vec_k_make_hint_volatile u v = (map2 (map2 make_hint) u v, hint_count (map2 (map2 make_hint) u v))"
  "poly_vec_l_chk_norm v b = chk_norm_vec v b" "poly_vec_k_chk_norm v b = chk_norm_vec v b"
  by (simp_all add: volatile_defs pmul_def vadd_def vsub_def vreduce_def commit_def high_bits_def low_bits_def
      hint_count_def Let_def poly_vec_l_chk_norm_def poly_vec_k_chk_norm_def)

text \<open>Evaluation of a \<open>do\<close> block from the front, one step at a time.\<close>

lemma bind_weak_cong: "x = y \<Longrightarrow> x \<bind> f = y \<bind> f" for x :: "'a option"
  by simp

lemmas do_congs = bind_weak_cong let_weak_cong if_weak_cong

lemma sign_attempt_eq:
  assumes "length (nv_sig s) = 4627"
  shows "sign_attempt e nonce s =
    (let y = poly_vec_l_uniform_gamma1_volatile (se_rhoPrime e) nonce
     in do { r \<leftarrow> combined_method (nv_w1 s) (map ntt y) (se_rho e);
             cp \<leftarrow> poly_challenge_volatile (commit_hash e r);
             Some (attempt_result e s y r cp) })"
proof -
  define y where "y = poly_vec_l_uniform_gamma1_volatile (se_rhoPrime e) nonce"
  have sig: "take 64 (hashed_sig e r (nv_sig s)) = commit_hash e r" for r
    by (simp add: hashed_sig_def write_at_def commit_hash_def)
  note parts = commit_hash_def hashed_sig_def response_def low_part_def t0_part_def hint_of_def
  note step = sign_attempt_def volatile_eqs take_pack_w1 assms sig
  show ?thesis
  proof (cases "combined_method (nv_w1 s) (map ntt y) (se_rho e)")
    case None
    then show ?thesis by (simp add: step Let_def cong: do_congs flip: y_def)
  next
    case r: (Some r)
    show ?thesis
    proof (cases "poly_challenge_volatile (commit_hash e r)")
      case None
      then show ?thesis using r sig [of r]
        by (simp add: step parts Let_def cong: do_congs flip: y_def)
    next
      case cp: (Some cp)
      then show ?thesis using r sig [of r]
        by (simp add: step attempt_result_def parts Let_def cong: do_congs split: if_split flip: y_def)
    qed
  qed
qed

subsection \<open>The storage stays well formed\<close>

lemma length_ntt: "length a = 256 \<Longrightarrow> length (ntt a) = 256" "length a = 256 \<Longrightarrow> length (inv_ntt_to_mont a) = 256"
  by (simp_all add: ntt_eq_layers inv_ntt_eq_layers fwd_layer_def inv_layer_def)

lemma polyvec_ok_ops [wf_intros]:
  "polyvec_ok n v \<Longrightarrow> polyvec_ok n (vreduce v)"
  "polyvec_ok n u \<Longrightarrow> polyvec_ok n v \<Longrightarrow> polyvec_ok n (vadd u v)"
  "polyvec_ok n u \<Longrightarrow> polyvec_ok n v \<Longrightarrow> polyvec_ok n (vsub u v)"
  "polyvec_ok n v \<Longrightarrow> length c = 256 \<Longrightarrow> polyvec_ok n (pmul c v)"
  "polyvec_ok n v \<Longrightarrow> polyvec_ok n (commit v)"
  "polyvec_ok n v \<Longrightarrow> polyvec_ok n (map (map f) v)"
  "polyvec_ok n v \<Longrightarrow> polyvec_ok n (map ntt v)"
  "polyvec_ok n u \<Longrightarrow> polyvec_ok n v \<Longrightarrow> polyvec_ok n (map2 (map2 g) u v)"
  by (auto simp: vreduce_def vadd_def vsub_def pmul_def commit_def length_ntt polyvec_ok_def list_all_length)

definition env_ok :: "sign_env \<Rightarrow> bool" where
  "env_ok e \<longleftrightarrow> polyvec_ok L (se_s1 e) \<and> polyvec_ok K (se_s2 e)"

lemma combined_row_length:
  "combined_row rho v i js t = Some r \<Longrightarrow> \<forall>j \<in> set js. j < 7 \<Longrightarrow> polyvec_ok 7 v \<Longrightarrow>
   length t = 256 \<or> (\<exists>js'. js = 0 # js') \<Longrightarrow> length r = 256"
proof (induction js arbitrary: t)
  case (Cons j js)
  then obtain a where a: "matrix_entry rho i j = Some a" by (auto simp: Option.bind_eq_Some_conv)
  have "length (v ! j) = 256" using Cons.prems(2,3) by (simp add: polyvec_ok_def list_all_length)
  then have "length (poly_pointwise_montgomery a (v ! j)) = 256" using matrix_entry_range(1) [OF a] by (intro length_poly_ops)
  then show ?case using Cons a by (cases "j = 0") (auto simp: Let_def poly_add_def)
qed auto

lemma combined_method_ok:
  assumes "combined_method told v rho = Some r" "polyvec_ok 7 v"
  shows "polyvec_ok 8 r"
proof -
  have "length (r ! i) = 256" if "i < 8" for i
  proof (rule combined_row_length)
    show "combined_row rho v i [0..<7] (told ! i) = Some (r ! i)"
      using assms(1) that by (simp add: combined_method_def those_map_Some)
    show "length (told ! i) = 256 \<or> (\<exists>js'. [0..<7] = (0 :: nat) # js')" using upt_conv_Cons [of 0 7] by auto
  qed (use assms(2) in auto)
  then show ?thesis using assms(1) by (auto simp: polyvec_ok_def list_all_length combined_method_def those_map_Some)
qed

lemma gamma1_ok: "polyvec_ok 7 (poly_vec_l_uniform_gamma1_volatile seed nonce)"
  by (simp add: gamma1_volatile polyvec_ok_def list_all_iff poly_uniform_gamma1_range(1))

lemma length_pack_sig: "length c = 64 \<Longrightarrow> length sig = 4627 \<Longrightarrow> length (pack_sig_volatile sig c z h) = 4627"
  using pack_sig_eq [OF _ _ length_hint_bytes, of c sig z h] by (simp add: length_z_bytes length_hint_bytes)

lemma length_hashed_sig: "length sig = 4627 \<Longrightarrow> length (hashed_sig e r sig) = 4627"
  by (simp add: hashed_sig_def commit_hash_def)

text \<open>What a pass leaves alone, and that it keeps the storage well formed.\<close>

lemma attempt_result_frame:
  assumes "attempt_result e s y r cp = (s', b)"
  shows "nv_t0 s' = nv_t0 s" "nv_t1 s' = nv_t1 s" "nv_pk s' = nv_pk s"
    "enable_blind_signing s' = enable_blind_signing s" "is_sending_signature s' = is_sending_signature s"
  using assms by (auto simp: attempt_result_def Let_def split: if_splits)

lemma attempt_result_ok:
  assumes "attempt_result e s y r cp = (s', b)" "env_ok e" "nvm_ok s" "polyvec_ok 7 y" "polyvec_ok 8 r" "length cp = 256"
  shows "nvm_ok s'"
proof -
  have w: "polyvec_ok 8 (high_bits (commit r))" "polyvec_ok 8 (low_bits (commit r))"
    by (simp_all add: high_bits_def low_bits_def polyvec_ok_ops assms(5))
  have p: "polyvec_ok 8 (pmul (ntt cp) (se_s2 e))" "polyvec_ok 7 (pmul (ntt cp) (se_s1 e))" "polyvec_ok 8 (pmul (ntt cp) (nv_t0 s))"
    using assms by (auto simp: env_ok_def nvm_ok_def length_ntt intro!: polyvec_ok_ops)
  have v: "polyvec_ok 7 (response e y cp)" "polyvec_ok 8 (low_part e r cp)" "polyvec_ok 8 (t0_part (nv_t0 s) cp)"
    using w p assms(4) by (simp_all add: response_def low_part_def t0_part_def polyvec_ok_ops(1-3))
  have h: "polyvec_ok 8 (hint_of e (nv_t0 s) r cp)" "polyvec_ok 8 (vadd (low_part e r cp) (t0_part (nv_t0 s) cp))"
    using v w by (simp_all add: hint_of_def polyvec_ok_ops(2,8))
  show ?thesis using assms(1,3,4,6) w p v h
    by (auto simp: attempt_result_def Let_def nvm_ok_def length_ntt length_pack_sig length_hashed_sig commit_hash_def split: if_splits)
qed


text \<open>What a successful pass has established.\<close>

definition accepted :: "sign_env \<Rightarrow> polyvec \<Rightarrow> byte list \<Rightarrow> polyvec \<Rightarrow> polyvec \<Rightarrow> bool" where
  "accepted e t0 c z h \<longleftrightarrow> (\<exists>y r cp told.
     length y = L \<and> list_all (bounded 524289) y \<and> combined_method told (map ntt y) (se_rho e) = Some r
     \<and> c = commit_hash e r \<and> poly_challenge_volatile c = Some cp
     \<and> z = response e y cp \<and> chk_norm_vec z (GAMMA1 - BETA) = 0
     \<and> chk_norm_vec (low_part e r cp) (GAMMA2 - BETA) = 0 \<and> chk_norm_vec (t0_part t0 cp) GAMMA2 = 0
     \<and> h = hint_of e t0 r cp \<and> hint_count h \<le> int OMEGA)"

lemma sign_attempt_result:
  assumes "sign_attempt e nonce s = Some (s', b)" "env_ok e" "nvm_ok s"
  shows "nvm_ok s'" "nv_t0 s' = nv_t0 s" "nv_t1 s' = nv_t1 s" "nv_pk s' = nv_pk s"
    "b \<Longrightarrow> \<exists>c z h sig. nv_sig s' = pack_sig_volatile sig c z h \<and> length sig = 4627 \<and> accepted e (nv_t0 s) c z h"
proof -
  let ?y = "poly_vec_l_uniform_gamma1_volatile (se_rhoPrime e) nonce"
  have sig: "length (nv_sig s) = 4627" using assms(3) by (simp add: nvm_ok_def)
  from assms(1) obtain r cp where r: "combined_method (nv_w1 s) (map ntt ?y) (se_rho e) = Some r"
    and cp: "poly_challenge_volatile (commit_hash e r) = Some cp" and res: "attempt_result e s ?y r cp = (s', b)"
    by (auto simp: sign_attempt_eq [OF sig] Let_def Option.bind_eq_Some_conv)
  show "nv_t0 s' = nv_t0 s" "nv_t1 s' = nv_t1 s" "nv_pk s' = nv_pk s" by (rule attempt_result_frame [OF res])+
  show "nvm_ok s'"
    using attempt_result_ok [OF res assms(2,3) gamma1_ok] combined_method_ok [OF r] bounded_length [OF challenge_bounded [OF cp]]
    by (simp add: polyvec_ok_ops gamma1_ok)
  assume b
  have y: "length ?y = 7" "list_all (bounded 524289) ?y"
    by (simp_all add: gamma1_volatile list_all_iff poly_uniform_gamma1_range(3))
  let ?z = "response e ?y cp" and ?h = "hint_of e (nv_t0 s) r cp"
  have "nv_sig s' = pack_sig_volatile (hashed_sig e r (nv_sig s)) (commit_hash e r) ?z ?h \<and> accepted e (nv_t0 s) (commit_hash e r) ?z ?h"
    using res \<open>b\<close> r cp y unfolding accepted_def attempt_result_def Let_def by (auto split: if_splits simp: not_less)
  then show "\<exists>c z h sig. nv_sig s' = pack_sig_volatile sig c z h \<and> length sig = 4627 \<and> accepted e (nv_t0 s) c z h"
    using length_hashed_sig [OF sig] by blast
qed

lemma sign_loop_result:
  assumes "sign_loop e nonce a s = Some (s', st)" "env_ok e" "nvm_ok s"
  shows "nvm_ok s' \<and> nv_t1 s' = nv_t1 s \<and> nv_pk s' = nv_pk s \<and> nv_t0 s' = nv_t0 s \<and>
    (st = Code ERR_NONE \<longrightarrow> (\<exists>c z h sig. nv_sig s' = pack_sig_volatile sig c z h \<and> length sig = 4627 \<and> accepted e (nv_t0 s) c z h))"
  using assms
proof (induction e nonce a s rule: sign_loop.induct)
  case (1 e nonce a s)
  show ?case
  proof (cases "814 \<le> a")
    case True
    with 1 show ?thesis by (auto simp: sign_loop.simps [of e nonce a s])
  next
    case False
    with "1.prems"(1) obtain s1 b where at: "sign_attempt e nonce s = Some (s1, b)"
      by (auto simp: sign_loop.simps [of e nonce a s] split: option.splits)
    note r = sign_attempt_result [OF at "1.prems"(2,3)]
    show ?thesis
    proof (cases b)
      case True
      with False at "1.prems"(1) r show ?thesis by (simp add: sign_loop.simps [of e nonce a s])
    next
      case nb: False
      with False at "1.prems"(1) have "sign_loop e (nonce + 1) (a + 1) s1 = Some (s', st)" by (simp add: sign_loop.simps [of e nonce a s])
      with "1.IH" [of "(s1, b)" s1 b] False at nb r(1-4) "1.prems"(2) show ?thesis by simp
    qed
  qed
qed


subsection \<open>The values of a successful pass\<close>

lemma chk_norm_bounded:
  assumes "chk_norm_vec v b = 0" "p \<in> set v" "bounded 1073741824 p" "0 \<le> b"
  shows "bounded b p"
proof -
  have "poly_chk_norm p b = 0" using assms(1,2) by (simp add: chk_norm_vec_0 list_all_iff)
  then show ?thesis using poly_chk_norm_eq [OF assms(3,4)] assms(3) by (auto simp: bounded_def split: if_splits)
qed

lemma pmul_map: "pmul (ntt c) (map ntt v) = map (\<lambda>p. inv_ntt_to_mont (cmul c p)) v"
  by (simp add: pmul_def cmul_def)

lemma response_row:
  assumes "bounded 2 cp" "se_s1 e = map ntt s1" "length s1 = 7" "length y = 7" "j < 7" "bounded 3 (s1 ! j)" "bounded 524289 (y ! j)"
  shows "bounded 6283010 (response e y cp ! j)"
    "k < 256 \<Longrightarrow> eqm (ev (response e y cp ! j) k) (ev cp k * ev (s1 ! j) k + ev (y ! j) k)"
proof -
  let ?p = "inv_ntt_to_mont (cmul cp (s1 ! j))" and ?s = "map2 (\<lambda>x y. i32 (x + y)) (inv_ntt_to_mont (cmul cp (s1 ! j))) (y ! j)"
  have z: "response e y cp ! j = map reduce_32 ?s"
    using assms(2-5) by (simp add: response_def vreduce_def vadd_def pmul_map)
  note m = cmul_correct [OF assms(1,6)]
  have p: "bounded 4211199 ?p" using m(3) by simp
  note a = add_ev [OF p assms(7)]
  have s: "bounded 2143289344 ?s" by (rule bounded_mono [OF a(2)]) simp_all
  show "bounded 6283010 (response e y cp ! j)" unfolding z by (rule reduce_ev(1) [OF s])
  assume k: "k < 256"
  have "eqm (ev (response e y cp ! j) k) (ev ?p k + ev (y ! j) k)" using reduce_ev(2) [OF s, of k] a(3) [of k] by (simp add: z)
  also have "eqm \<dots> (ev cp k * ev (s1 ! j) k + ev (y ! j) k)" using m(4) [OF _ k] by (intro eqm_add) simp_all
  finally show "eqm (ev (response e y cp ! j) k) (ev cp k * ev (s1 ! j) k + ev (y ! j) k)" .
qed

lemma commit_row:
  assumes "combined_method told (map ntt y) rho = Some r" "length y = 7" "list_all (bounded 524289) y" "i < 8"
  shows "length r = 8" "residues (commit r ! i)" "k < 256 \<Longrightarrow> eqm (ev (commit r ! i) k) (\<Sum>m<7. mat rho i m ! k * ev (y ! m) k)"
proof -
  have y: "bounded 524289 (y ! j)" if "j < 7" for j using assms(2,3) that by (simp add: list_all_length)
  show lr: "length r = 8" using assms(1) by (auto simp: combined_method_def those_map_Some)
  have m: "bounded 4211199 (inv_ntt_to_mont (map reduce_32 (r ! i)))"
    "k < 256 \<Longrightarrow> eqm (ev (inv_ntt_to_mont (map reduce_32 (r ! i))) k) (\<Sum>m<7. mat rho i m ! k * ev (y ! m) k)" for k
    using matvec [OF assms(1,2) y _ assms(4)] by simp_all
  have "bounded 8380417 (inv_ntt_to_mont (map reduce_32 (r ! i)))" by (rule bounded_mono [OF m(1)]) simp
  note c = c_addq_residues [OF this]
  have e: "commit r ! i = map c_addq (inv_ntt_to_mont (map reduce_32 (r ! i)))" using lr assms(4) by (simp add: commit_def)
  show "residues (commit r ! i)" unfolding e by (rule c(2))
  show "k < 256 \<Longrightarrow> eqm (ev (commit r ! i) k) (\<Sum>m<7. mat rho i m ! k * ev (y ! m) k)"
    unfolding e by (rule eqm_trans [OF c(3) m(2)])
qed

lemma filter_nonzero_row_pos: "length p = 256 \<Longrightarrow> length (filter (\<lambda>x. x \<noteq> 0) p) = length (row_pos p)"
proof -
  assume "length p = 256"
  then have "filter (\<lambda>x. x \<noteq> 0) p = filter (\<lambda>x. x \<noteq> 0) (map ((!) p) [0..<256])" using map_nth [of p] by simp
  then show ?thesis by (simp add: row_pos_def filter_map comp_def)
qed

lemma hint_count_fold:
  assumes "list_all hint_poly_ok h" "0 \<le> s" "s + 256 * int (length h) < 4294967296"
  shows "fold (\<lambda>p s. uw32 (s + fold (\<lambda>x s2. uw32 (s2 + uw32 x)) p 0)) h s = s + int (length (concat (map row_pos h)))"
  using assms
proof (induction h arbitrary: s)
  case (Cons p h)
  then have p: "length p = 256" "set p \<subseteq> {0, 1}" by (simp_all add: hint_poly_ok_def)
  have c: "fold (\<lambda>x s2. uw32 (s2 + uw32 x)) p 0 = int (length (row_pos p))"
    using count_ones_fold [OF p(2), of 0] p(1) filter_nonzero_row_pos [OF p(1)] by simp
  have "length (row_pos p) \<le> 256" unfolding row_pos_def using length_filter_le [of _ "[0..<256]"] by (metis diff_zero length_upt)
  with Cons.prems have "uw32 (s + int (length (row_pos p))) = s + int (length (row_pos p))" "s + int (length (row_pos p)) + 256 * int (length h) < 4294967296"
    by simp_all
  with Cons c show ?case by simp
qed simp

lemma hint_of_ok:
  assumes "polyvec_ok 8 (hint_of e t0 r cp)" "hint_count (hint_of e t0 r cp) \<le> 75"
  shows "hint_ok (hint_of e t0 r cp)"
proof -
  let ?h = "hint_of e t0 r cp"
  have "set p \<subseteq> {0, 1}" if "p \<in> set ?h" for p
    using that make_hint_bit unfolding hint_of_def by (fastforce simp: set_zip)
  then have l: "list_all hint_poly_ok ?h" using assms(1) by (auto simp: list_all_iff hint_poly_ok_def polyvec_ok_def)
  have h: "length ?h = 8" using assms(1) by (simp add: polyvec_ok_def)
  then have "map (\<lambda>i. row_pos (?h ! i)) [0..<8] = map row_pos ?h" by (intro nth_equalityI) simp_all
  then have "all_pos ?h 8 = concat (map row_pos ?h)" unfolding all_pos_def by simp
  then have "length (all_pos ?h 8) \<le> 75" using hint_count_fold [OF l, of 0] assms(2) h by (simp add: hint_count_def)
  with l h show ?thesis by (simp add: hint_ok_def)
qed


subsection \<open>What the verifier recomputes\<close>

text \<open>A key: its secret vectors, the public \<open>t\<close> and the environment of the loop.\<close>

definition key_ok :: "sign_env \<Rightarrow> polyvec \<Rightarrow> polyvec \<Rightarrow> polyvec \<Rightarrow> bool" where
  "key_ok e s1 s2 t \<longleftrightarrow> length s1 = L \<and> list_all (bounded 3) s1 \<and> length s2 = K \<and> list_all (bounded 3) s2
     \<and> se_s1 e = map ntt s1 \<and> se_s2 e = map ntt s2 \<and> (\<exists>told. public_t (se_rho e) (map ntt s1) s2 told = Some t)"

definition t1_of :: "polyvec \<Rightarrow> polyvec" where
  "t1_of t = map (map (\<lambda>a. fst (power2_round a))) t"

definition t0_of :: "polyvec \<Rightarrow> polyvec" where
  "t0_of t = map (map (\<lambda>a. snd (power2_round a))) t"

text \<open>The high bits the verifier gets from its product \<open>rv\<close>, the challenge, \<open>t1\<close> and the hint.\<close>

definition recover :: "polyvec \<Rightarrow> poly \<Rightarrow> polyvec \<Rightarrow> polyvec \<Rightarrow> polyvec" where
  "recover rv cp t1 h = map2 (map2 use_hint) (commit (vsub rv (map (cmul cp) (map (map (\<lambda>x. i32 (push_bit D x))) t1)))) h"

lemma key_rows:
  assumes "key_ok e s1 s2 t"
  shows "mat_defined (se_rho e)" "length t = 8" "i < 8 \<Longrightarrow> residues (t ! i)" "j < 7 \<Longrightarrow> bounded 3 (s1 ! j)" "i < 8 \<Longrightarrow> bounded 3 (s2 ! i)"
    "i < 8 \<Longrightarrow> k < 256 \<Longrightarrow> eqm (ev (t ! i) k) ((\<Sum>m<7. mat (se_rho e) i m ! k * ev (s1 ! m) k) + ev (s2 ! i) k)"
    "i < 8 \<Longrightarrow> bounded 4097 (t0_of t ! i)"
proof -
  from assms obtain told where p: "public_t (se_rho e) (map ntt s1) s2 told = Some t" by (auto simp: key_ok_def)
  have s: "length s1 = 7" "length s2 = 8" "\<And>j. j < 7 \<Longrightarrow> bounded 3 (s1 ! j)" "\<And>i. i < 8 \<Longrightarrow> bounded 3 (s2 ! i)"
    using assms by (simp_all add: key_ok_def list_all_length)
  note r = public_t_row [OF p s(1) _ s(2)]
  show "mat_defined (se_rho e)" "i < 8 \<Longrightarrow> residues (t ! i)" "j < 7 \<Longrightarrow> bounded 3 (s1 ! j)" "i < 8 \<Longrightarrow> bounded 3 (s2 ! i)"
    "i < 8 \<Longrightarrow> k < 256 \<Longrightarrow> eqm (ev (t ! i) k) ((\<Sum>m<7. mat (se_rho e) i m ! k * ev (s1 ! m) k) + ev (s2 ! i) k)"
    using r s by blast+
  show lt: "length t = 8" using r(2) s by blast
  assume i: "i < 8"
  then have "residues (t ! i)" using r(3) s by blast
  from power2_round_row(1) [OF this] show "bounded 4097 (t0_of t ! i)" using lt i by (simp add: t0_of_def)
qed

lemma accepted_parts:
  assumes "key_ok e s1 s2 t" "combined_method told (map ntt y) (se_rho e) = Some r" "length y = 7" "list_all (bounded 524289) y"
    "bounded 2 cp" "i < 8"
  shows "low_part e r cp ! i = map reduce_32 (map2 (\<lambda>x y. i32 (x - y)) (map (\<lambda>a. snd (decompose a)) (commit r ! i)) (inv_ntt_to_mont (cmul cp (s2 ! i))))"
    "t0_part (map ntt (t0_of t)) cp ! i = map reduce_32 (inv_ntt_to_mont (cmul cp (t0_of t ! i)))"
    "bounded 6283010 (low_part e r cp ! i)" "bounded 6283010 (t0_part (map ntt (t0_of t)) cp ! i)"
    "length (low_part e r cp) = 8" "length (t0_part (map ntt (t0_of t)) cp) = 8"
proof -
  note key = key_rows [OF assms(1)] and com = commit_row [OF assms(2-4,6)]
  have s2: "length s2 = 8" "se_s2 e = map ntt s2" using assms(1) by (simp_all add: key_ok_def)
  have lt: "length (t0_of t) = 8" "length (commit r) = 8" using key(2) com(1) by (simp_all add: t0_of_def commit_def)
  show d: "low_part e r cp ! i = map reduce_32 (map2 (\<lambda>x y. i32 (x - y)) (map (\<lambda>a. snd (decompose a)) (commit r ! i)) (inv_ntt_to_mont (cmul cp (s2 ! i))))"
    and h: "t0_part (map ntt (t0_of t)) cp ! i = map reduce_32 (inv_ntt_to_mont (cmul cp (t0_of t ! i)))"
    and "length (low_part e r cp) = 8" "length (t0_part (map ntt (t0_of t)) cp) = 8"
    using assms(6) lt s2 by (simp_all add: low_part_def t0_part_def vreduce_def vsub_def low_bits_def pmul_map)
  have m: "bounded 4211199 (inv_ntt_to_mont (cmul cp (s2 ! i)))" "bounded 4211199 (inv_ntt_to_mont (cmul cp (t0_of t ! i)))"
    using cmul_correct(3) [OF assms(5) key(5) [OF assms(6)]] cmul_correct(3) [OF assms(5) key(7) [OF assms(6)]] by simp_all
  note w0 = decompose_row(2) [OF com(2)]
  show "bounded 6283010 (low_part e r cp ! i)"
    unfolding d by (rule reduce_ev(1), rule bounded_mono [OF add_ev(5) [OF w0 m(1)]]) simp_all
  show "bounded 6283010 (t0_part (map ntt (t0_of t)) cp ! i)"
    unfolding h by (rule reduce_ev(1), rule bounded_mono [OF m(2)]) simp
qed

lemma verifier_product:
  assumes "key_ok e s1 s2 t" "length y = 7" "list_all (bounded 524289) y" "bounded 2 cp"
    "combined_method told (map ntt (response e y cp)) (se_rho e) = Some rv" "i < 8"
  shows "bounded (7 * 8380417) (rv ! i)" "length rv = 8"
    "\<forall>k < 256. eqm (4294967296 * rv ! i ! k)
       (ev cp k * (\<Sum>m<7. mat (se_rho e) i m ! k * ev (s1 ! m) k) + (\<Sum>m<7. mat (se_rho e) i m ! k * ev (y ! m) k))"
proof -
  let ?z = "response e y cp" and ?A = "\<lambda>m k. mat (se_rho e) i m ! k"
  note key = key_rows [OF assms(1)]
  have s1: "length s1 = 7" "se_s1 e = map ntt s1" using assms(1) by (simp_all add: key_ok_def)
  have lz: "length ?z = 7" using s1 assms(2) by (simp add: response_def vreduce_def vadd_def pmul_def)
  have y: "bounded 524289 (y ! j)" if "j < 7" for j using assms(2,3) that by (simp add: list_all_length)
  note z = response_row [OF assms(4) s1(2,1) assms(2) _ key(4) y]
  have n: "bounded (6283010 + 67043336) (map ntt ?z ! j)" if "j < 7" for j
    using ntt_bounds [OF z(1) [OF that that that]] lz that by simp
  note c = combined_correct [of _ _ _ _ "6283010 + 67043336", OF assms(5) n]
  show "length rv = 8" using assms(5) by (auto simp: combined_method_def those_map_Some)
  show "bounded (7 * 8380417) (rv ! i)" by (rule c(2) [OF _ _ assms(6)]) simp_all
  show "\<forall>k < 256. eqm (4294967296 * rv ! i ! k) (ev cp k * (\<Sum>m<7. ?A m k * ev (s1 ! m) k) + (\<Sum>m<7. ?A m k * ev (y ! m) k))"
  proof (intro allI impI)
    fix k :: nat assume k: "k < 256"
    have "eqm (4294967296 * rv ! i ! k) (\<Sum>m<7. ?A m k * map ntt ?z ! m ! k)" by (rule c(3) [OF _ _ assms(6) k]) simp_all
    also have "eqm \<dots> (\<Sum>m<7. ?A m k * (ev cp k * ev (s1 ! m) k + ev (y ! m) k))"
    proof (intro eqm_sum eqm_mult eqm_refl)
      fix m assume "m \<in> {..<7 :: nat}"
      then have m: "m < 7" by simp
      have "eqm (map ntt ?z ! m ! k) (ev (?z ! m) k)" using ntt_ev [OF z(1) [OF m m m] _ k] lz m by simp
      also have "eqm \<dots> (ev cp k * ev (s1 ! m) k + ev (y ! m) k)" by (rule z(2) [OF m m m k])
      finally show "eqm (map ntt ?z ! m ! k) (ev cp k * ev (s1 ! m) k + ev (y ! m) k)" .
    qed
    also have "(\<Sum>m<7. ?A m k * (ev cp k * ev (s1 ! m) k + ev (y ! m) k)) =
        ev cp k * (\<Sum>m<7. ?A m k * ev (s1 ! m) k) + (\<Sum>m<7. ?A m k * ev (y ! m) k)"
      unfolding sum_distrib_left sum.distrib [symmetric] by (intro sum.cong refl) (simp add: algebra_simps)
    finally show "eqm (4294967296 * rv ! i ! k) (ev cp k * (\<Sum>m<7. ?A m k * ev (s1 ! m) k) + (\<Sum>m<7. ?A m k * ev (y ! m) k))" .
  qed
qed

lemma recover_high_bits:
  assumes "key_ok e s1 s2 t" "combined_method told (map ntt y) (se_rho e) = Some r" "length y = 7" "list_all (bounded 524289) y"
    "bounded 2 cp" "chk_norm_vec (low_part e r cp) 261768 = 0" "chk_norm_vec (t0_part (map ntt (t0_of t)) cp) 261888 = 0"
    "combined_method told' (map ntt (response e y cp)) (se_rho e) = Some rv"
  shows "recover rv cp (t1_of t) (hint_of e (map ntt (t0_of t)) r cp) = high_bits (commit r)"
proof (rule nth_equalityI)
  note key = key_rows [OF assms(1)]
  have len: "length (commit r) = 8" "length rv = 8" "length t = 8"
    using commit_row(1) [OF assms(2-4), of 0] verifier_product(2) [OF assms(1,3-5,8), of 0] key(2) by (simp_all add: commit_def)
  have pl: "length (low_part e r cp) = 8" "length (t0_part (map ntt (t0_of t)) cp) = 8"
    using accepted_parts(5,6) [OF assms(1-5), of 0] by simp_all
  show "length (recover rv cp (t1_of t) (hint_of e (map ntt (t0_of t)) r cp)) = length (high_bits (commit r))"
    using len pl by (simp add: recover_def high_bits_def commit_def vsub_def t1_of_def hint_of_def vadd_def)
  fix i assume "i < length (recover rv cp (t1_of t) (hint_of e (map ntt (t0_of t)) r cp))"
  then have i: "i < 8" using len by (simp add: recover_def commit_def vsub_def t1_of_def)
  note com = commit_row [OF assms(2-4) i] and p = accepted_parts [OF assms(1-5) i] and v = verifier_product [OF assms(1,3-5,8) i]
  have d: "bounded 261768 (low_part e r cp ! i)" "bounded 261888 (t0_part (map ntt (t0_of t)) cp ! i)"
    using p(5,6) i bounded_mono [OF p(3), of 1073741824] bounded_mono [OF p(4), of 1073741824]
    by (auto intro!: chk_norm_bounded [OF assms(6)] chk_norm_bounded [OF assms(7)])
  have t0: "t0_of t ! i = map (\<lambda>a. snd (power2_round a)) (t ! i)" using i len by (simp add: t0_of_def)
  have "map2 use_hint (map c_addq (inv_ntt_to_mont (map reduce_32 (map2 (\<lambda>x y. i32 (x - y)) (rv ! i)
            (cmul cp (map (\<lambda>x. i32 (push_bit 13 x)) (map (\<lambda>a. fst (power2_round a)) (t ! i))))))))
      (map2 make_hint (map2 (\<lambda>x y. i32 (x + y)) (low_part e r cp ! i) (t0_part (map ntt (t0_of t)) cp ! i))
        (map (\<lambda>a. fst (decompose a)) (commit r ! i)))
      = map (\<lambda>a. fst (decompose a)) (commit r ! i)"
    unfolding p(1,2) t0
  proof (rule recovered_row [OF assms(5) key(5) [OF i] key(3) [OF i] _ com(2) _ v(1,3)])
    show "bounded 261768 (map reduce_32 (map2 (\<lambda>x y. i32 (x - y)) (map (\<lambda>a. snd (decompose a)) (commit r ! i)) (inv_ntt_to_mont (cmul cp (s2 ! i)))))"
      using d(1) unfolding p(1) .
    show "bounded 261888 (map reduce_32 (inv_ntt_to_mont (cmul cp (map (\<lambda>a. snd (power2_round a)) (t ! i)))))"
      using d(2) unfolding p(2) t0 .
  qed (use key(6) [OF i] com(3) in blast)+
  then show "recover rv cp (t1_of t) (hint_of e (map ntt (t0_of t)) r cp) ! i = high_bits (commit r) ! i"
    using i len pl by (simp add: recover_def high_bits_def commit_def vsub_def t1_of_def hint_of_def vadd_def)
qed

subsection \<open>Keys\<close>

lemma uniform_eta_vec:
  "poly_vec_l_uniform_eta seed nonce = Some v \<Longrightarrow> length v = 7 \<and> list_all (bounded 3) v"
  "poly_vec_k_uniform_eta seed nonce = Some v \<Longrightarrow> length v = 8 \<and> list_all (bounded 3) v"
  by (auto simp: poly_vec_l_uniform_eta_def poly_vec_k_uniform_eta_def those_map_Some list_all_length intro: poly_uniform_eta_range(3))

lemma bounded_polyvec_ok: "list_all (bounded B) v \<Longrightarrow> polyvec_ok (length v) v"
  by (auto simp: polyvec_ok_def list_all_iff bounded_length)

lemma length_expand_seed: "expand_seed seed = (rho, rhoPrime, key) \<Longrightarrow> length rho = 32"
proof -
  assume "expand_seed seed = (rho, rhoPrime, key)"
  then have "rho = fst (shake256_squeeze (shake256_finalize (shake256_absorb (shake256_absorb shake256_init seed) [8, 7])) 32)"
    by (simp add: expand_seed_def case_prod_beta Let_def)
  then show ?thesis by (simp add: sh256.length_squeeze)
qed

lemma public_t_old: "public_t rho v s2 told = public_t rho v s2 told'"
  unfolding public_t_def by (subst combined_method_old [of told _ _ told']) (rule refl)

lemma public_t_ok: "public_t rho v s2 told = Some t \<Longrightarrow> polyvec_ok 7 v \<Longrightarrow> polyvec_ok 8 s2 \<Longrightarrow> polyvec_ok 8 t"
  by (auto simp: public_t_def Option.bind_eq_Some_conv poly_vec_k_reduce_volatile_def poly_vec_k_inv_ntt_to_mont_volatile_def
      poly_vec_k_add_volatile_def poly_vec_k_c_addq_volatile_def polyvec_ok_def list_all_length length_ntt dest!: combined_method_ok)

text \<open>The public key of a \<open>t\<close>, and the message representative of a key.\<close>

definition pk_of :: "byte list \<Rightarrow> polyvec \<Rightarrow> byte list" where
  "pk_of rho t = rho @ concat (map (\<lambda>b. poly_t1_pack (t1_of t ! b)) [0..<K])"

definition mu_of :: "byte list \<Rightarrow> byte list \<Rightarrow> byte list" where
  "mu_of pk message = shake256_of [shake256_of [pk] TR_BYTES, pre_bytes, message] CRH_BYTES"

lemma power2_round_parts: "poly_vec_k_power2_round_volatile t = (t1_of t, t0_of t)"
  by (simp add: poly_vec_k_power2_round_volatile_def t1_of_def t0_of_def)

lemma pack_pk_of: "length rho = 32 \<Longrightarrow> length pk = 2592 \<Longrightarrow> pack_pk_volatile rho (t1_of t) pk = pk_of rho t"
  by (simp add: pack_pk_eq pk_of_def)

lemma keyed_storage_ok:
  assumes "nvm_ok s" "polyvec_ok 8 t" "length rho = 32"
  shows "nvm_ok (s\<lparr>nv_t1 := t1_of t, nv_pk := pk_of rho t, nv_t0 := map ntt (t0_of t)\<rparr>)"
    "nvm_ok (s\<lparr>nv_t1 := t1_of t, nv_pk := pk_of rho t, nv_t0 := t0_of t\<rparr>)"
proof -
  have t: "polyvec_ok 8 (t1_of t)" "polyvec_ok 8 (t0_of t)" using assms(2) by (simp_all add: t1_of_def t0_of_def polyvec_ok_ops)
  have "length (pk_of rho t) = 2592"
    using length_concat_map_const [of 8 "\<lambda>b. poly_t1_pack (t1_of t ! b)" 320] assms(3) by (simp add: pk_of_def)
  with assms(1) t polyvec_ok_ops(7) [OF t(2)]
  show "nvm_ok (s\<lparr>nv_t1 := t1_of t, nv_pk := pk_of rho t, nv_t0 := map ntt (t0_of t)\<rparr>)"
    "nvm_ok (s\<lparr>nv_t1 := t1_of t, nv_pk := pk_of rho t, nv_t0 := t0_of t\<rparr>)"
    by (simp_all add: nvm_ok_def)
qed

lemma vec_ntts: "poly_vec_l_ntt v = map ntt v" "poly_vec_k_ntt v = map ntt v"
  by (auto simp: poly_vec_l_ntt_def poly_vec_k_ntt_def poly_ntt_def)

text \<open>\<open>signing_key\<close>: what the seed at a path expands to.\<close>

definition signing_key :: "(u32 list \<Rightarrow> u32 + byte list) \<Rightarrow> u32 list \<Rightarrow> byte list \<Rightarrow> byte list \<Rightarrow> polyvec \<Rightarrow> polyvec \<Rightarrow> polyvec \<Rightarrow> bool" where
  "signing_key derive path rho key s1 s2 t \<longleftrightarrow> (\<exists>raw rhoPrime. derive path = Inr raw \<and> expand_seed (take 32 raw) = (rho, rhoPrime, key)
     \<and> poly_vec_l_uniform_eta rhoPrime 0 = Some s1 \<and> poly_vec_k_uniform_eta rhoPrime (of_nat L) = Some s2
     \<and> public_t rho (map ntt s1) s2 [] = Some t)"

definition env_of :: "byte list \<Rightarrow> byte list \<Rightarrow> byte list \<Rightarrow> byte list \<Rightarrow> polyvec \<Rightarrow> polyvec \<Rightarrow> polyvec \<Rightarrow> sign_env" where
  "env_of message rnd rho key s1 s2 t =
     \<lparr>se_rho = rho, se_rhoPrime = shake256_of [key, rnd, mu_of (pk_of rho t) message] CRH_BYTES, se_mu = mu_of (pk_of rho t) message,
      se_s1 = map ntt s1, se_s2 = map ntt s2\<rparr>"

lemma signing_key_ok:
  assumes "signing_key derive path rho key s1 s2 t"
  shows "key_ok (env_of message rnd rho key s1 s2 t) s1 s2 t" "env_ok (env_of message rnd rho key s1 s2 t)"
    "polyvec_ok 8 t" "length rho = 32"
proof -
  from assms obtain raw rhoPrime where x: "expand_seed (take 32 raw) = (rho, rhoPrime, key)"
    "poly_vec_l_uniform_eta rhoPrime 0 = Some s1" "poly_vec_k_uniform_eta rhoPrime 7 = Some s2" "public_t rho (map ntt s1) s2 [] = Some t"
    by (auto simp: signing_key_def)
  note s = uniform_eta_vec(1) [OF x(2)] uniform_eta_vec(2) [OF x(3)]
  then show "key_ok (env_of message rnd rho key s1 s2 t) s1 s2 t" using x(4) by (auto simp: key_ok_def env_of_def)
  have ok: "polyvec_ok 7 s1" "polyvec_ok 8 s2" using bounded_polyvec_ok [of 3 s1] bounded_polyvec_ok [of 3 s2] s by simp_all
  then show "env_ok (env_of message rnd rho key s1 s2 t)" by (simp add: env_ok_def env_of_def polyvec_ok_ops)
  show "polyvec_ok 8 t" by (rule public_t_ok [OF x(4)]) (simp_all add: ok polyvec_ok_ops)
  show "length rho = 32" by (rule length_expand_seed [OF x(1)])
qed

lemma sign_steps:
  assumes "crypto_sign_optimized derive path message rnd s = Some (s', st)" "message \<noteq> []" "derive path = Inr raw" "nvm_ok s"
  obtains rho key s1 s2 t where "signing_key derive path rho key s1 s2 t"
    "sign_loop (env_of message rnd rho key s1 s2 t) 0 0
       (s\<lparr>nv_t1 := t1_of t, nv_pk := pk_of rho t, nv_t0 := map ntt (t0_of t)\<rparr>) = Some (s', st)"
proof -
  obtain rho rhoPrime key where ex: "expand_seed (take 32 raw) = (rho, rhoPrime, key)" by (cases "expand_seed (take 32 raw)")
  have pk: "length rho = 32" "length (nv_pk s) = 2592" using length_expand_seed [OF ex] assms(4) by (simp_all add: nvm_ok_def)
  from assms(1-3) ex obtain s1 s2 t where s: "poly_vec_l_uniform_eta rhoPrime 0 = Some s1" "poly_vec_k_uniform_eta rhoPrime 7 = Some s2"
    "public_t rho (map ntt s1) s2 (nv_t1 s) = Some t"
    by (auto simp: crypto_sign_optimized_def vec_ntts Option.bind_eq_Some_conv)
  have "signing_key derive path rho key s1 s2 t" using assms(3) ex s public_t_old [of rho "map ntt s1" s2 "[]" "nv_t1 s"] by (auto simp: signing_key_def)
  moreover have "sign_loop (env_of message rnd rho key s1 s2 t) 0 0
       (s\<lparr>nv_t1 := t1_of t, nv_pk := pk_of rho t, nv_t0 := map ntt (t0_of t)\<rparr>) = Some (s', st)"
    using assms(1-3) ex s pk
    by (simp add: crypto_sign_optimized_def vec_ntts power2_round_parts pack_pk_of env_of_def mu_of_def poly_vec_k_ntt_volatile_def Let_def)
  ultimately show thesis using that by blast
qed

lemma accepted_encodes:
  assumes "key_ok e s1 s2 t" "accepted e (map ntt (t0_of t)) c z h"
  obtains y r cp told where "length y = 7" "list_all (bounded 524289) y" "combined_method told (map ntt y) (se_rho e) = Some r"
    "c = commit_hash e r" "poly_challenge_volatile c = Some cp" "z = response e y cp" "chk_norm_vec z 524168 = 0"
    "h = hint_of e (map ntt (t0_of t)) r cp" "z_vec_ok z" "hint_ok h" "length c = 64"
    "\<And>told' rv. combined_method told' (map ntt z) (se_rho e) = Some rv \<Longrightarrow> recover rv cp (t1_of t) h = high_bits (commit r)"
proof -
  from assms(2) obtain y r cp told where a: "length y = 7" "list_all (bounded 524289) y" "combined_method told (map ntt y) (se_rho e) = Some r"
    "c = commit_hash e r" "poly_challenge_volatile c = Some cp" "z = response e y cp" "chk_norm_vec z 524168 = 0"
    "chk_norm_vec (low_part e r cp) 261768 = 0" "chk_norm_vec (t0_part (map ntt (t0_of t)) cp) 261888 = 0"
    "h = hint_of e (map ntt (t0_of t)) r cp" "hint_count h \<le> 75"
    by (auto simp: accepted_def)
  note cp = challenge_bounded [OF a(5)] and key = key_rows [OF assms(1)]
  have s1: "length s1 = 7" "se_s1 e = map ntt s1" using assms(1) by (simp_all add: key_ok_def)
  have y: "bounded 524289 (y ! j)" if "j < 7" for j using a(1,2) that by (simp add: list_all_length)
  have lz: "length z = 7" using s1 a(1,6) by (simp add: response_def vreduce_def vadd_def pmul_def)
  have "bounded 524168 (z ! j)" if "j < 7" for j
    using response_row(1) [OF cp s1(2,1) a(1) that key(4) [OF that] y [OF that]] lz that
    by (intro chk_norm_bounded [OF a(7)]) (auto simp: a(6) elim!: bounded_mono)
  then have "list_all (bounded 524168) z" using lz by (simp add: list_all_length)
  then have z: "z_vec_ok z" using lz by (fastforce simp: z_vec_ok_def list_all_iff bounded_def z_ok_def abs_less_iff)
  note com = commit_row(1,2) [OF a(3,1,2)] and parts = accepted_parts [OF assms(1) a(3,1,2) cp]
  have "polyvec_ok 8 (hint_of e (map ntt (t0_of t)) r cp)"
    using com(1) [of 0] bounded_length [OF parts(3)] bounded_length [OF parts(4)] parts(5,6) [of 0] residuesD(1) [OF com(2)]
    by (auto simp: polyvec_ok_def list_all_length hint_of_def vadd_def high_bits_def commit_def bounded_length)
  from hint_of_ok [OF this] have h: "hint_ok h" using a(10,11) by simp
  show thesis
    using that [OF a(1-7,10) z h] recover_high_bits [OF assms(1) a(3,1,2) cp a(8,9)] by (simp add: a(4,6,10) commit_hash_def)
qed


text \<open>What the verifier computes on an encoded signature of an accepted pass.\<close>

lemma verify_accepts:
  assumes "signing_key derive path rho key s1 s2 t" "message \<noteq> []" "length sig = 4627" "nvm_ok s"
    "accepted (env_of message rnd rho key s1 s2 t) (map ntt (t0_of t)) c z h"
  shows "\<exists>s'. crypto_verify_optimized derive path (pack_sig_volatile sig c z h) message s = Some (s', Code ERR_NONE, True)"
proof -
  let ?e = "env_of message rnd rho key s1 s2 t"
  note sk = signing_key_ok [OF assms(1)]
  have rho: "se_rho ?e = rho" by (simp add: env_of_def)
  obtain y r cp told where
    r: "combined_method told (map ntt y) rho = Some r" and c: "c = commit_hash ?e r" "length c = 64" and cp: "poly_challenge_volatile c = Some cp"
    and z: "chk_norm_vec z 524168 = 0" "z_vec_ok z" and h: "hint_ok h"
    and rec: "\<And>told' rv. combined_method told' (map ntt z) rho = Some rv \<Longrightarrow> recover rv cp (t1_of t) h = high_bits (commit r)"
    by (rule accepted_encodes [OF sk(1) assms(5), unfolded rho]) blast
  from assms(1) obtain raw rhoPrime where x: "derive path = Inr raw" "expand_seed (take 32 raw) = (rho, rhoPrime, key)"
    "poly_vec_l_uniform_eta rhoPrime 0 = Some s1" "poly_vec_k_uniform_eta rhoPrime 7 = Some s2"
    and t: "public_t rho (map ntt s1) s2 (nv_t1 s) = Some t"
    using public_t_old [of rho "map ntt s1" s2 "[]" "nv_t1 s"] by (auto simp: signing_key_def)
  obtain rv where rv: "combined_method (nv_w1 s) (map ntt z) rho = Some rv"
    using mat_defined_combined [OF combined_method_defined [OF r]] by blast
  have ok: "length (nv_pk s) = 2592" "length (nv_h s) = 8" using assms(4) by (simp_all add: nvm_ok_def polyvec_ok_def)
  note un = unpack_pack [OF c(2) assms(3) z(2) h ok(2)]
  have len: "length (pack_sig_volatile sig c z h) = 4627" by (rule length_pack_sig [OF c(2) assms(3)])
  then have ne: "pack_sig_volatile sig c z h \<noteq> []" by auto
  have t0: "t0_of t \<noteq> []" using sk(3) by (auto simp: t0_of_def polyvec_ok_def)
  have buf: "take 1024 (buf_verify (store_buf_verify (poly_vec_k_pack_w1_volatile_verify w1 (buf_verify (t0_of t))) (t0_of t))) = w1_bytes w1" for w1
    using t0 by (simp add: buf_verify_store length_buf_verify pack_w1_eq(2) length_w1_bytes w1_bytes_def)
  have c2: "shake256_of [mu_of (pk_of rho t) message, w1_bytes (high_bits (commit r))] 64 = c"
    unfolding c commit_hash_def by (simp add: env_of_def)
  have w1: "poly_vec_k_use_hint_volatile (commit (vsub rv (poly_vec_k_pointwise_poly_montgomery_volatile (ntt cp)
      (map ntt (poly_vec_k_shift_l_volatile (t1_of t)))))) h = high_bits (commit r)"
    using rec [OF rv] by (simp add: recover_def poly_vec_k_use_hint_volatile_def poly_vec_k_pointwise_poly_montgomery_volatile_def
        poly_vec_k_shift_l_volatile_def cmul_def comp_def)
  show ?thesis
    using assms(2) x t ok sk(4) cp z(1) rv
    by (simp add: crypto_verify_optimized_def ne len vec_ntts power2_round_parts pack_pk_of un volatile_eqs(5-) Let_def w1 buf c2 list_all_iff
        flip: mu_of_def cong: do_congs)
qed


subsection \<open>Signing, then verifying\<close>

lemma sign_verifies:
  assumes "nvm_ok s" "nvm_ok v" "crypto_sign_optimized derive path message rnd s = Some (s', Code ERR_NONE)"
  shows "length (nv_sig s') = 4627" "\<exists>v'. crypto_verify_optimized derive path (nv_sig s') message v = Some (v', Code ERR_NONE, True)"
proof -
  from assms(3) obtain raw where m: "message \<noteq> []" and raw: "derive path = Inr raw"
    by (auto simp: crypto_sign_optimized_def split: if_splits sum.splits)
  from sign_steps [OF assms(3) m raw assms(1)] obtain rho key s1 s2 t where sk: "signing_key derive path rho key s1 s2 t"
    and l: "sign_loop (env_of message rnd rho key s1 s2 t) 0 0
      (s\<lparr>nv_t1 := t1_of t, nv_pk := pk_of rho t, nv_t0 := map ntt (t0_of t)\<rparr>) = Some (s', Code ERR_NONE)" .
  note ok = signing_key_ok [OF sk]
  from sign_loop_result [OF l ok(2) keyed_storage_ok(1) [OF assms(1) ok(3,4)]] obtain c z h sig where
    s': "nvm_ok s'" "nv_sig s' = pack_sig_volatile sig c z h" "length sig = 4627"
    "accepted (env_of message rnd rho key s1 s2 t) (map ntt (t0_of t)) c z h" by auto
  show "length (nv_sig s') = 4627" using s'(1) by (simp add: nvm_ok_def)
  show "\<exists>v'. crypto_verify_optimized derive path (nv_sig s') message v = Some (v', Code ERR_NONE, True)"
    using verify_accepts [OF sk m s'(3) assms(2) s'(4)] s'(2) by simp
qed

text \<open>
  C3.  Whenever \<open>crypto_sign_optimized\<close> returns a signature without an error, \<open>crypto_verify_optimized\<close> accepts
  it: from any well-formed storage, with the same path and message, it returns no error and sets
  \<open>is_verified\<close>.  So the self-check of the device never rejects a signature of its own.  This holds for every seed, every
  message and all random bytes.
\<close>

theorem sign_then_verify:
  assumes "nvm_ok s" "nvm_ok v"
  shows "case crypto_sign_optimized derive path message rnd s of
      Some (s', Code ERR_NONE) \<Rightarrow>
        length (nv_sig s') = 4627 \<and> (\<exists>v'. crypto_verify_optimized derive path (nv_sig s') message v = Some (v', Code ERR_NONE, True))
    | _ \<Rightarrow> True"
  using sign_verifies [OF assms] by (auto split: option.splits prod.splits status.splits error_code.splits)

theorem sign_then_verify_witness:
  "case crypto_sign_optimized (\<lambda>path. Inr (replicate 64 7)) [0x8000002C] [1, 2, 3] (replicate 32 0) nvm_fresh of
      Some (s', Code ERR_NONE) \<Rightarrow>
        length (nv_sig s') = 4627 \<and> (\<exists>v'. crypto_verify_optimized (\<lambda>path. Inr (replicate 64 7)) [0x8000002C] (nv_sig s') [1, 2, 3] nvm_fresh
           = Some (v', Code ERR_NONE, True))
    | _ \<Rightarrow> True"
  by (rule sign_then_verify [OF nvm_fresh_ok nvm_fresh_ok])

end
