(* ===== verification/Sign_State.thy ===== *)
theory Sign_State
  imports Sign_Correct
begin

text \<open>
  The life of \<open>N_storage\<close> under the operations of \<open>sign.c\<close>: every operation keeps it well formed, the loop of the signer
  ends after at most 814 passes with masks that never repeat, and the key pair shown to the user is the
  one that signs.
\<close>

subsection \<open>The rejection loop\<close>

text \<open>The storage after \<open>k\<close> rejected passes, the first with nonce \<open>nonce\<close>.\<close>

fun rejected :: "sign_env \<Rightarrow> 16 word \<Rightarrow> nat \<Rightarrow> nvm \<Rightarrow> nvm option" where
  "rejected e nonce 0 s = Some s"
| "rejected e nonce (Suc k) s =
     (case sign_attempt e nonce s of Some (s', False) \<Rightarrow> rejected e (nonce + 1) k s' | _ \<Rightarrow> None)"

text \<open>The possible ends of a run: a pass that does not return, a pass that succeeds, or \<open>n\<close> rejected passes.\<close>

inductive loop_end :: "sign_env \<Rightarrow> 16 word \<Rightarrow> nat \<Rightarrow> nvm \<Rightarrow> (nvm \<times> status) option \<Rightarrow> bool" for e nonce n s where
  diverges: "k < n \<Longrightarrow> rejected e nonce k s = Some s1 \<Longrightarrow> sign_attempt e (nonce + of_nat k) s1 = None \<Longrightarrow> loop_end e nonce n s None"
| accepts: "k < n \<Longrightarrow> rejected e nonce k s = Some s1 \<Longrightarrow> sign_attempt e (nonce + of_nat k) s1 = Some (s2, True) \<Longrightarrow>
    loop_end e nonce n s (Some (s2, Code ERR_NONE))"
| gives_up: "rejected e nonce n s = Some s1 \<Longrightarrow> loop_end e nonce n s (Some (s1, Code ERR_INVALID_SIGNATURE))"

lemma loop_end_step:
  assumes "sign_attempt e nonce s = Some (s', False)" "loop_end e (nonce + 1) n s' r"
  shows "loop_end e nonce (Suc n) s r"
  using assms(2)
proof cases
  case (diverges k s1)
  then show ?thesis using assms(1) loop_end.diverges [of "Suc k" "Suc n" e nonce s s1] by (simp add: ac_simps)
next
  case (accepts k s1 s2)
  then show ?thesis using assms(1) loop_end.accepts [of "Suc k" "Suc n" e nonce s s1 s2] by (simp add: ac_simps)
next
  case (gives_up s1)
  then show ?thesis using assms(1) by (auto intro: loop_end.gives_up)
qed

lemma sign_loop_end: "n = 814 - a \<Longrightarrow> loop_end e nonce n s (sign_loop e nonce a s)"
proof (induction n arbitrary: a nonce s)
  case 0
  then show ?case by (simp add: sign_loop.simps loop_end.gives_up)
next
  case (Suc n)
  then have a: "\<not> 814 \<le> a" by simp
  show ?case
  proof (cases "sign_attempt e nonce s")
    case None
    then show ?thesis using a loop_end.diverges [of 0 "Suc n" e nonce s s] by (simp add: sign_loop.simps [of e nonce a])
  next
    case (Some p)
    obtain s' b where p: "p = (s', b)" by (cases p)
    show ?thesis
    proof (cases b)
      case True
      then show ?thesis using a Some p loop_end.accepts [of 0 "Suc n" e nonce s s s'] by (simp add: sign_loop.simps [of e nonce a])
    next
      case False
      have "loop_end e (nonce + 1) n s' (sign_loop e (nonce + 1) (a + 1) s')"
        by (rule Suc.IH) (use Suc.prems in simp)
      from loop_end_step [OF _ this] show ?thesis using a Some p False by (simp add: sign_loop.simps [of e nonce a])
    qed
  qed
qed

text \<open>
  C8.  The rejection loop ends: it runs \<open>k\<close> rejected passes with the nonces 0, 1, ..., \<open>k - 1\<close> and then, with
  \<open>k < 814\<close>, a pass that succeeds (the result is its storage and no error) or one whose samplers do not
  return, or \<open>k = 814\<close> and it gives up with the storage of the last pass and \<open>ERR_INVALID_SIGNATURE\<close>.
\<close>

theorem sign_loop_ends: "loop_end e 0 814 s (sign_loop e 0 0 s)"
  by (rule sign_loop_end) simp


lemma nonce_bytes_inj: "nonce_bytes a = nonce_bytes b \<Longrightarrow> a = b"
proof (rule bit_eqI)
  fix n assume eq: "nonce_bytes a = nonce_bytes b" and "possible_bit TYPE(16 word) n"
  then have n: "n < 16" by simp
  show "bit a n = bit b n"
  proof (cases "n < 8")
    case True
    have "ucast a = (ucast b :: byte)" using eq by (simp add: nonce_bytes_def)
    then have "bit (ucast a :: byte) n = bit (ucast b :: byte) n" by simp
    then show ?thesis using True by (simp add: bit_ucast_iff)
  next
    case False
    have "ucast (drop_bit 8 a) = (ucast (drop_bit 8 b) :: byte)" using eq by (simp add: nonce_bytes_def)
    then have "bit (ucast (drop_bit 8 a) :: byte) (n - 8) = bit (ucast (drop_bit 8 b) :: byte) (n - 8)" by simp
    moreover have "n - 8 < 8" using n by simp
    ultimately show ?thesis using False by (simp add: bit_ucast_iff bit_drop_bit_eq)
  qed
qed

lemma of_nat_16_inj: "m < 65536 \<Longrightarrow> n < 65536 \<Longrightarrow> (of_nat m :: 16 word) = of_nat n \<Longrightarrow> m = n"
  by (drule arg_cong [of _ _ unat]) (simp add: unat_of_nat)

text \<open>
  A run of the loop as its passes, from pass \<open>k\<close> on with the storage \<open>s\<close>: the storages that the passes leave, and the result.  Pass
  \<open>k\<close> is \<open>sign_attempt\<close> with the nonce \<open>k\<close>.
\<close>

inductive run :: "sign_env \<Rightarrow> nat \<Rightarrow> nvm \<Rightarrow> nvm list \<Rightarrow> (nvm \<times> status) option \<Rightarrow> bool" for e where
  stuck: "k < 814 \<Longrightarrow> sign_attempt e (of_nat k) s = None \<Longrightarrow> run e k s [] None"
| signed: "k < 814 \<Longrightarrow> sign_attempt e (of_nat k) s = Some (s', True) \<Longrightarrow> run e k s [s'] (Some (s', Code ERR_NONE))"
| again: "k < 814 \<Longrightarrow> sign_attempt e (of_nat k) s = Some (s', False) \<Longrightarrow> run e (Suc k) s' ss r \<Longrightarrow> run e k s (s' # ss) r"
| exhausted: "run e 814 s [] (Some (s, Code ERR_INVALID_SIGNATURE))"

lemma sign_loop_run:
  assumes "k \<le> 814"
  shows "\<exists>ss. run e k s ss (sign_loop e (of_nat k) k s)"
  using assms
proof (induction "814 - k" arbitrary: k s)
  case 0
  then have "k = 814" by simp
  then show ?case by (auto simp: sign_loop.simps intro: exhausted)
next
  case (Suc n)
  then have k: "k < 814" "Suc k \<le> 814" "n = 814 - Suc k" by simp_all
  show ?case
  proof (cases "sign_attempt e (of_nat k) s")
    case None
    with k have "sign_loop e (of_nat k) k s = None" by (simp add: sign_loop.simps [of e "of_nat k" k])
    with stuck [OF k(1) None] show ?thesis by metis
  next
    case (Some p)
    obtain s' b where p: "p = (s', b)" by (cases p)
    show ?thesis
    proof (cases b)
      case True
      with k Some p have "sign_loop e (of_nat k) k s = Some (s', Code ERR_NONE)" by (simp add: sign_loop.simps [of e "of_nat k" k])
      with signed [OF k(1), of e s s'] Some p True show ?thesis by metis
    next
      case False
      then have "sign_loop e (of_nat k) k s = sign_loop e (of_nat (Suc k)) (Suc k) s'"
        using k Some p by (simp add: sign_loop.simps [of e "of_nat k" k] add.commute)
      moreover from Suc.hyps(1) [OF k(3,2), of s'] obtain ss where r: "run e (Suc k) s' ss (sign_loop e (of_nat (Suc k)) (Suc k) s')" by blast
      from again [OF k(1) _ r, of s] Some p False have "run e k s (s' # ss) (sign_loop e (of_nat (Suc k)) (Suc k) s')" by simp
      ultimately show ?thesis by (intro exI [of _ "s' # ss"]) (simp only:)
    qed
  qed
qed

lemma attempt_mask:
  assumes "sign_attempt e nonce s = Some (s', b)" "nvm_ok s"
  shows "nv_y s' = poly_vec_l_uniform_gamma1_volatile (se_rhoPrime e) nonce"
proof -
  have sig: "length (nv_sig s) = 4627" using assms(2) by (simp add: nvm_ok_def)
  from assms(1) show ?thesis
    by (auto simp: sign_attempt_eq [OF sig] attempt_result_def Let_def Option.bind_eq_Some_conv split: if_splits)
qed

lemma run_masks:
  assumes "run e k s ss r" "env_ok e" "nvm_ok s"
  shows "k + length ss \<le> 814
    \<and> map nv_y ss = map (\<lambda>i. poly_vec_l_uniform_gamma1_volatile (se_rhoPrime e) (of_nat i)) [k..<k + length ss]"
  using assms
proof (induction rule: run.induct)
  case (signed k s s')
  then show ?case using attempt_mask [OF signed(2,4)] by simp
next
  case (again k s s' ss r)
  have "[k..<k + length (s' # ss)] = k # [Suc k..<Suc k + length ss]" by (subst upt_conv_Cons) simp_all
  moreover have "nvm_ok s'" by (rule sign_attempt_result(1) [OF again(2,5,6)])
  ultimately show ?case using again.IH [OF again(5)] attempt_mask [OF again(2,6)] by simp
qed simp_all

subsection \<open>The storage stays well formed\<close>

lemma crypto_sign_keypair_eq:
  assumes "length (nv_pk s) = 2592"
  shows "crypto_sign_keypair seed s =
    (let (rho, rhoPrime, key) = expand_seed seed
     in do { s1 \<leftarrow> poly_vec_l_uniform_eta rhoPrime 0;
             s2 \<leftarrow> poly_vec_k_uniform_eta rhoPrime (of_nat L);
             t \<leftarrow> public_t rho (map ntt s1) s2 [];
             Some (s\<lparr>nv_t1 := t1_of t, nv_pk := pk_of rho t\<rparr>) })"
proof -
  obtain rho rhoPrime key where ex: "expand_seed seed = (rho, rhoPrime, key)" by (cases "expand_seed seed")
  have pk: "pack_pk_volatile rho (t1_of t) (nv_pk s) = pk_of rho t" for t by (rule pack_pk_of [OF length_expand_seed [OF ex] assms])
  show ?thesis
    unfolding crypto_sign_keypair_def
    by (simp add: ex vec_ntts poly_vec_k_power2_round_volatile_keypair_def pk public_t_old [of _ _ _ "nv_t1 s" "[]"] flip: t1_of_def)
qed

text \<open>The keys both operations compute.\<close>

lemma public_key_ok:
  assumes "expand_seed seed = (rho, rhoPrime, key)" "poly_vec_l_uniform_eta rhoPrime 0 = Some s1"
    "poly_vec_k_uniform_eta rhoPrime 7 = Some s2" "public_t rho (map ntt s1) s2 told = Some t"
  shows "polyvec_ok 8 t" "length rho = 32" "polyvec_ok 7 s1" "polyvec_ok 8 s2"
proof -
  show s: "polyvec_ok 7 s1" "polyvec_ok 8 s2"
    using bounded_polyvec_ok [of 3 s1] bounded_polyvec_ok [of 3 s2] uniform_eta_vec(1) [OF assms(2)] uniform_eta_vec(2) [OF assms(3)] by simp_all
  show "polyvec_ok 8 t" by (rule public_t_ok [OF assms(4)]) (simp_all add: s polyvec_ok_ops)
  show "length rho = 32" by (rule length_expand_seed [OF assms(1)])
qed

lemma keypair_ok: "nvm_ok s \<Longrightarrow> crypto_sign_keypair seed s = Some s' \<Longrightarrow> nvm_ok s'"
proof -
  assume s: "nvm_ok s" and "crypto_sign_keypair seed s = Some s'"
  then obtain rho rhoPrime key s1 s2 t where k: "expand_seed seed = (rho, rhoPrime, key)" "poly_vec_l_uniform_eta rhoPrime 0 = Some s1"
    "poly_vec_k_uniform_eta rhoPrime 7 = Some s2" "public_t rho (map ntt s1) s2 [] = Some t" "s' = s\<lparr>nv_t1 := t1_of t, nv_pk := pk_of rho t\<rparr>"
    by (auto simp: crypto_sign_keypair_eq nvm_ok_def Option.bind_eq_Some_conv split: prod.splits)
  from keyed_storage_ok(2) [OF s public_key_ok(1,2) [OF k(1-4)]] s k(5) show "nvm_ok s'" by (simp add: nvm_ok_def)
qed

text \<open>The signer, with the key and the loop it runs.\<close>

lemma crypto_sign_cases:
  assumes "crypto_sign_optimized derive path message rnd s = Some (s', st)" "nvm_ok s"
  obtains (refused) "s' = s" "st = Code ERR_INVALID_MESSAGE" "message = []"
  | (no_key) err where "s' = s" "st = Minus_one" "derive path = Inl err"
  | (loop) rho key s1 s2 t where "message \<noteq> []" "signing_key derive path rho key s1 s2 t"
      "sign_loop (env_of message rnd rho key s1 s2 t) 0 0
         (s\<lparr>nv_t1 := t1_of t, nv_pk := pk_of rho t, nv_t0 := map ntt (t0_of t)\<rparr>) = Some (s', st)"
proof (cases "message = []")
  case True
  with assms(1) refused show thesis by (simp add: crypto_sign_optimized_def)
next
  case m: False
  show thesis
  proof (cases "derive path")
    case (Inl err)
    with m assms(1) no_key show thesis by (simp add: crypto_sign_optimized_def)
  next
    case raw: (Inr raw)
    show thesis by (rule sign_steps [OF assms(1) m raw assms(2)]) (rule loop [OF m])
  qed
qed


lemma sign_ok:
  assumes "crypto_sign_optimized derive path message rnd s = Some (s', st)" "nvm_ok s"
  shows "nvm_ok s'"
  using assms
proof (cases rule: crypto_sign_cases)
  case (loop rho key s1 s2 t)
  note k = signing_key_ok [OF loop(2)]
  show ?thesis using sign_loop_result [OF loop(3) k(2) keyed_storage_ok(1) [OF assms(2) k(3,4)]] by blast
qed (use assms(2) in simp_all)

lemma hint_row_length: "length (fst (hint_row hb k js p)) = length p"
  by (induction hb k js p rule: hint_row.induct) simp_all

lemma hint_rows_ok: "\<forall>i \<in> set is. i < 8 \<Longrightarrow> polyvec_ok 8 h0 \<Longrightarrow> polyvec_ok 8 (fst (hint_rows hb is k h0))"
proof (induction hb "is" k h0 rule: hint_rows.induct)
  case (2 hb i "is" k h)
  have u: "polyvec_ok 8 (h[i := p])" if "length p = 256" "polyvec_ok 8 h" for h :: polyvec and p
    using that by (auto simp: polyvec_ok_def list_all_iff dest!: set_update_subset_insert [THEN subsetD])
  have z: "polyvec_ok 8 (h[i := replicate 256 0])" using 2 by (intro u) simp_all
  obtain p bad where r: "hint_row hb k [k..<unat (hb ! (75 + i))] (h[i := replicate 256 0] ! i) = (p, bad)" by fastforce
  have "length p = 256"
    using hint_row_length [of hb k "[k..<unat (hb ! (75 + i))]" "h[i := replicate 256 0] ! i"] r 2 by (simp add: polyvec_ok_def)
  from u [OF this z] z 2 r show ?case by (auto simp: Let_def)
qed simp

lemma unpack_ok:
  assumes "unpack_sig_volatile sig h0 = (c, z, h, bad)" "polyvec_ok 8 h0"
  shows "polyvec_ok 7 z" "polyvec_ok 8 h"
proof -
  let ?r = "hint_rows (drop 4544 sig) [0..<8] 0 h0"
  have h: "h = fst ?r" and z: "z = map (\<lambda>b. encode_blocks 128 5 z_unpack2 (drop (64 + b * 640) sig)) [0..<7]"
    using assms(1) by (auto simp: unpack_sig_volatile_def Let_def case_prod_beta split: option.splits if_splits)
  have "length (encode_blocks 128 5 z_unpack2 bs) = 256" for bs
    by (subst length_encode_blocks [of _ 2]) (simp_all add: z_unpack2_def)
  then show "polyvec_ok 7 z" unfolding z by (simp add: polyvec_ok_def list_all_iff)
  show "polyvec_ok 8 h" unfolding h using assms(2) by (intro hint_rows_ok) simp_all
qed

lemma store_buf_ok: "polyvec_ok 8 t0 \<Longrightarrow> polyvec_ok 8 (store_buf_verify buf t0)"
proof -
  assume "polyvec_ok 8 t0"
  moreover have "length (encode_blocks 256 4 le32_int buf) = 256"
    by (subst length_encode_blocks [of _ 1]) (simp_all add: le32_int_def)
  ultimately show ?thesis
    by (auto simp: store_buf_verify_def polyvec_ok_def list_all_iff dest!: set_update_subset_insert [THEN subsetD])
qed

lemma pointwise_ok: "polyvec_ok 8 v \<Longrightarrow> length c = 256 \<Longrightarrow> polyvec_ok 8 (poly_vec_k_pointwise_poly_montgomery_volatile c v)"
  by (auto simp: poly_vec_k_pointwise_poly_montgomery_volatile_def polyvec_ok_def list_all_iff)

text \<open>The storage after a verification that reached its last step, from the storage \<open>s\<close> with the key and the decoded signature.\<close>

definition verified_storage :: "nvm \<Rightarrow> poly \<Rightarrow> polyvec \<Rightarrow> nvm" where
  "verified_storage s cp w1 =
     (let t1 = poly_vec_k_pointwise_poly_montgomery_volatile (ntt cp) (map ntt (poly_vec_k_shift_l_volatile (nv_t1 s)));
          w1 = poly_vec_k_use_hint_volatile (commit (vsub w1 t1)) (nv_h s)
      in s\<lparr>nv_z := map ntt (nv_z s), nv_cp := ntt cp, nv_t1 := t1, nv_w1 := w1,
           nv_t0 := store_buf_verify (poly_vec_k_pack_w1_volatile_verify w1 (buf_verify (nv_t0 s))) (nv_t0 s)\<rparr>)"

lemma verified_storage_ok:
  assumes "nvm_ok s" "length cp = 256" "polyvec_ok 8 w1"
  shows "nvm_ok (verified_storage s cp w1)"
proof -
  have s: "polyvec_ok 8 (nv_t1 s)" "polyvec_ok 8 (nv_h s)" "polyvec_ok 7 (nv_z s)" "polyvec_ok 8 (nv_t0 s)" using assms(1) by (simp_all add: nvm_ok_def)
  let ?t1 = "poly_vec_k_pointwise_poly_montgomery_volatile (ntt cp) (map ntt (poly_vec_k_shift_l_volatile (nv_t1 s)))"
  have t1: "polyvec_ok 8 ?t1"
    by (intro pointwise_ok polyvec_ok_ops) (simp_all add: poly_vec_k_shift_l_volatile_def polyvec_ok_ops s length_ntt assms(2))
  have w: "polyvec_ok 8 (poly_vec_k_use_hint_volatile (commit (vsub w1 ?t1)) (nv_h s))"
    unfolding poly_vec_k_use_hint_volatile_def by (intro polyvec_ok_ops t1 s assms(3))
  show ?thesis using assms(1) t1 w polyvec_ok_ops(7) [OF s(3)] store_buf_ok [OF s(4)]
    by (simp add: nvm_ok_def verified_storage_def Let_def length_ntt assms(2))
qed

lemma crypto_verify_cases:
  assumes "crypto_verify_optimized derive path sig message s = Some (s', st, b)" "nvm_ok s"
  obtains (refused) "s' = s" "\<not> b" "st \<noteq> Code ERR_NONE"
      "sig = [] \<or> message = [] \<or> length sig \<noteq> 4627 \<or> (\<exists>err. derive path = Inl err)"
  | (rejected) rho key s1 s2 t z h where "signing_key derive path rho key s1 s2 t" "polyvec_ok 7 z" "polyvec_ok 8 h" "\<not> b" "st = Code ERR_NONE"
      "s' = s\<lparr>nv_t1 := t1_of t, nv_t0 := t0_of t, nv_pk := pk_of rho t\<rparr>\<lparr>nv_z := z, nv_h := h\<rparr>"
  | (checked) rho key s1 s2 t z h cp w1 where "signing_key derive path rho key s1 s2 t" "polyvec_ok 7 z" "polyvec_ok 8 h"
      "length cp = 256" "polyvec_ok 8 w1" "st = Code ERR_NONE"
      "s' = verified_storage (s\<lparr>nv_t1 := t1_of t, nv_t0 := t0_of t, nv_pk := pk_of rho t\<rparr>\<lparr>nv_z := z, nv_h := h\<rparr>) cp w1"
proof (cases "sig = [] \<or> message = [] \<or> length sig \<noteq> 4627 \<or> (\<exists>err. derive path = Inl err)")
  case True
  with assms(1) refused show thesis by (auto simp: crypto_verify_optimized_def split: if_splits)
next
  case False
  then obtain raw where raw: "derive path = Inr raw" by (cases "derive path") auto
  obtain rho rhoPrime key where ex: "expand_seed (take 32 raw) = (rho, rhoPrime, key)" by (cases "expand_seed (take 32 raw)")
  from assms(1) False raw ex obtain s1 s2 t where k: "poly_vec_l_uniform_eta rhoPrime 0 = Some s1" "poly_vec_k_uniform_eta rhoPrime 7 = Some s2"
    "public_t rho (map ntt s1) s2 (nv_t1 s) = Some t"
    by (auto simp: crypto_verify_optimized_def vec_ntts Option.bind_eq_Some_conv)
  note key = public_key_ok [OF ex k]
  have sk: "signing_key derive path rho key s1 s2 t"
    using raw ex k public_t_old [of rho "map ntt s1" s2 "[]" "nv_t1 s"] by (auto simp: signing_key_def)
  obtain c z h bad where un: "unpack_sig_volatile sig (nv_h s) = (c, z, h, bad)" by (cases "unpack_sig_volatile sig (nv_h s)")
  have s: "length (nv_pk s) = 2592" "polyvec_ok 8 (nv_h s)" using assms(2) by (simp_all add: nvm_ok_def)
  note zh = unpack_ok [OF un s(2)]
  note step = crypto_verify_optimized_def raw ex k vec_ntts power2_round_parts pack_pk_of [OF key(2) s(1)] un volatile_eqs(5-) Let_def
  show thesis
  proof (cases "bad \<noteq> 0 \<or> chk_norm_vec z 524168 \<noteq> 0")
    case True
    with assms(1) False have "s' = s\<lparr>nv_t1 := t1_of t, nv_t0 := t0_of t, nv_pk := pk_of rho t\<rparr>\<lparr>nv_z := z, nv_h := h\<rparr>" "\<not> b" "st = Code ERR_NONE"
      by (auto simp: step cong: do_congs split: if_splits)
    with rejected sk zh show thesis by blast
  next
    case nb: False
    from assms(1) False nb obtain cp where cp: "poly_challenge_volatile c = Some cp"
      by (cases "poly_challenge_volatile c") (auto simp: step cong: do_congs)
    from assms(1) False nb cp obtain w1 where w1: "combined_method (nv_w1 s) (map ntt z) rho = Some w1"
      by (cases "combined_method (nv_w1 s) (map ntt z) rho") (auto simp: step cong: do_congs)
    have "polyvec_ok 8 w1" by (rule combined_method_ok [OF w1]) (rule polyvec_ok_ops(7) [OF zh(1)])
    moreover have "s' = verified_storage (s\<lparr>nv_t1 := t1_of t, nv_t0 := t0_of t, nv_pk := pk_of rho t\<rparr>\<lparr>nv_z := z, nv_h := h\<rparr>) cp w1"
      "st = Code ERR_NONE"
      using assms(1) False nb cp w1 by (auto simp: step verified_storage_def cong: do_congs)
    ultimately show thesis using checked sk zh bounded_length [OF challenge_bounded [OF cp]] by blast
  qed
qed


lemma verify_ok:
  assumes "crypto_verify_optimized derive path sig message s = Some (s', st, b)" "nvm_ok s"
  shows "nvm_ok s'"
proof -
  have ok: "nvm_ok (s\<lparr>nv_t1 := t1_of t, nv_t0 := t0_of t, nv_pk := pk_of rho t\<rparr>\<lparr>nv_z := z, nv_h := h\<rparr>)"
    if "signing_key derive path rho key s1 s2 t" "polyvec_ok 7 z" "polyvec_ok 8 h" for rho key s1 s2 t z h
    using keyed_storage_ok(2) [OF assms(2) signing_key_ok(3,4) [OF that(1)]] that(2,3) by (simp add: nvm_ok_def)
  from assms show ?thesis
    by (cases rule: crypto_verify_cases) (use assms(2) ok verified_storage_ok in blast)+
qed

text \<open>
  C7.  Every operation on the storage keeps it well formed: after \<open>crypto_sign_keypair\<close>, \<open>crypto_sign_optimized\<close>,
  \<open>crypto_verify_optimized\<close> and \<open>wipe_nvm_secrets\<close>, on every path through them, all vectors have 7 or 8 polynomials of
  256 coefficients and the signature and the public key have 4627 and 2592 bytes.
\<close>

theorem storage_well_formed:
  assumes "nvm_ok s"
  shows "pred_option nvm_ok (crypto_sign_keypair seed s)
    \<and> pred_option (\<lambda>(s', st). nvm_ok s') (crypto_sign_optimized derive path message rnd s)
    \<and> pred_option (\<lambda>(s', st, b). nvm_ok s') (crypto_verify_optimized derive path sig message s)
    \<and> nvm_ok (wipe_nvm_secrets s)"
proof (intro conjI)
  show "pred_option nvm_ok (crypto_sign_keypair seed s)"
    using keypair_ok [OF assms] by (cases "crypto_sign_keypair seed s") auto
  show "pred_option (\<lambda>(s', st). nvm_ok s') (crypto_sign_optimized derive path message rnd s)"
    using sign_ok [OF _ assms] by (cases "crypto_sign_optimized derive path message rnd s") auto
  show "pred_option (\<lambda>(s', st, b). nvm_ok s') (crypto_verify_optimized derive path sig message s)"
    using verify_ok [OF _ assms] by (cases "crypto_verify_optimized derive path sig message s") auto
  show "nvm_ok (wipe_nvm_secrets s)"
    unfolding wipe_eq [OF assms] using assms by (simp add: nvm_ok_def polyvec_ok_def list_all_iff)
qed

theorem storage_well_formed_witness:
  "nvm_ok (wipe_nvm_secrets nvm_fresh) \<and> pred_option nvm_ok (crypto_sign_keypair (replicate 32 1) nvm_fresh)"
  using storage_well_formed [OF nvm_fresh_ok, of "replicate 32 1" "\<lambda>_. Inl 0" "[]" "[]" "[]" "[]"] by simp

subsection \<open>The key that signs\<close>

text \<open>
  The public key of the seed of a path is the one that signing and verifying under that path leave in the storage, whatever was there
  before, unless they refuse their arguments before touching the storage.
\<close>

lemma same_public_key:
  assumes "nvm_ok s" "nvm_ok v" "derive path = Inr raw" "message \<noteq> []" "length sig = 4627"
  shows "case crypto_sign_keypair (take 32 raw) s of
      None \<Rightarrow> crypto_sign_optimized derive path message rnd v = None \<and> crypto_verify_optimized derive path sig message v = None
    | Some k \<Rightarrow> pred_option (\<lambda>(s', st). nv_pk s' = nv_pk k) (crypto_sign_optimized derive path message rnd v)
        \<and> pred_option (\<lambda>(s', st, b). nv_pk s' = nv_pk k) (crypto_verify_optimized derive path sig message v)"
proof (cases "crypto_sign_keypair (take 32 raw) s")
  case None
  then have no: "\<not> signing_key derive path rho key s1 s2 t" for rho key s1 s2 t
    using assms(1,3) by (auto simp: signing_key_def crypto_sign_keypair_eq nvm_ok_def)
  have False if "crypto_sign_optimized derive path message rnd v = Some (s', st)" for s' st
    by (rule sign_steps [OF that assms(4,3,2)]) (use no in blast)
  then have "crypto_sign_optimized derive path message rnd v = None" by (metis not_None_eq prod.collapse)
  moreover have False if v: "crypto_verify_optimized derive path sig message v = Some (s', st, b)" for s' st b
    using v assms(2)
  proof (cases rule: crypto_verify_cases)
    case refused
    with assms(3-5) show False by auto
  qed (use no in blast)+
  then have "crypto_verify_optimized derive path sig message v = None" by (metis not_None_eq prod.collapse)
  ultimately show ?thesis using None by simp
next
  case (Some k)
  with assms(1) obtain rho rhoPrime key s1 s2 t where x: "expand_seed (take 32 raw) = (rho, rhoPrime, key)"
    "poly_vec_l_uniform_eta rhoPrime 0 = Some s1" "poly_vec_k_uniform_eta rhoPrime 7 = Some s2" "public_t rho (map ntt s1) s2 [] = Some t"
    and pk: "nv_pk k = pk_of rho t"
    by (auto simp: crypto_sign_keypair_eq nvm_ok_def Option.bind_eq_Some_conv split: prod.splits)
  have same: "pk_of rho' t' = nv_pk k" if "signing_key derive path rho' key' s1' s2' t'" for rho' key' s1' s2' t'
    using that x assms(3) pk by (auto simp: signing_key_def)
  have "nv_pk s' = nv_pk k" if "crypto_sign_optimized derive path message rnd v = Some (s', st)" for s' st
  proof -
    from sign_steps [OF that assms(4,3,2)] obtain rho' key' s1' s2' t' where sk: "signing_key derive path rho' key' s1' s2' t'"
      and l: "sign_loop (env_of message rnd rho' key' s1' s2' t') 0 0
        (v\<lparr>nv_t1 := t1_of t', nv_pk := pk_of rho' t', nv_t0 := map ntt (t0_of t')\<rparr>) = Some (s', st)" .
    note ok = signing_key_ok [OF sk]
    from sign_loop_result [OF l ok(2) keyed_storage_ok(1) [OF assms(2) ok(3,4)]] same [OF sk] show ?thesis by simp
  qed
  moreover have "nv_pk s' = nv_pk k" if v: "crypto_verify_optimized derive path sig message v = Some (s', st, b)" for s' st b
    using v assms(2)
  proof (cases rule: crypto_verify_cases)
    case refused
    with assms(3-5) show ?thesis by auto
  qed (use same in \<open>simp_all add: verified_storage_def Let_def\<close>)
  ultimately show ?thesis using Some by (auto simp: pred_option_def)
qed

end
