(* ===== verification/Device_Safety.thy ===== *)
theory Device_Safety
  imports Device Sign_State
begin

text \<open>
  Properties of the application: the invariant of its state, which commands are refused and how, how a
  transaction is received and reviewed, and when a signature leaves the device.
\<close>

subsection \<open>What the code relies on in the SDK\<close>

text \<open>
  The documented behaviour: the path reader does not change the size of the array; \<open>buffer_move\<close> never writes more than
  it is allowed to, and copies a whole buffer from its start; the data of a parsed command have \<open>lc\<close> bytes.
\<close>

definition sdk_ok :: "sdk \<Rightarrow> bool" where
  "sdk_ok sdk \<longleftrightarrow> 5 \<le> max_bip32_path sdk
     \<and> (\<forall>buf old n. length (fst (snd (buffer_read_bip32_path sdk buf old n))) = length old)
     \<and> (\<forall>buf n. length (fst (snd (buffer_move sdk buf n))) \<le> n)
     \<and> (\<forall>bs. buffer_move sdk \<lparr>buf_ptr = Some bs, buf_size = length bs, buf_offset = 0\<rparr> (length bs) =
           (True, bs, \<lparr>buf_ptr = Some bs, buf_size = length bs, buf_offset = length bs\<rparr>))
     \<and> (\<forall>input cmd bs. apdu_parser sdk input = Some cmd \<longrightarrow> cmd_data cmd = Some bs \<longrightarrow> length bs = unat (cmd_lc cmd))"

text \<open>An implementation with this behaviour: big-endian paths, and a seed that depends on the path only.\<close>

definition read_u8 :: "buffer \<Rightarrow> bool \<times> byte \<times> buffer" where
  "read_u8 buf =
     (case buf_ptr buf of
        Some bs \<Rightarrow> if buf_offset buf < buf_size buf then (True, bs ! buf_offset buf, buf\<lparr>buf_offset := buf_offset buf + 1\<rparr>) else (False, 0, buf)
      | None \<Rightarrow> (False, 0, buf))"

definition read_path :: "buffer \<Rightarrow> u32 list \<Rightarrow> nat \<Rightarrow> bool \<times> u32 list \<times> buffer" where
  "read_path buf old n =
     (case buf_ptr buf of
        Some bs \<Rightarrow>
          if n \<le> length old \<and> buf_offset buf + 4 * n \<le> buf_size buf
          then (True, map (\<lambda>i. of_nat (be_nat (chunk (buf_offset buf + 4 * i) 4 bs))) [0..<n] @ drop n old,
                buf\<lparr>buf_offset := buf_offset buf + 4 * n\<rparr>)
          else (False, old, buf)
      | None \<Rightarrow> (False, old, buf))"

definition move_bytes :: "buffer \<Rightarrow> nat \<Rightarrow> bool \<times> byte list \<times> buffer" where
  "move_bytes buf n =
     (case buf_ptr buf of
        Some bs \<Rightarrow>
          if buf_size buf - buf_offset buf \<le> n
          then (True, chunk (buf_offset buf) (buf_size buf - buf_offset buf) bs, buf\<lparr>buf_offset := buf_size buf\<rparr>)
          else (False, [], buf)
      | None \<Rightarrow> (False, [], buf))"

fun parse_apdu :: "byte list \<Rightarrow> command option" where
  "parse_apdu [a, b, c, d] = Some \<lparr>cmd_cla = a, cmd_ins = b, cmd_p1 = c, cmd_p2 = d, cmd_lc = 0, cmd_data = None\<rparr>"
| "parse_apdu (a # b # c # d # l # bs) =
     (if length bs = unat l
      then Some \<lparr>cmd_cla = a, cmd_ins = b, cmd_p1 = c, cmd_p2 = d, cmd_lc = l, cmd_data = (if l = 0 then None else Some bs)\<rparr>
      else None)"
| "parse_apdu _ = None"

definition sample_sdk :: sdk where
  "sample_sdk = \<lparr>
     os_derive_bip32_no_throw = (\<lambda>path. Inr (replicate 64 (of_nat (length path)))),
     buffer_read_u8 = read_u8, buffer_read_bip32_path = read_path, buffer_move = move_bytes, apdu_parser = parse_apdu,
     io_result = (\<lambda>r. 0), max_bip32_path = 10\<rparr>"

lemma parse_apdu_data: "parse_apdu input = Some cmd \<Longrightarrow> cmd_data cmd = Some bs \<Longrightarrow> length bs = unat (cmd_lc cmd)"
  by (induction input rule: parse_apdu.induct) (auto split: if_splits)

lemma sample_sdk_ok: "sdk_ok sample_sdk"
  unfolding sdk_ok_def using parse_apdu_data
  by (auto simp: sample_sdk_def read_path_def move_bytes_def chunk_def split: option.splits)

subsection \<open>The invariant\<close>

definition gctx_ok :: "sdk \<Rightarrow> global_ctx \<Rightarrow> bool" where
  "gctx_ok sdk c \<longleftrightarrow> length (raw_tx (tx_info c)) = MAX_TRANSACTION_LEN \<and> raw_tx_len (tx_info c) \<le> MAX_TRANSACTION_LEN
     \<and> length (m_hash (tx_info c)) = 32 \<and> length (bip32_path c) = max_bip32_path sdk \<and> length (address c) = ADDRESS_SIZE"

definition device_ok :: "sdk \<Rightarrow> device \<Rightarrow> bool" where
  "device_ok sdk d \<longleftrightarrow> gctx_ok sdk (G_context d) \<and> nvm_ok (N_storage d) \<and> length (switches d) = 3"

lemmas send_defs = io_send_sw_def io_send_response_pointer_def

lemma ctx_cleared_ok: "gctx_ok sdk (ctx_cleared sdk)"
  by (simp add: gctx_ok_def ctx_cleared_def)

lemma length_keccak256 [simp]: "length (keccak256 m) = 32"
  by (simp add: keccak256_def keccak256_squeeze_def)

lemma wipe_ok: "nvm_ok s \<Longrightarrow> nvm_ok (wipe_nvm_secrets s)"
  unfolding wipe_eq by (simp add: nvm_ok_def polyvec_ok_def list_all_iff)

lemma nvm_ok_flags [simp]:
  "nvm_ok (s\<lparr>is_sending_signature := x\<rparr>) = nvm_ok s" "nvm_ok (s\<lparr>enable_blind_signing := x\<rparr>) = nvm_ok s"
  "nvm_ok (s\<lparr>display_nonce := x\<rparr>) = nvm_ok s" "nvm_ok (s\<lparr>display_tx_hash := x\<rparr>) = nvm_ok s"
  by (simp_all add: nvm_ok_def)

lemma device_ok_simps [simp]:
  "device_ok sdk (d\<lparr>screen := v\<rparr>) = device_ok sdk d" "device_ok sdk (d\<lparr>sent := r\<rparr>) = device_ok sdk d"
  by (simp_all add: device_ok_def)

lemma send_ok [simp]: "device_ok sdk (fst (io_send_sw sdk w d)) = device_ok sdk d"
  "device_ok sdk (fst (io_send_response_pointer sdk bs w d)) = device_ok sdk d"
  by (simp_all add: send_defs)

lemma set_state_ok [simp]: "device_ok sdk (set_ctx (\<lambda>c. c\<lparr>state := st\<rparr>) d) = device_ok sdk d"
  by (simp add: set_ctx_def device_ok_def gctx_ok_def)

lemma send_sig_ok [simp]: "device_ok sdk (fst (helper_send_response_sig sdk i d)) = device_ok sdk d"
  by (simp add: helper_send_response_sig_def io_send_response_pointer_def set_nvm_def device_ok_def Let_def)

lemma send_pk_ok [simp]: "device_ok sdk (fst (helper_send_response_pk_chunk sdk i d)) = device_ok sdk d"
  by (simp add: helper_send_response_pk_chunk_def send_defs device_ok_def Let_def)

lemma send_address_ok [simp]: "device_ok sdk (fst (helper_send_response_address sdk d)) = device_ok sdk d"
  by (simp add: helper_send_response_address_def Let_def)

lemma context_address_ok:
  assumes "context_address sdk d = Some (d', r)" "device_ok sdk d"
  shows "device_ok sdk d'"
proof -
  have "nvm_ok s'" if "address_from_bip32_path f p (N_storage d) = Some (s', r)" for f p s' r
    using that assms(2) keypair_ok
    by (auto simp: address_from_bip32_path_def new_mldsa87_from_seed_def device_ok_def split: sum.splits option.splits)
  moreover have "length a = 64" if "address_from_bip32_path f p (N_storage d) = Some (s', Inr a)" for f p s' a
    using that by (auto simp: address_from_bip32_path_def split: sum.splits option.splits)
  ultimately show ?thesis using assms
    by (fastforce simp: context_address_def set_ctx_def device_ok_def gctx_ok_def split: option.splits sum.splits prod.splits)
qed

lemma start_request_ok:
  assumes "start_request sdk req buf d = (d', b)" "device_ok sdk d" "sdk_ok sdk"
  shows "device_ok sdk d'"
proof -
  have "length path = length old" if "buffer_read_bip32_path sdk buf old n = (ok, path, buf')" for buf old n ok path buf'
    using assms(3) that unfolding sdk_ok_def by (metis fst_conv snd_conv)
  then show ?thesis using assms(1,2)
    by (auto simp: start_request_def Let_def set_ctx_def device_ok_def gctx_ok_def ctx_cleared_def split: prod.splits if_splits)
qed

lemma receive_chunk_ok:
  assumes "receive_chunk sdk buf d = (d', w)" "device_ok sdk d" "sdk_ok sdk"
  shows "device_ok sdk d'"
proof -
  obtain ok bytes buf' where m: "buffer_move sdk buf (buf_size buf) = (ok, bytes, buf')" by (cases "buffer_move sdk buf (buf_size buf)")
  have "length bytes \<le> buf_size buf" using assms(3) m unfolding sdk_ok_def by (metis fst_conv snd_conv)
  then show ?thesis using assms(1,2) m
    by (auto simp: receive_chunk_def Let_def set_ctx_def device_ok_def gctx_ok_def split: if_splits)
qed

lemma display_transaction_ok:
  assumes "ui_display_transaction_bs_choice sdk blind tx d = Some (d', ret)" "device_ok sdk d"
  shows "device_ok sdk d'"
proof (cases "req_type (G_context d) \<noteq> CONFIRM_TRANSACTION \<or> state (G_context d) \<noteq> STATE_PARSED")
  case True
  with assms show ?thesis by (auto simp: ui_display_transaction_bs_choice_def dest!: arg_cong [of "io_send_sw _ _ _" _ fst])
next
  case False
  let ?d = "d\<lparr>screen := Spinner ''Getting address''\<rparr>"
  from assms(1) False obtain d1 r where c: "context_address sdk ?d = Some (d1, r)"
    by (auto simp: ui_display_transaction_bs_choice_def Let_def split: option.splits)
  have "device_ok sdk d1" by (rule context_address_ok [OF c]) (simp add: assms(2))
  with assms(1) False c show ?thesis
    by (auto simp: ui_display_transaction_bs_choice_def Let_def split: sum.splits dest!: arg_cong [of "io_send_sw _ _ _" _ fst])
qed

lemma display_address_ok: "ui_display_address sdk d = (d', ret) \<Longrightarrow> device_ok sdk d \<Longrightarrow> device_ok sdk d'"
  by (auto simp: ui_display_address_def split: if_splits option.splits dest!: arg_cong [of "io_send_sw _ _ _" _ fst])

lemma send_okD: "io_send_sw sdk w d = (d', ret) \<Longrightarrow> device_ok sdk d \<Longrightarrow> device_ok sdk d'"
  by (drule arg_cong [of _ _ fst]) auto

lemma sign_tx_cases:
  assumes "handler_sign_tx sdk buf c1 c2 d = Some (d', ret)"
  obtains (start) d1 ok where "start_request sdk CONFIRM_TRANSACTION buf d = (d1, ok)"
      "(d', ret) = io_send_sw sdk (if ok then SW_OK else SW_WRONG_DATA_LENGTH) d1" "c1 = 0"
  | (refused) d1 w where "receive_chunk sdk buf d = (d1, Some w)" "(d', ret) = io_send_sw sdk w d1" "c1 = 1 \<or> c1 = 2 \<and> c2 = 0"
  | (stored) d1 where "receive_chunk sdk buf d = (d1, None)" "(d', ret) = io_send_sw sdk SW_OK d1" "c1 = 1"
  | (undecodable) d1 tx where "receive_chunk sdk buf d = (d1, None)" "decode_ledger_tx (received_tx d1) tx_zero = Fail tx"
      "(d', ret) = io_send_sw sdk SW_TX_PARSING_FAIL (hash_tx d1)" "c1 = 2" "c2 = 0"
  | (blind) d1 tx p n where "receive_chunk sdk buf d = (d1, None)" "decode_ledger_tx (received_tx d1) tx_zero = Go tx p n"
      "has_data tx \<or> has_access_list tx" "enable_blind_signing (N_storage d1) = 0"
      "(d', ret) = io_send_sw sdk SW_DENY (hash_tx d1)" "c1 = 2" "c2 = 0"
  | (review) d1 tx p n where "receive_chunk sdk buf d = (d1, None)" "decode_ledger_tx (received_tx d1) tx_zero = Go tx p n"
      "has_data tx \<or> has_access_list tx \<Longrightarrow> enable_blind_signing (N_storage d1) \<noteq> 0"
      "ui_display_transaction_bs_choice sdk (has_data tx \<or> has_access_list tx) tx (hash_tx d1) = Some (d', ret)" "c1 = 2" "c2 = 0"
  | (chunk) "c1 = 2" "0 < c2" "c2 < 18" "req_type (G_context d) = CONFIRM_TRANSACTION" "is_sending_signature (N_storage d) \<noteq> 0"
      "(d', ret) = helper_send_response_sig sdk c2 d"
  | (bad_state) "c1 = 2" "0 < c2" "c2 < 18" "req_type (G_context d) \<noteq> CONFIRM_TRANSACTION \<or> is_sending_signature (N_storage d) = 0"
      "(d', ret) = io_send_sw sdk SW_BAD_STATE d"
  | (bad_params) "c1 \<noteq> 0" "c1 \<noteq> 1" "(d', ret) = io_send_sw sdk SW_WRONG_P1P2 d"
proof -
  have h: "received_tx (hash_tx e) = received_tx e" "N_storage (hash_tx e) = N_storage e" for e
    by (simp_all add: hash_tx_def received_tx_def set_ctx_def Let_def)
  obtain d1 ok where s: "start_request sdk CONFIRM_TRANSACTION buf d = (d1, ok)" by fastforce
  obtain d2 w where r: "receive_chunk sdk buf d = (d2, w)" by fastforce
  consider "c1 = 0" | "c1 = 1" | "c1 = 2" "c2 = 0" | "c1 = 2" "0 < c2" "c2 < 18" | "c1 \<noteq> 0" "c1 \<noteq> 1" "\<not> (c1 = 2 \<and> (c2 = 0 \<or> 0 < c2 \<and> c2 < 18))" by blast
  then show thesis
  proof cases
    case 1
    with assms s start show thesis by (cases ok) (auto simp: handler_sign_tx_def Let_def)
  next
    case 2
    with assms r refused stored show thesis by (cases w) (auto simp: handler_sign_tx_def Let_def)
  next
    case 3
    show thesis
    proof (cases w)
      case None
      then show thesis using assms r 3 undecodable [of d2] blind [of d2] review [of d2] h
        by (auto simp: handler_sign_tx_def Let_def split: dec.splits if_splits)
    next
      case (Some x)
      with assms r 3 refused show thesis by (auto simp: handler_sign_tx_def Let_def)
    qed
  next
    case 4
    with assms chunk bad_state show thesis by (auto simp: handler_sign_tx_def Let_def split: if_splits)
  next
    case 5
    then have "\<not> (c1 = 2 \<and> c2 = 0)" "\<not> (c1 = 2 \<and> c2 > 0 \<and> c2 < 18)" by auto
    with 5(1,2) assms bad_params show thesis unfolding handler_sign_tx_def by (simp only: if_False option.inject not_False_eq_True)
  qed
qed

lemma hash_tx_ok: "device_ok sdk d \<Longrightarrow> device_ok sdk (hash_tx d)"
  by (simp add: hash_tx_def Let_def set_ctx_def device_ok_def gctx_ok_def)

lemma sign_tx_ok:
  assumes "handler_sign_tx sdk buf c1 c2 d = Some (d', ret)" "device_ok sdk d" "sdk_ok sdk"
  shows "device_ok sdk d'"
  using assms(1)
proof (cases rule: sign_tx_cases)
  case (review d1 tx p n)
  then show ?thesis using assms(2,3) display_transaction_ok hash_tx_ok receive_chunk_ok by blast
qed (use assms(2,3) start_request_ok receive_chunk_ok hash_tx_ok send_okD send_sig_ok in \<open>metis fst_conv\<close>)+


lemma public_key_cases:
  assumes "handler_get_public_key sdk buf display d = Some (d', ret)"
  obtains (refused) d1 where "start_request sdk CONFIRM_ADDRESS buf d = (d1, False)" "(d', ret) = io_send_sw sdk SW_WRONG_DATA_LENGTH d1"
  | (failed) d1 d2 err where "start_request sdk CONFIRM_ADDRESS buf d = (d1, True)" "context_address sdk d1 = Some (d2, Inl err)"
      "(d', ret) = io_send_sw sdk (ucast err) d2"
  | (shown) d1 d2 a where "start_request sdk CONFIRM_ADDRESS buf d = (d1, True)" "context_address sdk d1 = Some (d2, Inr a)"
      "display" "(d', ret) = ui_display_address sdk d2"
  | (returned) d1 d2 a where "start_request sdk CONFIRM_ADDRESS buf d = (d1, True)" "context_address sdk d1 = Some (d2, Inr a)"
      "\<not> display" "(d', ret) = helper_send_response_address sdk d2"
  using assms by (auto simp: handler_get_public_key_def Let_def split: prod.splits if_splits option.splits sum.splits)

lemma public_key_ok_device:
  assumes "handler_get_public_key sdk buf display d = Some (d', ret)" "device_ok sdk d" "sdk_ok sdk"
  shows "device_ok sdk d'"
  using assms(1)
  by (cases rule: public_key_cases)
    (use assms(2,3) start_request_ok context_address_ok display_address_ok send_okD send_address_ok in \<open>metis fst_conv\<close>)+

lemma dispatch_cases:
  assumes "apdu_dispatcher sdk cmd d = Some (d', ret)"
  obtains (answer) bs w where "io_send_response_pointer sdk bs w d = (d', ret)"
  | (pk_chunk) i where "helper_send_response_pk_chunk sdk i d = (d', ret)" "unat i < 11"
  | (public_key) buf display where "handler_get_public_key sdk buf display d = Some (d', ret)"
  | (sign_tx) buf where "handler_sign_tx sdk buf (cmd_p1 cmd) (cmd_p2 cmd) d = Some (d', ret)"
      "buf = \<lparr>buf_ptr = cmd_data cmd, buf_size = unat (cmd_lc cmd), buf_offset = 0\<rparr>" "cmd_cla cmd = CLA" "cmd_ins cmd = SIGN_TX"
proof -
  have i: "unat (cmd_p2 cmd - 1) < 11" if "0 < cmd_p2 cmd" "cmd_p2 cmd \<le> 11"
  proof -
    have "unat (cmd_p2 cmd - 1) = unat (cmd_p2 cmd) - 1" using that(1) by (intro unat_minus_one) auto
    then show ?thesis using that by (auto simp: word_le_nat_alt word_less_nat_alt)
  qed
  show thesis
    using assms answer pk_chunk [OF _ i] public_key sign_tx
    by (auto simp: apdu_dispatcher_def Let_def io_send_sw_def handler_get_version_def handler_get_app_name_def
        handler_get_public_key_chunk_def not_less split: if_splits)
qed


lemma app_step_ok:
  assumes "app_step sdk input d = Some (d', b)" "device_ok sdk d" "sdk_ok sdk"
  shows "device_ok sdk d'"
proof (cases "apdu_parser sdk input")
  case None
  with assms show ?thesis by (auto simp: app_step_def)
next
  case (Some cmd)
  with assms(1) obtain ret where "apdu_dispatcher sdk cmd d = Some (d', ret)" by (auto simp: app_step_def split: option.splits)
  then show ?thesis
    by (cases rule: dispatch_cases)
      (use assms(2,3) public_key_ok_device sign_tx_ok send_pk_ok send_ok(2) in \<open>metis fst_conv\<close>)+
qed

lemma sign_message_ok:
  assumes "crypto_sign_message sdk rnd d = Some (d', ret)" "device_ok sdk d"
  shows "device_ok sdk d'"
proof -
  let ?f = "os_derive_bip32_no_throw sdk" and ?p = "current_path d" and ?m = "m_hash (tx_info (G_context d))"
  have set: "device_ok sdk (d\<lparr>N_storage := s\<rparr>)" if "nvm_ok s" for s using that assms(2) by (simp add: device_ok_def)
  from assms(1) obtain s st where s: "crypto_sign_optimized ?f ?p ?m rnd (N_storage d) = Some (s, st)"
    by (auto simp: crypto_sign_message_def split: option.splits)
  have ok: "nvm_ok s" using sign_ok [OF s] assms(2) by (simp add: device_ok_def)
  show ?thesis
  proof (cases "st = Code ERR_NONE")
    case False
    with assms(1) s set [OF wipe_ok [OF ok]] show ?thesis by (simp add: crypto_sign_message_def)
  next
    case True
    with assms(1) s obtain s2 st2 b where v: "crypto_verify_optimized ?f ?p (nv_sig s) ?m s = Some (s2, st2, b)"
      by (auto simp: crypto_sign_message_def split: option.splits)
    from assms(1) True s v set [OF wipe_ok [OF verify_ok [OF v ok]]] show ?thesis
      by (auto simp: crypto_sign_message_def Let_def split: if_splits)
  qed
qed

lemma validate_transaction_ok:
  assumes "validate_transaction sdk choice rnd d = Some d'" "device_ok sdk d"
  shows "device_ok sdk d'"
proof -
  let ?d = "set_ctx (\<lambda>c. c\<lparr>state := STATE_APPROVED\<rparr>) d"
  have "device_ok sdk d1" if "crypto_sign_message sdk rnd ?d = Some (d1, ret)" for d1 ret
    using sign_message_ok [OF that] assms(2) by simp
  then show ?thesis using assms by (auto simp: validate_transaction_def Let_def split: if_splits option.splits)
qed

lemma review_choice_ok: "review_choice sdk confirm rnd d = Some d' \<Longrightarrow> device_ok sdk d \<Longrightarrow> device_ok sdk d'"
  using validate_transaction_ok by (fastforce simp: review_choice_def split: if_splits option.splits)

lemma address_choice_ok: "device_ok sdk (address_review_choice sdk confirm d) = device_ok sdk d"
  by (simp add: address_review_choice_def validate_pubkey_def Let_def)

lemma app_start_ok: "nvm_ok s \<Longrightarrow> device_ok sdk (app_start sdk s)"
  by (simp add: app_start_def ui_menu_main_def device_ok_def ctx_cleared_ok wipe_ok Let_def)

lemma step_ok:
  assumes "step sdk d evt d'" "device_ok sdk d" "sdk_ok sdk"
  shows "device_ok sdk d'"
  using assms(1)
proof (cases rule: step.cases)
  case (toggle token)
  then show ?thesis using assms(2) by (cases token) (simp_all add: controls_callback_def device_ok_def Let_def)
next
  case (dismiss page)
  then show ?thesis using assms(2) by (simp add: ui_menu_main_def device_ok_def)
next
  case restart
  then show ?thesis using assms(2) app_start_ok by (simp add: device_ok_def)
qed (use assms(2,3) app_step_ok review_choice_ok address_choice_ok in blast)+

text \<open>
  C16.  In every reachable state of the device the fixed-size arrays have their sizes and the length of the
  received transaction does not exceed its buffer of 510 bytes, whatever the host sends, the user does
  and however often the device restarts.
\<close>

theorem device_invariant:
  assumes "reachable sdk s d" "sdk_ok sdk" "nvm_ok s"
  shows "device_ok sdk d"
  using assms(1) by (induction rule: reachable.induct) (use assms(2,3) app_start_ok step_ok in blast)+

theorem device_invariant_witness:
  "device_ok sample_sdk (app_start sample_sdk (N_storage (app_start sample_sdk nvm_fresh)))"
proof -
  have "reachable sample_sdk nvm_fresh (app_start sample_sdk (N_storage (app_start sample_sdk nvm_fresh)))"
    by (rule reachable.extend [OF reachable.start step.restart])
  then show ?thesis by (rule device_invariant [OF _ sample_sdk_ok nvm_fresh_ok])
qed

subsection \<open>Refused commands\<close>

text \<open>
  The commands that are served, by instruction, parameters and data: the version and the name without parameters; the
  public key for a path (\<open>p2 = 0\<close>, with or without display) or one of its 11 chunks; the three phases of signing, whose
  requests with \<open>p2 = 0\<close> need data and whose other requests are for the chunks 1 to 17.
\<close>

definition served :: "command \<Rightarrow> bool" where
  "served cmd \<longleftrightarrow> cmd_cla cmd = 0xE0 \<and>
     (cmd_ins cmd \<in> {0x03, 0x04} \<and> cmd_p1 cmd = 0 \<and> cmd_p2 cmd = 0
      \<or> cmd_ins cmd = 0x05 \<and> unat (cmd_p1 cmd) \<le> 1 \<and> (if unat (cmd_p2 cmd) = 0 then cmd_data cmd \<noteq> None else unat (cmd_p2 cmd) \<in> {1..11})
      \<or> cmd_ins cmd = 0x06 \<and> unat (cmd_p1 cmd) \<le> 2 \<and> (if unat (cmd_p2 cmd) = 0 then cmd_data cmd \<noteq> None else unat (cmd_p2 cmd) \<in> {1..17}))"

text \<open>The status word of a command that is not served: that of the first fault in this order.\<close>

definition refusal_sw :: "command \<Rightarrow> 16 word" where
  "refusal_sw cmd =
     (if cmd_cla cmd \<noteq> 0xE0 then 0x6E00
      else if cmd_ins cmd \<notin> {0x03, 0x04, 0x05, 0x06} then 0x6D00
      else if cmd_ins cmd \<in> {0x03, 0x04} \<and> (cmd_p1 cmd \<noteq> 0 \<or> cmd_p2 cmd \<noteq> 0)
           \<or> cmd_ins cmd = 0x05 \<and> (unat (cmd_p1 cmd) > 1 \<or> unat (cmd_p2 cmd) > 11)
           \<or> cmd_ins cmd = 0x06 \<and> (unat (cmd_p1 cmd) > 2 \<or> unat (cmd_p2 cmd) > 17) then 0x6A86
      else 0x6A87)"

text \<open>What serving a command is: the version, the name, or the result of the handler of the instruction.\<close>

definition serve :: "sdk \<Rightarrow> command \<Rightarrow> device \<Rightarrow> (device \<times> int) option" where
  "serve sdk cmd d =
     (let buf = \<lparr>buf_ptr = cmd_data cmd, buf_size = unat (cmd_lc cmd), buf_offset = 0\<rparr>
      in if cmd_ins cmd = 0x03 then Some (io_send_response_pointer sdk [2, 2, 2] 0x9000 d)
         else if cmd_ins cmd = 0x04 then Some (io_send_response_pointer sdk (map of_char ''QRL v2.0'') 0x9000 d)
         else if cmd_ins cmd = 0x06 then handler_sign_tx sdk buf (cmd_p1 cmd) (cmd_p2 cmd) d
         else if unat (cmd_p2 cmd) = 0 then handler_get_public_key sdk buf (unat (cmd_p1 cmd) = 1) d
         else Some (helper_send_response_pk_chunk sdk (of_nat (unat (cmd_p2 cmd) - 1)) d))"

lemma byte_zero: "unat p = 0 \<longleftrightarrow> p = 0" "p \<noteq> 0 \<Longrightarrow> Suc 0 \<le> unat p" for p :: byte
  by (simp_all add: unat_eq_0 Suc_le_eq unat_gt_0)

lemma byte_le_2: "(p \<noteq> 0 \<and> p \<noteq> 1 \<and> p \<noteq> 2) \<longleftrightarrow> 2 < unat p" for p :: byte
proof -
  have "p = 0 \<or> p = 1 \<or> p = 2" if "unat p \<le> 2"
  proof -
    have "unat p = unat (0 :: byte) \<or> unat p = unat (1 :: byte) \<or> unat p = unat (2 :: byte)" using that by auto
    then show ?thesis by (simp only: word_unat_eq_iff)
  qed
  then show ?thesis by fastforce
qed

lemma byte_pred: "p \<noteq> 0 \<Longrightarrow> of_nat (unat p - 1) = p - 1" for p :: byte
proof -
  assume "p \<noteq> 0"
  from unat_minus_one [OF this] have "of_nat (unat p - 1) = (of_nat (unat (p - 1)) :: byte)" by (simp only:)
  then show "of_nat (unat p - 1) = p - 1" by simp
qed

lemma byte_flag: "unat p \<le> 1 \<Longrightarrow> (p \<noteq> 0) = (unat p = 1)" for p :: byte
  using byte_zero [of p] by auto

lemmas code_words = CLA_def GET_VERSION_def GET_APP_NAME_def GET_PUBLIC_KEY_def SIGN_TX_def SW_CLA_NOT_SUPPORTED_def
  SW_INS_NOT_SUPPORTED_def SW_WRONG_P1P2_def SW_WRONG_DATA_LENGTH_def SW_OK_def

text \<open>
  C23.  Exactly the commands of the table \<open>served\<close> are served, each by its own handler with the path or chunk number it
  asks for; every other command is refused with the status word of its first fault (class, instruction, parameters,
  missing data), and refusing changes nothing else in the device.
\<close>

theorem refused_commands:
  "apdu_dispatcher sdk cmd d =
     (if served cmd then serve sdk cmd d
      else Some (d\<lparr>sent := sent d @ [Response [] (refusal_sw cmd)]\<rparr>, io_result sdk (Response [] (refusal_sw cmd))))"
proof -
  have p: "(1 < cmd_p1 cmd) = (1 < unat (cmd_p1 cmd))" "(11 < cmd_p2 cmd) = (11 < unat (cmd_p2 cmd))" "(17 < cmd_p2 cmd) = (17 < unat (cmd_p2 cmd))"
    by (simp_all add: word_less_nat_alt)
  consider "cmd_cla cmd \<noteq> 0xE0" | "cmd_cla cmd = 0xE0" "cmd_ins cmd = 0x03" | "cmd_cla cmd = 0xE0" "cmd_ins cmd = 0x04"
    | "cmd_cla cmd = 0xE0" "cmd_ins cmd = 0x05" | "cmd_cla cmd = 0xE0" "cmd_ins cmd = 0x06"
    | "cmd_cla cmd = 0xE0" "cmd_ins cmd \<notin> {0x03, 0x04, 0x05, 0x06}" by blast
  then show ?thesis
  proof cases
    case 4
    show ?thesis
      using 4 byte_flag [of "cmd_p1 cmd"] byte_zero(2) [of "cmd_p2 cmd"] byte_pred [of "cmd_p2 cmd"]
      by (auto simp: served_def serve_def refusal_sw_def apdu_dispatcher_def send_defs code_words Let_def p byte_zero(1)
          handler_get_public_key_chunk_def word_greater_zero_iff)
  next
    case 5
    show ?thesis
      using 5 byte_le_2 [of "cmd_p1 cmd"] byte_zero(2) [of "cmd_p2 cmd"]
      by (auto simp: served_def serve_def refusal_sw_def apdu_dispatcher_def send_defs code_words Let_def p byte_zero(1))
  qed (auto simp: served_def serve_def refusal_sw_def apdu_dispatcher_def send_defs code_words Let_def
      handler_get_version_def handler_get_app_name_def)
qed

subsection \<open>One response per command\<close>

definition reviewing :: "device \<Rightarrow> bool" where
  "reviewing d = (case screen d of Review_address t \<Rightarrow> True | Review_transaction b ps \<Rightarrow> True | _ \<Rightarrow> False)"

text \<open>What handling a command comes to, from \<open>d0\<close> to \<open>d\<close>: one response, or a review and no response yet.\<close>

definition handled :: "device \<Rightarrow> device \<Rightarrow> bool" where
  "handled d0 d \<longleftrightarrow> (if reviewing d then sent d = sent d0 else (\<exists>r. sent d = sent d0 @ [r]))"

lemma reviewing_screen: "screen d = screen e \<Longrightarrow> reviewing d = reviewing e"
  by (simp add: reviewing_def)

lemma handled_send: "io_send_response_pointer sdk bs w d = (d', ret) \<Longrightarrow> sent d = sent d0 \<Longrightarrow> \<not> reviewing d \<Longrightarrow> handled d0 d'"
  "io_send_sw sdk w d = (d', ret) \<Longrightarrow> sent d = sent d0 \<Longrightarrow> \<not> reviewing d \<Longrightarrow> handled d0 d'"
  "helper_send_response_sig sdk i d = (d', ret) \<Longrightarrow> sent d = sent d0 \<Longrightarrow> \<not> reviewing d \<Longrightarrow> handled d0 d'"
  "helper_send_response_pk_chunk sdk i d = (d', ret) \<Longrightarrow> sent d = sent d0 \<Longrightarrow> \<not> reviewing d \<Longrightarrow> handled d0 d'"
  "helper_send_response_address sdk d = (d', ret) \<Longrightarrow> sent d = sent d0 \<Longrightarrow> \<not> reviewing d \<Longrightarrow> handled d0 d'"
  by (auto simp: send_defs helper_send_response_sig_def helper_send_response_pk_chunk_def helper_send_response_address_def
      set_nvm_def handled_def reviewing_def Let_def split: if_splits)

lemma sent_frame:
  "start_request sdk req buf d = (d', b) \<Longrightarrow> sent d' = sent d \<and> N_storage d' = N_storage d \<and> screen d' = screen d"
  "receive_chunk sdk buf d = (d', w) \<Longrightarrow> sent d' = sent d \<and> N_storage d' = N_storage d \<and> screen d' = screen d"
  "sent (hash_tx d) = sent d" "N_storage (hash_tx d) = N_storage d" "screen (hash_tx d) = screen d"
  "context_address sdk d = Some (d', r) \<Longrightarrow> sent d' = sent d"
  by (auto simp: start_request_def receive_chunk_def hash_tx_def context_address_def set_ctx_def Let_def
      split: prod.splits if_splits option.splits sum.splits)

lemma review_frame:
  "start_request sdk req buf d = (d', b) \<Longrightarrow> reviewing d' = reviewing d" "receive_chunk sdk buf d = (d', w) \<Longrightarrow> reviewing d' = reviewing d"
  "reviewing (hash_tx d) = reviewing d" "context_address sdk d = Some (d', r) \<Longrightarrow> \<not> reviewing d \<Longrightarrow> \<not> reviewing d'"
  using sent_frame(1) [of sdk req buf d d' b] sent_frame(2) [of sdk buf d d' w] sent_frame(5) [of d]
  by (auto simp: reviewing_def context_address_def set_ctx_def split: option.splits sum.splits)

lemma display_answers:
  "ui_display_address sdk d = (d', ret) \<Longrightarrow> sent d = sent d0 \<Longrightarrow> \<not> reviewing d \<Longrightarrow> handled d0 d'"
  by (auto simp: ui_display_address_def handled_def reviewing_def send_defs set_ctx_def Let_def split: if_splits option.splits)

lemma display_transaction_answers:
  assumes "ui_display_transaction_bs_choice sdk blind tx d = Some (d', ret)" "sent d = sent d0" "\<not> reviewing d"
  shows "handled d0 d'"
proof (cases "req_type (G_context d) \<noteq> CONFIRM_TRANSACTION \<or> state (G_context d) \<noteq> STATE_PARSED")
  case True
  with assms show ?thesis by (auto simp: ui_display_transaction_bs_choice_def set_ctx_def reviewing_def dest: handled_send(2))
next
  case False
  from assms(1) False obtain d1 r where c: "context_address sdk (d\<lparr>screen := Spinner ''Getting address''\<rparr>) = Some (d1, r)"
    by (auto simp: ui_display_transaction_bs_choice_def Let_def split: option.splits)
  have "sent d1 = sent d0" "\<not> reviewing d1" using sent_frame(6) [OF c] review_frame(4) [OF c] assms(2) by (simp_all add: reviewing_def)
  with assms(1) False c show ?thesis
    by (auto simp: ui_display_transaction_bs_choice_def Let_def handled_def reviewing_def send_defs split: sum.splits)
qed

lemma sign_tx_answers:
  assumes "handler_sign_tx sdk buf c1 c2 d = Some (d', ret)" "\<not> reviewing d"
  shows "handled d d'"
  using assms(1)
proof (cases rule: sign_tx_cases)
  case (start d1 ok)
  then show ?thesis using sent_frame(1) review_frame(1) handled_send(2) assms(2) by metis
next
  case (review d1 tx p n)
  then show ?thesis using sent_frame(2,3) review_frame(2,3) display_transaction_answers assms(2) by metis
next
  case chunk
  then show ?thesis using handled_send(3) assms(2) by metis
qed (metis assms(2) sent_frame(2,3) review_frame(2,3) handled_send(2))+

lemma dispatcher_answers:
  assumes "apdu_dispatcher sdk cmd d = Some (d', ret)" "\<not> reviewing d"
  shows "handled d d'"
  using assms(1)
proof (cases rule: dispatch_cases)
  case (public_key buf display)
  then show ?thesis
    by (cases rule: public_key_cases) (metis assms(2) sent_frame(1,6) review_frame(1,4) handled_send display_answers)+
next
  case (sign_tx buf)
  then show ?thesis using sign_tx_answers assms(2) by blast
qed (use handled_send assms(2) in metis)+

lemma choice_answers:
  "review_choice sdk confirm rnd d = Some d' \<Longrightarrow> (\<exists>r. sent d' = sent d @ [r]) \<and> \<not> reviewing d'"
  "(\<exists>r. sent (address_review_choice sdk confirm d) = sent d @ [r]) \<and> \<not> reviewing (address_review_choice sdk confirm d)"
proof -
  have sm: "sent d1 = sent e" if "crypto_sign_message sdk rnd e = Some (d1, ret)" for e d1 ret
    using that by (auto simp: crypto_sign_message_def Let_def split: option.splits if_splits)
  show "review_choice sdk confirm rnd d = Some d' \<Longrightarrow> (\<exists>r. sent d' = sent d @ [r]) \<and> \<not> reviewing d'"
    by (auto simp: review_choice_def validate_transaction_def helper_send_response_sig_def send_defs set_ctx_def set_nvm_def Let_def
        reviewing_def split: option.splits if_splits dest!: sm)
  show "(\<exists>r. sent (address_review_choice sdk confirm d) = sent d @ [r]) \<and> \<not> reviewing (address_review_choice sdk confirm d)"
    by (simp add: address_review_choice_def validate_pubkey_def helper_send_response_address_def send_defs reviewing_def Let_def)
qed

text \<open>
  An exchange: a run without a restart in which the host waits for the response to a command before it sends the next, so that nothing is
  received while a review, whose command is unanswered, is on the screen.
\<close>

definition is_receive :: "event \<Rightarrow> bool" where
  "is_receive evt = (case evt of Receive input \<Rightarrow> True | _ \<Rightarrow> False)"

inductive exchange :: "sdk \<Rightarrow> device \<Rightarrow> event list \<Rightarrow> device \<Rightarrow> bool" for sdk d where
  no_event: "exchange sdk d [] d"
| next_event: "exchange sdk d evts d' \<Longrightarrow> step sdk d' evt d'' \<Longrightarrow> evt \<noteq> Restart \<Longrightarrow> \<not> (is_receive evt \<and> reviewing d') \<Longrightarrow>
    exchange sdk d (evts @ [evt]) d''"

text \<open>The number of responses, and one more if a review is open, grows by one with every command and does not change otherwise.\<close>

definition answers :: "device \<Rightarrow> nat" where
  "answers d = length (sent d) + (if reviewing d then 1 else 0)"

lemma step_answers:
  assumes "step sdk d evt d'" "evt \<noteq> Restart" "\<not> (is_receive evt \<and> reviewing d)"
  shows "answers d' = answers d + (if is_receive evt then 1 else 0) \<and> take (length (sent d)) (sent d') = sent d"
  using assms(1)
proof (cases rule: step.cases)
  case (receive input)
  have "\<not> reviewing d" using assms(3) receive(1) by (simp add: is_receive_def)
  then have "handled d d'" using receive(2) dispatcher_answers [of sdk _ d d']
    by (auto simp: app_step_def handled_def reviewing_def send_defs split: option.splits)
  then show ?thesis using receive(1) \<open>\<not> reviewing d\<close> by (auto simp: handled_def answers_def is_receive_def split: if_splits)
next
  case (choice_transaction blind pairs confirm rnd)
  then show ?thesis using choice_answers(1) [of sdk confirm rnd d d'] by (auto simp: answers_def is_receive_def reviewing_def)
next
  case (choice_address shown confirm rnd)
  then show ?thesis using choice_answers(2) [of sdk confirm d] by (auto simp: answers_def is_receive_def reviewing_def)
next
  case (toggle token)
  then show ?thesis by (cases token) (simp_all add: controls_callback_def answers_def is_receive_def reviewing_def Let_def)
next
  case (dismiss page)
  then show ?thesis by (simp add: ui_menu_main_def answers_def is_receive_def reviewing_def)
qed (use assms(2) in simp)

text \<open>
  C22.  Every command is answered exactly once: after any exchange that starts without a review, the responses sent are as many as the
  commands received, or one fewer while a review is on the screen, the one to the last command; no response sent before is taken
  back.  So the choice on a review sends exactly the missing response, and nothing is sent without a command.
\<close>

theorem one_response:
  assumes "exchange sdk d evts d'" "\<not> reviewing d"
  shows "length (sent d') + (if reviewing d' then 1 else 0) = length (sent d) + length (filter is_receive evts)
    \<and> take (length (sent d)) (sent d') = sent d"
proof -
  from assms(1) have "answers d' = answers d + length (filter is_receive evts) \<and> take (length (sent d)) (sent d') = sent d"
  proof induction
    case (next_event evts d1 evt d2)
    note st = step_answers [OF next_event(2,3,4)]
    then have "take (length (sent d)) (sent d2) = take (length (sent d)) (take (length (sent d1)) (sent d2))"
      using next_event.IH by (metis take_take min.absorb1 length_take min.cobounded2)
    with st next_event.IH show ?case by simp
  qed simp
  with assms(2) show ?thesis by (simp add: answers_def)
qed

text \<open>A request for the version: one command, one response.\<close>

theorem one_response_witness:
  "\<exists>d'. exchange sample_sdk (app_start sample_sdk nvm_fresh) [Receive [0xE0, 3, 0, 0]] d' \<and> length (sent d') = 1"
proof -
  let ?d = "app_start sample_sdk nvm_fresh"
  have nr: "\<not> reviewing ?d" and none: "sent ?d = []" by (simp_all add: app_start_def ui_menu_main_def reviewing_def Let_def)
  have "app_step sample_sdk [0xE0, 3, 0, 0] ?d = Some (?d\<lparr>sent := sent ?d @ [Response [2, 2, 2] SW_OK]\<rparr>, True)"
    by (simp add: app_step_def sample_sdk_def apdu_dispatcher_def CLA_def GET_VERSION_def handler_get_version_def send_defs Let_def)
  then have e: "exchange sample_sdk ?d ([] @ [Receive [0xE0, 3, 0, 0]]) (?d\<lparr>sent := sent ?d @ [Response [2, 2, 2] SW_OK]\<rparr>)"
    using nr by (intro next_event [OF no_event step.receive]) simp_all
  have "\<not> reviewing (?d\<lparr>sent := sent ?d @ [Response [2, 2, 2] SW_OK]\<rparr>)" using nr by (simp add: reviewing_def)
  with one_response [OF e nr] e none show ?thesis by (auto simp: is_receive_def)
qed

end
