(* ===== verification/Device_Signing.thy ===== *)
theory Device_Signing
  imports Device_Safety
begin

text \<open>
  From the transaction the host uploads to the signature it fetches: the chunks are assembled, the review
  shows what is signed, only the user's approval makes a signature, the signature is valid, and the
  chunks the host fetches are the signature.
\<close>

subsection \<open>A signing service\<close>

text \<open>
  What \<open>crypto_sign_message\<close> relies on: a signature without an error is valid, checking a valid signature succeeds, and neither
  checking nor wiping changes the signature.
\<close>

definition sign_and_check ::
  "('m \<Rightarrow> 'r \<Rightarrow> 's \<Rightarrow> ('s \<times> bool) option) \<Rightarrow> ('m \<Rightarrow> 's \<Rightarrow> ('s \<times> bool) option) \<Rightarrow> ('s \<Rightarrow> 's) \<Rightarrow> 'm \<Rightarrow> 'r \<Rightarrow> 's \<Rightarrow> ('s \<times> bool) option" where
  "sign_and_check sign check wipe m r s =
     (case sign m r s of
        None \<Rightarrow> None
      | Some (s', b) \<Rightarrow>
          if \<not> b then Some (wipe s', False)
          else (case check m s' of None \<Rightarrow> None | Some (s'', b') \<Rightarrow> Some (wipe s'', b')))"

locale signing_service =
  fixes ok :: "'s \<Rightarrow> bool" and sign :: "'m \<Rightarrow> 'r \<Rightarrow> 's \<Rightarrow> ('s \<times> bool) option" and check :: "'m \<Rightarrow> 's \<Rightarrow> ('s \<times> bool) option"
    and wipe :: "'s \<Rightarrow> 's" and signature :: "'s \<Rightarrow> 'g" and valid :: "'m \<Rightarrow> 'g \<Rightarrow> bool"
  assumes sign_keeps: "ok s \<Longrightarrow> sign m r s = Some (s', b) \<Longrightarrow> ok s'"
    and sign_valid: "ok s \<Longrightarrow> sign m r s = Some (s', True) \<Longrightarrow> valid m (signature s')"
    and check_valid: "ok s \<Longrightarrow> valid m (signature s) \<Longrightarrow> \<exists>s'. check m s = Some (s', True)"
    and check_keeps: "ok s \<Longrightarrow> check m s = Some (s', b) \<Longrightarrow> ok s' \<and> signature s' = signature s"
    and wipe_keeps: "ok s \<Longrightarrow> ok (wipe s) \<and> signature (wipe s) = signature s"
begin

lemma self_check_succeeds:
  assumes "ok s" "sign m r s = Some (s', True)"
  shows "\<exists>s''. sign_and_check sign check wipe m r s = Some (s'', True)"
  using check_valid [OF sign_keeps [OF assms] sign_valid [OF assms]] assms(2) by (auto simp: sign_and_check_def)

lemma result_signature:
  assumes "ok s" "sign m r s = Some (s1, True)"
  shows "\<exists>s'. sign_and_check sign check wipe m r s = Some (s', True) \<and> ok s' \<and> signature s' = signature s1"
proof -
  note k1 = sign_keeps [OF assms]
  from check_valid [OF k1 sign_valid [OF assms]] obtain s2 where c: "check m s1 = Some (s2, True)" ..
  from check_keeps [OF k1 c] wipe_keeps [of s2] show ?thesis using assms(2) c by (simp add: sign_and_check_def)
qed

lemma result_valid:
  assumes "ok s" "sign_and_check sign check wipe m r s = Some (s', b)"
  shows "ok s'" "b \<Longrightarrow> valid m (signature s')" "b \<longleftrightarrow> (\<exists>s1. sign m r s = Some (s1, True))"
proof -
  from assms(2) obtain s1 b1 where s1: "sign m r s = Some (s1, b1)" by (auto simp: sign_and_check_def split: option.splits)
  note k1 = sign_keeps [OF assms(1) s1]
  have "ok s' \<and> (b \<longrightarrow> valid m (signature s')) \<and> (b \<longleftrightarrow> b1)"
  proof (cases b1)
    case False
    with assms(2) s1 wipe_keeps [OF k1] show ?thesis by (auto simp: sign_and_check_def)
  next
    case True
    then have v: "valid m (signature s1)" using sign_valid [OF assms(1)] s1 by simp
    from check_valid [OF k1 v] obtain s2 where c: "check m s1 = Some (s2, True)" ..
    note k2 = check_keeps [OF k1 c]
    from assms(2) s1 True c have "s' = wipe s2" "b" by (auto simp: sign_and_check_def)
    with True k2 wipe_keeps [of s2] v show ?thesis by simp
  qed
  with s1 show "ok s'" "b \<Longrightarrow> valid m (signature s')" "b \<longleftrightarrow> (\<exists>s1. sign m r s = Some (s1, True))" by auto
qed

end

subsection \<open>The device as a signing service\<close>

definition nvm_sign :: "(u32 list \<Rightarrow> u32 + byte list) \<Rightarrow> u32 list \<Rightarrow> byte list \<Rightarrow> byte list \<Rightarrow> nvm \<Rightarrow> (nvm \<times> bool) option" where
  "nvm_sign derive path m rnd s = map_option (\<lambda>(s', st). (s', st = Code ERR_NONE)) (crypto_sign_optimized derive path m rnd s)"

definition nvm_check :: "(u32 list \<Rightarrow> u32 + byte list) \<Rightarrow> u32 list \<Rightarrow> byte list \<Rightarrow> nvm \<Rightarrow> (nvm \<times> bool) option" where
  "nvm_check derive path m s =
     map_option (\<lambda>(s', st, b). (s', st = Code ERR_NONE \<and> b)) (crypto_verify_optimized derive path (nv_sig s) m s)"

definition nvm_valid :: "(u32 list \<Rightarrow> u32 + byte list) \<Rightarrow> u32 list \<Rightarrow> byte list \<Rightarrow> byte list \<Rightarrow> bool" where
  "nvm_valid derive path m sig \<longleftrightarrow>
     (\<forall>v. nvm_ok v \<longrightarrow> (\<exists>v'. crypto_verify_optimized derive path sig m v = Some (v', Code ERR_NONE, True)))"

text \<open>The parts of the storage that the host sees; key generation, verification and wiping leave them alone.\<close>

definition sig_part :: "nvm \<Rightarrow> byte list \<times> byte" where
  "sig_part s = (nv_sig s, is_sending_signature s)"

lemma verify_sig_part:
  assumes "crypto_verify_optimized derive path sig m s = Some (s', st, b)" "nvm_ok s"
  shows "sig_part s' = sig_part s"
  using assms by (cases rule: crypto_verify_cases) (auto simp: sig_part_def verified_storage_def Let_def)

lemma wipe_sig_part: "sig_part (wipe_nvm_secrets s) = sig_part s"
  by (simp add: sig_part_def wipe_nvm_secrets_def)

lemma keypair_sig_part: "crypto_sign_keypair seed s = Some s' \<Longrightarrow> sig_part s' = sig_part s"
  by (auto simp: crypto_sign_keypair_def sig_part_def Option.bind_eq_Some_conv Let_def split: prod.splits)

interpretation nvm_service: signing_service nvm_ok "nvm_sign derive path" "nvm_check derive path" wipe_nvm_secrets nv_sig "nvm_valid derive path"
  for derive path
proof unfold_locales
  fix s s' :: nvm and m r b assume s: "nvm_ok s"
  show "nvm_ok s'" if "nvm_sign derive path m r s = Some (s', b)"
    using that s sign_ok by (auto simp: nvm_sign_def)
  show "nvm_valid derive path m (nv_sig s')" if "nvm_sign derive path m r s = Some (s', True)"
    using that sign_verifies(2) [OF s] by (auto simp: nvm_sign_def nvm_valid_def)
  show "\<exists>s'. nvm_check derive path m s = Some (s', True)" if "nvm_valid derive path m (nv_sig s)"
    using that s by (fastforce simp: nvm_check_def nvm_valid_def)
  show "nvm_ok s' \<and> nv_sig s' = nv_sig s" if "nvm_check derive path m s = Some (s', b)"
    using that s verify_ok verify_sig_part by (auto simp: nvm_check_def sig_part_def)
  show "nvm_ok (wipe_nvm_secrets s) \<and> nv_sig (wipe_nvm_secrets s) = nv_sig s"
    using wipe_ok [OF s] wipe_sig_part [of s] by (simp add: sig_part_def)
qed

lemma sign_message_eq:
  "crypto_sign_message sdk rnd d =
     map_option (\<lambda>(s, b). (d\<lparr>N_storage := s\<rparr>, if b then 0 else - 1))
       (sign_and_check (nvm_sign (os_derive_bip32_no_throw sdk) (current_path d)) (nvm_check (os_derive_bip32_no_throw sdk) (current_path d))
         wipe_nvm_secrets (m_hash (tx_info (G_context d))) rnd (N_storage d))"
  by (auto simp: crypto_sign_message_def sign_and_check_def nvm_sign_def nvm_check_def Let_def split: option.splits)




text \<open>The three outcomes of signing and checking.\<close>

lemma sign_message_success:
  assumes "crypto_sign_optimized (os_derive_bip32_no_throw sdk) (current_path d) (m_hash (tx_info (G_context d))) rnd (N_storage d) = Some (s, Code ERR_NONE)"
    "nvm_ok (N_storage d)"
  shows "\<exists>s'. crypto_sign_message sdk rnd d = Some (d\<lparr>N_storage := s'\<rparr>, 0) \<and> nvm_ok s' \<and> nv_sig s' = nv_sig s
    \<and> nvm_valid (os_derive_bip32_no_throw sdk) (current_path d) (m_hash (tx_info (G_context d))) (nv_sig s)"
proof -
  let ?f = "os_derive_bip32_no_throw sdk" and ?p = "current_path d" and ?m = "m_hash (tx_info (G_context d))"
  have "nvm_sign ?f ?p ?m rnd (N_storage d) = Some (s, True)" using assms(1) by (simp add: nvm_sign_def)
  from nvm_service.result_signature [OF assms(2) this] nvm_service.sign_valid [OF assms(2) this] show ?thesis
    by (auto simp: sign_message_eq)
qed

lemma sign_message_failure:
  "crypto_sign_optimized (os_derive_bip32_no_throw sdk) (current_path d) (m_hash (tx_info (G_context d))) rnd (N_storage d) = Some (s, st) \<Longrightarrow>
    st \<noteq> Code ERR_NONE \<Longrightarrow> crypto_sign_message sdk rnd d = Some (d\<lparr>N_storage := wipe_nvm_secrets s\<rparr>, - 1)"
  "crypto_sign_optimized (os_derive_bip32_no_throw sdk) (current_path d) (m_hash (tx_info (G_context d))) rnd (N_storage d) = None \<Longrightarrow>
    crypto_sign_message sdk rnd d = None"
  by (simp_all add: crypto_sign_message_def)




text \<open>A device that cannot derive keys.\<close>

definition locked_sdk :: sdk where
  "locked_sdk = sample_sdk\<lparr>os_derive_bip32_no_throw := \<lambda>path. Inl 1\<rparr>"

lemma locked_choice:
  "review_choice locked_sdk True rnd d =
     Some (d\<lparr>G_context := (G_context d)\<lparr>state := STATE_NONE\<rparr>, N_storage := wipe_nvm_secrets (N_storage d),
       sent := sent d @ [Response [] SW_SIGNATURE_FAIL], screen := Status TRANSACTION_SIGNED\<rparr>)"
  by (simp add: review_choice_def validate_transaction_def crypto_sign_message_def crypto_sign_optimized_def locked_sdk_def
      set_ctx_def send_defs Let_def)


subsection \<open>The chunks\<close>

lemma concat_parts:
  assumes "\<And>i. i < m + 1 \<Longrightarrow> part i = map (\<lambda>k. xs ! (k + i * n)) [0..<if i < m then n else l]" and "length xs = m * n + l"
  shows "concat (map part [0..<m + 1]) = xs"
proof -
  have "part i = chunk (i * n) n xs" if "i < m" for i
  proof -
    have "(i + 1) * n \<le> m * n" using that by (intro mult_le_mono1) simp
    then have "i * n + n \<le> length xs" using assms(2) by simp
    from chunk_map_nth [OF this] show ?thesis using assms(1) [of i] that by (simp add: add.commute)
  qed
  then have "concat (map part [0..<m]) = concat (map (\<lambda>i. chunk (i * n) n xs) [0..<m])" by (intro arg_cong [of _ _ concat] map_cong) auto
  also have "\<dots> = take (m * n) xs" by (rule concat_chunks)
  moreover have "part m = chunk (m * n) l xs" using assms chunk_map_nth [of "m * n" l xs] by (simp add: add.commute)
  moreover have "chunk (m * n) l xs = drop (m * n) xs" using assms(2) by (simp add: chunk_def)
  ultimately show ?thesis by simp
qed

text \<open>
  C18.  The chunks the host fetches are the signature and the public key: the 18 responses of
  \<open>helper_send_response_sig\<close> concatenate to the 4627 bytes of the signature, the 11 responses of \<open>helper_send_response_pk_chunk\<close> to the 2592
  bytes of the public key, and no chunk reads past the end of its array.
\<close>

theorem chunks_are_complete:
  assumes "nvm_ok (N_storage d)"
  shows "concat (map (\<lambda>i. body (last (sent (fst (helper_send_response_sig sdk (of_nat i) d))))) [0..<18]) = nv_sig (N_storage d)
    \<and> concat (map (\<lambda>i. body (last (sent (fst (helper_send_response_pk_chunk sdk (of_nat i) d))))) [0..<11]) = nv_pk (N_storage d)"
proof -
  let ?s = "N_storage d"
  have len: "length (nv_sig ?s) = 17 * 258 + 241" "length (nv_pk ?s) = 10 * 258 + 12" using assms by (simp_all add: nvm_ok_def)
  have "concat (map (\<lambda>i. body (last (sent (fst (helper_send_response_sig sdk (of_nat i) d))))) [0..<17 + 1]) = nv_sig ?s"
  proof (rule concat_parts [OF _ len(1)])
    fix i :: nat assume "i < 17 + 1"
    then have "unat (of_nat i :: byte) = i" by (simp add: unat_of_nat)
    then show "body (last (sent (fst (helper_send_response_sig sdk (of_nat i) d)))) =
        map (\<lambda>k. nv_sig ?s ! (k + i * 258)) [0..<if i < 17 then 258 else 241]"
      by (simp add: helper_send_response_sig_def send_defs set_nvm_def Let_def word_less_nat_alt)
  qed
  moreover have "concat (map (\<lambda>i. body (last (sent (fst (helper_send_response_pk_chunk sdk (of_nat i) d))))) [0..<10 + 1]) = nv_pk ?s"
  proof (rule concat_parts [OF _ len(2)])
    fix i :: nat assume i: "i < 10 + 1"
    then have "unat (of_nat i :: byte) = i" by (simp add: unat_of_nat)
    with i show "body (last (sent (fst (helper_send_response_pk_chunk sdk (of_nat i) d)))) =
        map (\<lambda>k. nv_pk ?s ! (k + i * 258)) [0..<if i < 10 then 258 else 12]"
      by (simp add: helper_send_response_pk_chunk_def send_defs Let_def)
  qed
  ultimately show ?thesis by simp
qed

theorem chunks_are_complete_witness:
  "concat (map (\<lambda>i. body (last (sent (fst (helper_send_response_pk_chunk sample_sdk (of_nat i) (app_start sample_sdk nvm_fresh)))))) [0..<11])
     = replicate 2592 0"
proof -
  have "device_ok sample_sdk (app_start sample_sdk nvm_fresh)" by (rule app_start_ok [OF nvm_fresh_ok])
  then have ok: "nvm_ok (N_storage (app_start sample_sdk nvm_fresh))" by (simp add: device_ok_def)
  have pk: "nv_pk (N_storage (app_start sample_sdk nvm_fresh)) = replicate 2592 0"
    by (simp add: app_start_def ui_menu_main_def wipe_eq [OF nvm_fresh_ok] Let_def) (simp add: nvm_fresh_def)
  from chunks_are_complete [OF ok, of sample_sdk] show ?thesis unfolding pk by (rule conjunct2)
qed

subsection \<open>The upload of a transaction\<close>

text \<open>The host sends the chunks of a transaction but the last, with \<open>p1 = 1\<close>.\<close>

definition chunk_command :: "byte list \<Rightarrow> command" where
  "chunk_command bs = \<lparr>cmd_cla = CLA, cmd_ins = SIGN_TX, cmd_p1 = 1, cmd_p2 = 0, cmd_lc = of_nat (length bs), cmd_data = Some bs\<rparr>"

fun upload :: "sdk \<Rightarrow> byte list list \<Rightarrow> device \<Rightarrow> device option" where
  "upload sdk [] d = Some d"
| "upload sdk (bs # rest) d =
     (case apdu_dispatcher sdk (chunk_command bs) d of None \<Rightarrow> None | Some (d', ret) \<Rightarrow> upload sdk rest d')"

lemma chunk_dispatch:
  assumes "length bs < 256"
  shows "apdu_dispatcher sdk (chunk_command bs) d =
    handler_sign_tx sdk \<lparr>buf_ptr = Some bs, buf_size = length bs, buf_offset = 0\<rparr> 1 0 d"
  using assms by (simp add: apdu_dispatcher_def chunk_command_def GET_VERSION_def GET_APP_NAME_def GET_PUBLIC_KEY_def SIGN_TX_def unat_of_nat)

lemma receive_whole_chunk:
  assumes "sdk_ok sdk" "gctx_ok sdk (G_context d)" "req_type (G_context d) = CONFIRM_TRANSACTION" "length (received_tx d) + length bs \<le> 510"
  obtains d' where "receive_chunk sdk \<lparr>buf_ptr = Some bs, buf_size = length bs, buf_offset = 0\<rparr> d = (d', None)"
    "received_tx d' = received_tx d @ bs" "sent d' = sent d" "req_type (G_context d') = CONFIRM_TRANSACTION" "current_path d' = current_path d"
proof -
  let ?t = "tx_info (G_context d)"
  have mv: "buffer_move sdk \<lparr>buf_ptr = Some bs, buf_size = length bs, buf_offset = 0\<rparr> (length bs)
      = (True, bs, \<lparr>buf_ptr = Some bs, buf_size = length bs, buf_offset = length bs\<rparr>)"
    using assms(1) by (simp add: sdk_ok_def)
  have len: "length (raw_tx ?t) = 510" "raw_tx_len ?t + length bs \<le> 510"
    using assms(2,4) by (simp_all add: gctx_ok_def received_tx_def)
  let ?d = "set_ctx (\<lambda>c. c\<lparr>tx_info := ?t\<lparr>raw_tx := write_at (raw_tx_len ?t) bs (raw_tx ?t), raw_tx_len := raw_tx_len ?t + length bs\<rparr>\<rparr>) d"
  have "take (raw_tx_len ?t + length bs) (write_at (raw_tx_len ?t) bs (raw_tx ?t)) = take (raw_tx_len ?t) (raw_tx ?t) @ bs"
    using len by (simp add: write_at_def)
  then have "received_tx ?d = received_tx d @ bs" by (simp add: received_tx_def set_ctx_def)
  moreover have "receive_chunk sdk \<lparr>buf_ptr = Some bs, buf_size = length bs, buf_offset = 0\<rparr> d = (?d, None)"
    using assms(3) len mv by (simp add: receive_chunk_def Let_def)
  ultimately show thesis using that [of ?d] assms(3) by (simp add: set_ctx_def current_path_def)
qed

lemma upload_chunk:
  assumes "sdk_ok sdk" "device_ok sdk d" "req_type (G_context d) = CONFIRM_TRANSACTION" "length (received_tx d) + length bs \<le> 510" "length bs < 256"
  obtains d' ret where "apdu_dispatcher sdk (chunk_command bs) d = Some (d', ret)" "device_ok sdk d'" "received_tx d' = received_tx d @ bs"
    "sent d' = sent d @ [Response [] SW_OK]" "req_type (G_context d') = CONFIRM_TRANSACTION" "current_path d' = current_path d"
    "N_storage d' = N_storage d" "screen d' = screen d"
proof -
  have "gctx_ok sdk (G_context d)" using assms(2) by (simp add: device_ok_def)
  from receive_whole_chunk [OF assms(1) this assms(3,4)] obtain d1 where
    r: "receive_chunk sdk \<lparr>buf_ptr = Some bs, buf_size = length bs, buf_offset = 0\<rparr> d = (d1, None)"
    and d1: "received_tx d1 = received_tx d @ bs" "sent d1 = sent d" "req_type (G_context d1) = CONFIRM_TRANSACTION" "current_path d1 = current_path d" .
  have "device_ok sdk d1" by (rule receive_chunk_ok [OF r assms(2,1)])
  with r d1 sent_frame(2) [OF r] show thesis
    by (intro that [of "fst (io_send_sw sdk SW_OK d1)" "snd (io_send_sw sdk SW_OK d1)"])
      (simp_all add: chunk_dispatch [OF assms(5)] handler_sign_tx_def send_defs received_tx_def current_path_def)
qed

lemma upload_result:
  assumes "sdk_ok sdk" "device_ok sdk d" "req_type (G_context d) = CONFIRM_TRANSACTION" "list_all (\<lambda>bs. length bs < 256) chunks"
    "length (received_tx d) + length (concat chunks) \<le> 510"
  shows "\<exists>d'. upload sdk chunks d = Some d' \<and> received_tx d' = received_tx d @ concat chunks
    \<and> sent d' = sent d @ replicate (length chunks) (Response [] SW_OK) \<and> current_path d' = current_path d
    \<and> device_ok sdk d' \<and> req_type (G_context d') = CONFIRM_TRANSACTION \<and> N_storage d' = N_storage d \<and> screen d' = screen d"
  using assms(2-5)
proof (induction chunks arbitrary: d)
  case (Cons bs rest)
  from Cons.prems have fit: "length (received_tx d) + length bs \<le> 510" "length bs < 256" by simp_all
  from upload_chunk [OF assms(1) Cons.prems(1,2) fit] obtain d1 ret where d1: "apdu_dispatcher sdk (chunk_command bs) d = Some (d1, ret)"
    "device_ok sdk d1" "received_tx d1 = received_tx d @ bs" "sent d1 = sent d @ [Response [] SW_OK]"
    "req_type (G_context d1) = CONFIRM_TRANSACTION" "current_path d1 = current_path d" "N_storage d1 = N_storage d" "screen d1 = screen d" .
  from Cons.IH [OF d1(2,5)] Cons.prems(3,4) d1 show ?case by auto
qed simp

text \<open>
  C17.  The chunks of a transaction are assembled: if the request is a transaction and the chunks fit in the buffer,
  each is answered with \<open>SW_OK\<close> and the received bytes grow by the concatenation of the chunks, in order; the
  path of the request does not change.
\<close>

theorem upload_assembles:
  assumes "sdk_ok sdk" "device_ok sdk d" "req_type (G_context d) = CONFIRM_TRANSACTION" "list_all (\<lambda>bs. length bs < 256) chunks"
    "length (received_tx d) + length (concat chunks) \<le> 510"
  shows "\<exists>d'. upload sdk chunks d = Some d' \<and> received_tx d' = received_tx d @ concat chunks
    \<and> sent d' = sent d @ replicate (length chunks) (Response [] SW_OK) \<and> current_path d' = current_path d"
  using upload_result [OF assms] by blast

theorem upload_assembles_witness:
  "\<exists>d'. upload sample_sdk [[1, 2, 3], [4, 5]] (set_ctx (\<lambda>c. c\<lparr>req_type := CONFIRM_TRANSACTION\<rparr>) (app_start sample_sdk nvm_fresh)) = Some d'
     \<and> received_tx d' = [1, 2, 3, 4, 5]"
proof -
  let ?d = "set_ctx (\<lambda>c. c\<lparr>req_type := CONFIRM_TRANSACTION\<rparr>) (app_start sample_sdk nvm_fresh)"
  have "device_ok sample_sdk ?d"
    using app_start_ok [OF nvm_fresh_ok, of sample_sdk] by (simp add: set_ctx_def device_ok_def gctx_ok_def)
  moreover have "received_tx ?d = []"
    by (simp add: received_tx_def set_ctx_def app_start_def ui_menu_main_def ctx_cleared_def Let_def)
  ultimately show ?thesis
    using upload_assembles [OF sample_sdk_ok, of ?d "[[1, 2, 3], [4, 5]]"] by (auto simp: set_ctx_def)
qed

subsection \<open>The review\<close>

text \<open>What a review of \<open>pairs\<close> means: the state and the settings it comes from.\<close>

definition shows_transaction :: "device \<Rightarrow> bool \<Rightarrow> (string \<times> string) list \<Rightarrow> bool" where
  "shows_transaction d blind pairs \<longleftrightarrow>
     (\<exists>tx p n. decode_ledger_tx (received_tx d) tx_zero = Go tx p n \<and> m_hash (tx_info (G_context d)) = keccak256 (received_tx d)
        \<and> blind = (has_data tx \<or> has_access_list tx) \<and> \<not> (blind \<and> enable_blind_signing (N_storage d) = 0)
        \<and> review_pairs (address (G_context d)) (m_hash (tx_info (G_context d))) (N_storage d) tx = Inr pairs
        \<and> state (G_context d) = STATE_PARSED)"

lemma keypair_settings: "crypto_sign_keypair seed s = Some s' \<Longrightarrow> enable_blind_signing s' = enable_blind_signing s"
  by (auto simp: crypto_sign_keypair_def Option.bind_eq_Some_conv Let_def split: prod.splits)

lemma address_sig_part:
  assumes "address_from_bip32_path f path s = Some (s', r)"
  shows "sig_part s' = sig_part s" "enable_blind_signing s' = enable_blind_signing s"
  using assms keypair_sig_part keypair_settings
  by (auto simp: address_from_bip32_path_def new_mldsa87_from_seed_def split: sum.splits option.splits)

lemma context_address_frame:
  assumes "context_address sdk d = Some (d', r)"
  shows "sig_part (N_storage d') = sig_part (N_storage d)" "enable_blind_signing (N_storage d') = enable_blind_signing (N_storage d)"
    "tx_info (G_context d') = tx_info (G_context d)" "state (G_context d') = state (G_context d)"
    "screen d' = screen d \<or> screen d' = Spinner ''Getting address''" "r = Inr a \<Longrightarrow> address (G_context d') = a"
  using assms address_sig_part
  by (auto simp: context_address_def set_ctx_def split: option.splits sum.splits)

lemma display_transaction_cases:
  assumes "ui_display_transaction_bs_choice sdk b tx d = Some (d', ret)" "screen d' = Review_transaction blind pairs" "screen d' \<noteq> screen d"
  obtains d1 where "context_address sdk (d\<lparr>screen := Spinner ''Getting address''\<rparr>) = Some (d1, Inr (address (G_context d1)))"
    "review_pairs (address (G_context d1)) (m_hash (tx_info (G_context d1))) (N_storage d1) tx = Inr pairs"
    "d' = d1\<lparr>screen := Review_transaction b pairs\<rparr>" "blind = b" "state (G_context d) = STATE_PARSED"
proof (cases "req_type (G_context d) \<noteq> CONFIRM_TRANSACTION \<or> state (G_context d) \<noteq> STATE_PARSED")
  case True
  with assms(1,3) show thesis by (auto simp: ui_display_transaction_bs_choice_def send_defs set_ctx_def)
next
  case False
  from assms(1) False obtain d1 r where c: "context_address sdk (d\<lparr>screen := Spinner ''Getting address''\<rparr>) = Some (d1, r)"
    by (auto simp: ui_display_transaction_bs_choice_def Let_def split: option.splits)
  have sp: "screen d1 = Spinner ''Getting address''" using context_address_frame(5) [OF c] by auto
  show thesis
  proof (cases r)
    case (Inl err)
    with assms(1) False c have "screen d' = screen d1" by (auto simp: ui_display_transaction_bs_choice_def send_defs Let_def)
    with sp assms(2) show thesis by simp
  next
    case (Inr a)
    note addr = context_address_frame(6) [OF c Inr]
    show thesis
    proof (cases "review_pairs a (m_hash (tx_info (G_context d1))) (N_storage d1) tx")
      case (Inl w)
      with assms(1) False c Inr have "screen d' = screen d1" by (auto simp: ui_display_transaction_bs_choice_def send_defs Let_def)
      with sp assms(2) show thesis by simp
    next
      case (Inr ps)
      with assms(1) False c \<open>r = Inr a\<close> have d': "d' = d1\<lparr>screen := Review_transaction b ps\<rparr>"
        by (simp add: ui_display_transaction_bs_choice_def Let_def)
      with assms(2) have "ps = pairs" "b = blind" by simp_all
      show thesis
      proof (rule that [of d1])
        show "context_address sdk (d\<lparr>screen := Spinner ''Getting address''\<rparr>) = Some (d1, Inr (address (G_context d1)))"
          using c addr \<open>r = Inr a\<close> by simp
        show "review_pairs (address (G_context d1)) (m_hash (tx_info (G_context d1))) (N_storage d1) tx = Inr pairs"
          using Inr addr \<open>ps = pairs\<close> by simp
      qed (use d' \<open>ps = pairs\<close> \<open>b = blind\<close> False in simp_all)
    qed
  qed
qed

lemma display_transaction_shows:
  assumes "ui_display_transaction_bs_choice sdk (has_data tx \<or> has_access_list tx) tx d = Some (d', ret)"
    "decode_ledger_tx (received_tx d) tx_zero = Go tx p n" "m_hash (tx_info (G_context d)) = keccak256 (received_tx d)"
    "has_data tx \<or> has_access_list tx \<Longrightarrow> enable_blind_signing (N_storage d) \<noteq> 0"
    "screen d' = Review_transaction blind pairs"
  shows "screen d = screen d' \<or> shows_transaction d' blind pairs"
proof (cases "screen d' = screen d")
  case False
  from display_transaction_cases [OF assms(1,5) False] obtain d1 where
    c: "context_address sdk (d\<lparr>screen := Spinner ''Getting address''\<rparr>) = Some (d1, Inr (address (G_context d1)))"
    and pairs: "review_pairs (address (G_context d1)) (m_hash (tx_info (G_context d1))) (N_storage d1) tx = Inr pairs"
    and d': "d' = d1\<lparr>screen := Review_transaction (has_data tx \<or> has_access_list tx) pairs\<rparr>"
    and b: "blind = (has_data tx \<or> has_access_list tx)" "state (G_context d) = STATE_PARSED" .
  note fr = context_address_frame(2,3,4) [OF c, simplified]
  have "received_tx d' = received_tx d" using fr d' by (simp add: received_tx_def)
  moreover have "\<not> (blind \<and> enable_blind_signing (N_storage d') = 0)" using assms(4) fr d' b by auto
  ultimately show ?thesis unfolding shows_transaction_def
    using assms(2,3) fr d' pairs b by (intro disjI2 exI [of _ tx] exI [of _ p] exI [of _ n] conjI) simp_all
qed simp

text \<open>What sending a response leaves alone.\<close>

lemma send_frame:
  "io_send_response_pointer sdk bs w d = (d', ret) \<Longrightarrow> N_storage d' = N_storage d \<and> screen d' = screen d"
  "io_send_sw sdk w d = (d', ret) \<Longrightarrow> N_storage d' = N_storage d \<and> screen d' = screen d"
  "helper_send_response_pk_chunk sdk i d = (d', ret) \<Longrightarrow> N_storage d' = N_storage d \<and> screen d' = screen d"
  "helper_send_response_address sdk d = (d', ret) \<Longrightarrow> N_storage d' = N_storage d \<and> screen d' = screen d"
  "helper_send_response_sig sdk i d = (d', ret) \<Longrightarrow> screen d' = screen d"
  by (auto simp: send_defs helper_send_response_pk_chunk_def helper_send_response_address_def helper_send_response_sig_def
      set_nvm_def Let_def split: if_splits)

lemma hash_tx_frame:
  "received_tx (hash_tx d) = received_tx d" "m_hash (tx_info (G_context (hash_tx d))) = keccak256 (received_tx d)"
  by (simp_all add: hash_tx_def received_tx_def set_ctx_def Let_def)

lemma sign_tx_shows:
  assumes "handler_sign_tx sdk buf c1 c2 d = Some (d', ret)" "screen d' = Review_transaction blind pairs"
  shows "screen d = screen d' \<or> shows_transaction d' blind pairs"
  using assms(1)
proof (cases rule: sign_tx_cases)
  case (review d1 tx p n)
  have "screen (hash_tx d1) = screen d' \<or> shows_transaction d' blind pairs"
    using review by (intro display_transaction_shows [OF review(4) _ _ _ assms(2), of p n]) (simp_all add: hash_tx_frame sent_frame(4))
  then show ?thesis using sent_frame(2) [OF review(1)] by (simp add: sent_frame(5))
qed (use send_frame sent_frame in \<open>metis\<close>)+

lemma display_address_screen: "ui_display_address sdk d = (d', ret) \<Longrightarrow> screen d' = screen d \<or> (\<exists>t. screen d' = Review_address t)"
  by (auto simp: ui_display_address_def send_defs set_ctx_def split: if_splits option.splits)

lemma public_key_screen:
  assumes "handler_get_public_key sdk buf display d = Some (d', ret)"
  shows "screen d' = screen d \<or> (\<exists>t. screen d' = Review_address t) \<or> screen d' = Spinner ''Getting address''"
  using assms
proof (cases rule: public_key_cases)
  case (refused d1)
  then show ?thesis using send_frame(2) sent_frame(1) by metis
next
  case (failed d1 d2 err)
  then show ?thesis using send_frame(2) [OF failed(3) [symmetric]] sent_frame(1) [OF failed(1)] context_address_frame(5) [OF failed(2)] by auto
next
  case (shown d1 d2 a)
  then show ?thesis
    using display_address_screen [OF shown(4) [symmetric]] sent_frame(1) [OF shown(1)] context_address_frame(5) [OF shown(2)] by auto
next
  case (returned d1 d2 a)
  then show ?thesis using send_frame(4) [OF returned(4) [symmetric]] sent_frame(1) [OF returned(1)] context_address_frame(5) [OF returned(2)] by auto
qed

lemma dispatcher_shows:
  assumes "apdu_dispatcher sdk cmd d = Some (d', ret)" "screen d' = Review_transaction blind pairs"
  shows "screen d = screen d' \<or> shows_transaction d' blind pairs"
  using assms(1)
proof (cases rule: dispatch_cases)
  case (public_key buf display)
  then show ?thesis using public_key_screen assms(2) by fastforce
next
  case (sign_tx buf)
  then show ?thesis using sign_tx_shows assms(2) by blast
qed (use send_frame in metis)+

text \<open>
  C11.  A review shows what will be signed: whenever a pass of the main loop puts a transaction review on the screen, the
  received bytes decode to a transaction, the stored hash is the Keccak-256 hash of exactly these bytes, the
  texts are the formatted fields of that transaction under the current settings, and a
  transaction with call data or an access list is shown with the blind-signing warning, and only if the user has
  enabled blind signing.
\<close>

theorem review_shows_what_is_signed:
  "case app_step sdk input d of
     Some (d', b) \<Rightarrow>
       (case screen d' of
          Review_transaction blind pairs \<Rightarrow>
            screen d = screen d'
            \<or> (\<exists>tx p n. decode_ledger_tx (received_tx d') tx_zero = Go tx p n \<and> m_hash (tx_info (G_context d')) = keccak256 (received_tx d')
                 \<and> blind = (has_data tx \<or> has_access_list tx) \<and> \<not> (blind \<and> enable_blind_signing (N_storage d') = 0)
                 \<and> review_pairs (address (G_context d')) (m_hash (tx_info (G_context d'))) (N_storage d') tx = Inr pairs
                 \<and> state (G_context d') = STATE_PARSED)
        | _ \<Rightarrow> True)
   | None \<Rightarrow> True"
proof -
  have "screen d = screen d' \<or> shows_transaction d' blind pairs"
    if "app_step sdk input d = Some (d', b)" "screen d' = Review_transaction blind pairs" for d' b blind pairs
    using that dispatcher_shows [of sdk _ d d', OF _ that(2)] by (fastforce simp: app_step_def send_defs split: option.splits)
  then show ?thesis unfolding shows_transaction_def by (auto split: option.splits screen.splits)
qed

subsection \<open>No signature without approval\<close>

text \<open>The user approves by confirming while a transaction review is on the screen.\<close>

definition approves :: "device \<Rightarrow> event \<Rightarrow> bool" where
  "approves d evt =
     (case evt of Choice confirm rnd \<Rightarrow> confirm \<and> (case screen d of Review_transaction blind pairs \<Rightarrow> True | _ \<Rightarrow> False) | _ \<Rightarrow> False)"

inductive unapproved :: "sdk \<Rightarrow> device \<Rightarrow> device \<Rightarrow> bool" for sdk d where
  unapproved_refl: "unapproved sdk d d"
| unapproved_step: "unapproved sdk d d1 \<Longrightarrow> step sdk d1 evt d2 \<Longrightarrow> \<not> approves d1 evt \<Longrightarrow> unapproved sdk d d2"

text \<open>The signature stays, and the flag that lets the host fetch it stays or is cleared.\<close>

definition sig_kept :: "device \<Rightarrow> device \<Rightarrow> bool" where
  "sig_kept d d' \<longleftrightarrow> nv_sig (N_storage d') = nv_sig (N_storage d)
     \<and> is_sending_signature (N_storage d') \<in> {is_sending_signature (N_storage d), 0}"

lemma sig_part_kept: "sig_part (N_storage d') = sig_part (N_storage d) \<Longrightarrow> sig_kept d d'"
  by (simp add: sig_kept_def sig_part_def)

lemma sig_kept_trans: "sig_kept d d1 \<Longrightarrow> sig_kept d1 d2 \<Longrightarrow> sig_kept d d2"
  by (auto simp: sig_kept_def)

lemma chunk_kept: "helper_send_response_sig sdk i d = (d', ret) \<Longrightarrow> 0 < i \<Longrightarrow> sig_kept d d'"
  by (auto simp: helper_send_response_sig_def send_defs set_nvm_def sig_kept_def Let_def split: if_splits)

lemma display_transaction_kept:
  assumes "ui_display_transaction_bs_choice sdk b tx d = Some (d', ret)"
  shows "sig_part (N_storage d') = sig_part (N_storage d)"
proof (cases "req_type (G_context d) \<noteq> CONFIRM_TRANSACTION \<or> state (G_context d) \<noteq> STATE_PARSED")
  case True
  with assms(1) show ?thesis by (auto simp: ui_display_transaction_bs_choice_def send_defs set_ctx_def)
next
  case False
  from assms(1) False obtain d1 r where c: "context_address sdk (d\<lparr>screen := Spinner ''Getting address''\<rparr>) = Some (d1, r)"
    by (auto simp: ui_display_transaction_bs_choice_def Let_def split: option.splits)
  have "N_storage d' = N_storage d1"
    using assms False c by (auto simp: ui_display_transaction_bs_choice_def send_defs Let_def split: sum.splits)
  then show ?thesis using context_address_frame(1) [OF c] by simp
qed

lemma sign_tx_kept:
  assumes "handler_sign_tx sdk buf c1 c2 d = Some (d', ret)"
  shows "sig_kept d d'"
  using assms
proof (cases rule: sign_tx_cases)
  case (review d1 tx p n)
  then show ?thesis
    using display_transaction_kept [OF review(4)] sent_frame(2) [OF review(1)] by (intro sig_part_kept) (simp add: sent_frame(4))
next
  case chunk
  then show ?thesis using chunk_kept [of sdk c2 d d' ret] by simp
qed (intro sig_part_kept, metis send_frame(2) sent_frame(1,2,4))+

lemma public_key_kept:
  assumes "handler_get_public_key sdk buf display d = Some (d', ret)"
  shows "sig_part (N_storage d') = sig_part (N_storage d)"
  using assms
proof (cases rule: public_key_cases)
  case (refused d1)
  then show ?thesis using send_frame(2) [OF refused(2) [symmetric]] sent_frame(1) [OF refused(1)] by simp
next
  case (failed d1 d2 err)
  then show ?thesis using send_frame(2) [OF failed(3) [symmetric]] sent_frame(1) [OF failed(1)] context_address_frame(1) [OF failed(2)] by simp
next
  case (shown d1 d2 a)
  have "N_storage d' = N_storage d2"
    using shown(4) [symmetric] by (auto simp: ui_display_address_def send_defs set_ctx_def split: if_splits option.splits)
  then show ?thesis using sent_frame(1) [OF shown(1)] context_address_frame(1) [OF shown(2)] by simp
next
  case (returned d1 d2 a)
  then show ?thesis using send_frame(4) [OF returned(4) [symmetric]] sent_frame(1) [OF returned(1)] context_address_frame(1) [OF returned(2)] by simp
qed

lemma app_step_kept:
  assumes "app_step sdk input d = Some (d', b)"
  shows "sig_kept d d'"
proof (cases "apdu_parser sdk input")
  case None
  with assms show ?thesis by (auto simp: app_step_def send_defs intro: sig_part_kept)
next
  case (Some cmd)
  with assms obtain ret where "apdu_dispatcher sdk cmd d = Some (d', ret)" by (auto simp: app_step_def split: option.splits)
  then show ?thesis
  proof (cases rule: dispatch_cases)
    case (answer bs w)
    then show ?thesis using send_frame(1) by (intro sig_part_kept) metis
  next
    case (pk_chunk i)
    then show ?thesis using send_frame(3) by (intro sig_part_kept) metis
  qed (use public_key_kept sig_part_kept sign_tx_kept in blast)+
qed

lemma step_kept:
  assumes "step sdk d evt d'" "\<not> approves d evt"
  shows "sig_kept d d'"
  using assms(1)
proof (cases rule: step.cases)
  case (receive input)
  then show ?thesis using app_step_kept by blast
next
  case (choice_transaction blind pairs confirm rnd)
  then have "\<not> confirm" using assms(2) by (simp add: approves_def)
  with choice_transaction show ?thesis
    by (intro sig_part_kept) (auto simp: review_choice_def validate_transaction_def send_defs set_ctx_def)
next
  case (choice_address shown confirm rnd)
  then show ?thesis
    by (intro sig_part_kept)
      (simp add: address_review_choice_def validate_pubkey_def helper_send_response_address_def send_defs Let_def)
next
  case (toggle token)
  then show ?thesis by (intro sig_part_kept) (simp add: controls_callback_def sig_part_def Let_def split: setting.splits)
next
  case (dismiss page)
  then show ?thesis by (intro sig_part_kept) (simp add: ui_menu_main_def)
next
  case restart
  then show ?thesis by (intro sig_part_kept) (simp add: app_start_def ui_menu_main_def wipe_sig_part Let_def)
qed

text \<open>
  C15.  No signature without approval: as long as the user does not confirm on a transaction review, whatever the host
  sends and however often the device restarts, the stored signature does not change and the host does not get
  the right to fetch it if it did not have it; without that right, every request for a chunk of the signature is
  refused with \<open>SW_BAD_STATE\<close>.
\<close>

theorem signature_needs_approval:
  assumes "unapproved sdk d d'"
  shows "nv_sig (N_storage d') = nv_sig (N_storage d)
    \<and> is_sending_signature (N_storage d') \<in> {is_sending_signature (N_storage d), 0}
    \<and> (if is_sending_signature (N_storage d) = 0 \<and> 0 < i \<and> i < 18
       then handler_sign_tx sdk buf 2 i d' = Some (io_send_sw sdk SW_BAD_STATE d') else True)"
proof -
  have "sig_kept d d'" using assms
  proof induction
    case unapproved_refl
    then show ?case by (simp add: sig_kept_def)
  next
    case (unapproved_step d1 evt d2)
    then show ?case using step_kept sig_kept_trans by blast
  qed
  then show ?thesis by (auto simp: sig_kept_def handler_sign_tx_def)
qed

lemma version_step:
  "step sample_sdk d (Receive [0xE0, 3, 0, 0]) (d\<lparr>sent := sent d @ [Response [2, 2, 2] SW_OK]\<rparr>)"
proof (rule step.receive)
  show "app_step sample_sdk [0xE0, 3, 0, 0] d = Some (d\<lparr>sent := sent d @ [Response [2, 2, 2] SW_OK]\<rparr>, True)"
    by (simp add: app_step_def sample_sdk_def apdu_dispatcher_def CLA_def GET_VERSION_def handler_get_version_def send_defs Let_def)
qed

theorem signature_needs_approval_witness:
  "handler_sign_tx sample_sdk \<lparr>buf_ptr = None, buf_size = 0, buf_offset = 0\<rparr> 2 1
     ((app_start sample_sdk nvm_fresh)\<lparr>sent := [Response [2, 2, 2] SW_OK]\<rparr>)
   = Some (io_send_sw sample_sdk SW_BAD_STATE ((app_start sample_sdk nvm_fresh)\<lparr>sent := [Response [2, 2, 2] SW_OK]\<rparr>))"
proof -
  let ?d = "app_start sample_sdk nvm_fresh"
  have "sent ?d = []" by (simp add: app_start_def ui_menu_main_def Let_def)
  then have "step sample_sdk ?d (Receive [0xE0, 3, 0, 0]) (?d\<lparr>sent := [Response [2, 2, 2] SW_OK]\<rparr>)"
    using version_step [of ?d] by simp
  then have "unapproved sample_sdk ?d (?d\<lparr>sent := [Response [2, 2, 2] SW_OK]\<rparr>)"
    by (rule unapproved_step [OF unapproved_refl]) (simp add: approves_def)
  moreover have "is_sending_signature (N_storage ?d) = 0"
    using wipe_sig_part [of nvm_fresh] by (simp add: app_start_def ui_menu_main_def sig_part_def Let_def) (simp add: nvm_fresh_def)
  ultimately show ?thesis using signature_needs_approval [of sample_sdk ?d _ 1] by simp
qed

subsection \<open>What an approval does not check\<close>

text \<open>
  Two commands the host may send while a review is on the screen: a new request for the first path, and its last
  chunk, which is not a transaction.
\<close>

definition restart_request :: "byte list" where
  "restart_request = [0xE0, 6, 0, 0, 21, 5, 0x80, 0, 0, 44, 0x80, 0, 0, 238, 0x80, 0, 0, 0, 0, 0, 0, 0, 0, 0, 0, 0]"

definition junk_chunk :: "byte list" where
  "junk_chunk = [0xE0, 6, 2, 0, 1, 0]"

definition first_path :: "u32 list" where
  "first_path = [0x8000002C, 0x800000EE, 0x80000000, 0, 0] @ replicate 5 0"

definition restarted_ctx :: global_ctx where
  "restarted_ctx = (ctx_cleared sample_sdk)\<lparr>req_type := CONFIRM_TRANSACTION, bip32_path := first_path, bip32_path_len := 5\<rparr>"

lemma restart_parsed:
  "parse_apdu restart_request = Some \<lparr>cmd_cla = 0xE0, cmd_ins = 6, cmd_p1 = 0, cmd_p2 = 0, cmd_lc = 21, cmd_data = Some (drop 5 restart_request)\<rparr>"
  "parse_apdu junk_chunk = Some \<lparr>cmd_cla = 0xE0, cmd_ins = 6, cmd_p1 = 2, cmd_p2 = 0, cmd_lc = 1, cmd_data = Some [0]\<rparr>"
  by code_simp+

lemma restart_read:
  "read_u8 \<lparr>buf_ptr = Some (drop 5 restart_request), buf_size = 21, buf_offset = 0\<rparr>
     = (True, 5, \<lparr>buf_ptr = Some (drop 5 restart_request), buf_size = 21, buf_offset = 1\<rparr>)"
  "read_path \<lparr>buf_ptr = Some (drop 5 restart_request), buf_size = 21, buf_offset = 1\<rparr> (replicate 10 0) 5
     = (True, first_path, \<lparr>buf_ptr = Some (drop 5 restart_request), buf_size = 21, buf_offset = 21\<rparr>)"
  "is_valid_zond_bip32_path first_path 5"
  by (simp_all add: read_u8_def read_path_def restart_request_def first_path_def chunk_def be_nat_def upt_rec is_valid_zond_bip32_path_def)

lemma restart_accepted:
  "app_step sample_sdk restart_request d = Some (d\<lparr>G_context := restarted_ctx, sent := sent d @ [Response [] SW_OK]\<rparr>, True)"
proof -
  have "start_request sample_sdk CONFIRM_TRANSACTION \<lparr>buf_ptr = Some (drop 5 restart_request), buf_size = 21, buf_offset = 0\<rparr> d
      = (d\<lparr>G_context := restarted_ctx\<rparr>, True)"
    using restart_read by (simp add: start_request_def sample_sdk_def ctx_cleared_def restarted_ctx_def set_ctx_def Let_def)
  then show ?thesis using restart_parsed(1)
    by (simp add: app_step_def sample_sdk_def apdu_dispatcher_def handler_sign_tx_def CLA_def GET_VERSION_def GET_APP_NAME_def
        GET_PUBLIC_KEY_def SIGN_TX_def send_defs Let_def)
qed

lemma junk_decoded: "case decode_ledger_tx [0] tx_zero of Fail tx \<Rightarrow> True | _ \<Rightarrow> False"
  by code_simp

lemma junk_hashed:
  assumes "G_context d = restarted_ctx"
  shows "\<exists>d'. app_step sample_sdk junk_chunk d = Some (d', True) \<and> screen d' = screen d \<and> N_storage d' = N_storage d
    \<and> current_path d' = take 5 first_path \<and> m_hash (tx_info (G_context d')) = keccak256 [0]
    \<and> sent d' = sent d @ [Response [] SW_TX_PARSING_FAIL]"
proof -
  let ?buf = "\<lparr>buf_ptr = Some [0], buf_size = 1, buf_offset = 0\<rparr>"
  have "gctx_ok sample_sdk (G_context d)" "req_type (G_context d) = CONFIRM_TRANSACTION" "received_tx d = []"
    "current_path d = take 5 first_path"
    using assms by (simp_all add: gctx_ok_def restarted_ctx_def ctx_cleared_def first_path_def sample_sdk_def received_tx_def current_path_def)
  with receive_whole_chunk [OF sample_sdk_ok, of d "[0]"] obtain d1 where r: "receive_chunk sample_sdk ?buf d = (d1, None)"
    and d1: "received_tx d1 = [0]" "sent d1 = sent d" "current_path d1 = take 5 first_path" by auto
  let ?d = "(hash_tx d1)\<lparr>sent := sent (hash_tx d1) @ [Response [] SW_TX_PARSING_FAIL]\<rparr>"
  have "app_step sample_sdk junk_chunk d = Some (?d, True)"
    using r d1 junk_decoded restart_parsed(2)
    by (auto simp: app_step_def sample_sdk_def apdu_dispatcher_def handler_sign_tx_def hash_tx_frame CLA_def GET_VERSION_def GET_APP_NAME_def
        GET_PUBLIC_KEY_def SIGN_TX_def send_defs Let_def split: dec.splits)
  moreover have "current_path ?d = current_path d1" by (simp add: hash_tx_def current_path_def set_ctx_def Let_def)
  ultimately show ?thesis using d1 sent_frame(2) [OF r] by (simp add: hash_tx_frame sent_frame(3-5))
qed

text \<open>
  If commands reach the handlers while a review is on the screen, an approval is not bound to its review: two commands leave the
  screen as it is and replace the hash, and the path, that an approval signs; the bytes need not even be a transaction.  The
  handlers do not refuse them, and \<open>validate_transaction\<close> checks neither \<open>state\<close> nor \<open>req_type\<close>; whether such commands are
  delivered while another is unanswered is up to the transport of the SDK, which is not part of this repository.
\<close>

theorem approval_not_bound_to_review:
  "\<exists>d1 d2. step sample_sdk d (Receive restart_request) d1 \<and> step sample_sdk d1 (Receive junk_chunk) d2
     \<and> screen d2 = screen d \<and> N_storage d2 = N_storage d \<and> current_path d2 = path_of 0 0 0 \<and> m_hash (tx_info (G_context d2)) = keccak256 [0]"
proof -
  let ?d1 = "d\<lparr>G_context := restarted_ctx, sent := sent d @ [Response [] SW_OK]\<rparr>"
  have "take 5 first_path = path_of 0 0 0" by (simp add: first_path_def path_of_def)
  with junk_hashed [of ?d1] obtain d2 where "app_step sample_sdk junk_chunk ?d1 = Some (d2, True)" "screen d2 = screen d"
    "N_storage d2 = N_storage d" "current_path d2 = path_of 0 0 0" "m_hash (tx_info (G_context d2)) = keccak256 [0]" by auto
  with step.receive [OF restart_accepted] step.receive show ?thesis by blast
qed

text \<open>
  After an approval the device shows \<open>STATUS_TYPE_TRANSACTION_SIGNED\<close> even if there is no signature: where the
  key cannot be derived the host gets \<open>SW_SIGNATURE_FAIL\<close> and the user sees that the transaction is signed.
\<close>

theorem signed_page_on_failure:
  "\<exists>d'. review_choice locked_sdk True rnd d = Some d' \<and> screen d' = Status TRANSACTION_SIGNED
     \<and> sent d' = sent d @ [Response [] SW_SIGNATURE_FAIL] \<and> nv_sig (N_storage d') = nv_sig (N_storage d)"
  using wipe_sig_part [of "N_storage d"] by (simp add: locked_choice sig_part_def)

text \<open>
  The right to fetch chunks is in flash and only chunk 17 takes it back: if it is set, the host gets the stored signature also after
  a restart, in a new request, and without any approval in between.
\<close>

definition chunk_request :: "byte list" where
  "chunk_request = [0xE0, 6, 2, 1]"

lemma chunk_parsed:
  "parse_apdu chunk_request = Some \<lparr>cmd_cla = 0xE0, cmd_ins = 6, cmd_p1 = 2, cmd_p2 = 1, cmd_lc = 0, cmd_data = None\<rparr>"
  by code_simp

theorem earlier_signature_survives:
  assumes "is_sending_signature (N_storage d) \<noteq> 0"
  shows "\<exists>d1 d2 d3. step sample_sdk d Restart d1 \<and> step sample_sdk d1 (Receive restart_request) d2
     \<and> step sample_sdk d2 (Receive chunk_request) d3
     \<and> sent d3 = [Response [] SW_OK, Response (map (\<lambda>k. nv_sig (N_storage d) ! (k + SIGNATURE_CHUNK_SIZE)) [0..<SIGNATURE_CHUNK_SIZE]) SW_OK]"
proof -
  let ?d1 = "app_start sample_sdk (N_storage d)"
  let ?d2 = "?d1\<lparr>G_context := restarted_ctx, sent := sent ?d1 @ [Response [] SW_OK]\<rparr>"
  let ?chunk = "map (\<lambda>k. nv_sig (N_storage d) ! (k + 258)) [0..<258]"
  have start: "sent ?d1 = []" "nv_sig (N_storage ?d1) = nv_sig (N_storage d)" "is_sending_signature (N_storage ?d1) \<noteq> 0"
    using wipe_sig_part [of "N_storage d"] assms by (simp_all add: app_start_def ui_menu_main_def sig_part_def Let_def)
  have "\<exists>d3. app_step sample_sdk chunk_request ?d2 = Some (d3, True) \<and> sent d3 = [Response [] SW_OK, Response ?chunk SW_OK]"
    using start chunk_parsed
    by (simp add: app_step_def sample_sdk_def apdu_dispatcher_def handler_sign_tx_def helper_send_response_sig_def restarted_ctx_def
        CLA_def GET_VERSION_def GET_APP_NAME_def GET_PUBLIC_KEY_def SIGN_TX_def send_defs Let_def)
  then show ?thesis using step.restart step.receive [OF restart_accepted] step.receive by blast
qed

end
