(* ===== verification/Review.thy ===== *)
theory Review
  imports Device Sig_Codec
begin

text \<open>
  What the user reads on a transaction review: every decoded transaction can be displayed, the texts are the
  exact decimal values of its fields, and the texts determine the transaction.
\<close>

subsection \<open>The texts as a function of the numbers\<close>

text \<open>The number in a field of a decoded transaction.\<close>

definition field_num :: "byte list \<Rightarrow> byte \<Rightarrow> nat" where
  "field_num field len = be_nat (take (unat len) field)"

definition address_text :: "byte list \<Rightarrow> string" where
  "address_text a = the (format_checksummed_address a (1 + ADDRESS_SIZE * 2 + 1))"

definition qrl_amount :: "nat \<Rightarrow> string" where
  "qrl_amount n = ''QRL '' @ the (format_with_decimals (dec_str n) 18 TX_FORMAT_MAX_AMOUNT_LEN)"

text \<open>What the review of a transaction is meant to show.\<close>

definition expected_pairs :: "byte list \<Rightarrow> byte list \<Rightarrow> nvm \<Rightarrow> zond_tx \<Rightarrow> (string \<times> string) list" where
  "expected_pairs sender hash s tx =
     [(''From'', address_text sender), (''Amount'', qrl_amount (field_num (tx_value tx) (value_len tx))),
      (''To'', address_text (to_addr tx)), (''Chain ID'', dec_str (field_num (chain_id tx) (chain_id_len tx))),
      (''Gas limit'', dec_str (field_num (gas tx) (gas_len tx))),
      (''Priority fee / gas'', qrl_amount (field_num (gas_tip_cap tx) (gas_tip_cap_len tx))),
      (''Max fees'', qrl_amount (field_num (gas_fee_cap tx) (gas_fee_cap_len tx) * field_num (gas tx) (gas_len tx)))]
     @ (if display_nonce s \<noteq> 0 then [(''Nonce'', dec_str (field_num (nonce tx) (nonce_len tx)))] else [])
     @ (if display_tx_hash s \<noteq> 0 then [(''Transaction hash'', bytes_to_lower_hex (take 32 hash))] else [])"

text \<open>Amounts of up to 40 bytes: the formatter succeeds, the text is read back exactly and is not cut off.\<close>

lemma format_qrl_eq:
  assumes "length amount \<le> 40"
  shows "\<exists>s. format_with_decimals (dec_str (be_nat amount)) 18 TX_FORMAT_MAX_AMOUNT_LEN = Some s
    \<and> format_qrl_amount amount TX_FORMAT_MAX_AMOUNT_LEN = Some s \<and> parse_amount s = be_nat amount"
proof -
  have len: "length (dec_str (be_nat amount)) \<le> 97" by (rule dec_str_length [OF bytes40 [OF assms]]) simp
  then have "format_qrl_amount amount TX_FORMAT_MAX_AMOUNT_LEN = format_with_decimals (dec_str (be_nat amount)) 18 TX_FORMAT_MAX_AMOUNT_LEN"
    using to_decimal_eq [OF assms, of 98] by (simp add: format_qrl_amount_def)
  with format_amount_exact [OF assms, of TX_FORMAT_MAX_AMOUNT_LEN] show ?thesis by auto
qed

lemma strip_length: "length (strip_point (strip_zeros s)) \<le> length s"
  by (simp add: strip_point_def strip_zeros_def) (metis diff_le_self le_trans length_dropWhile_le length_rev)

lemma format_with_decimals_length: "format_with_decimals raw k n = Some s \<Longrightarrow> length s < n"
  using strip_length [of "''0.'' @ replicate (k - length raw) (CHR ''0'') @ raw"]
    strip_length [of "take (length raw - k) raw @ ''.'' @ take k (drop (length raw - k) raw)"]
  by (auto simp: format_with_decimals_def Let_def split: if_splits)

lemma qrl_text_eq:
  assumes "length amount \<le> 40"
  obtains s where "format_qrl_amount amount TX_FORMAT_MAX_AMOUNT_LEN = Some s" "qrl_text s = qrl_amount (be_nat amount)"
proof -
  from format_qrl_eq [OF assms] obtain s where s: "format_with_decimals (dec_str (be_nat amount)) 18 TX_FORMAT_MAX_AMOUNT_LEN = Some s"
    "format_qrl_amount amount TX_FORMAT_MAX_AMOUNT_LEN = Some s" by blast
  have "qrl_text s = ''QRL '' @ s" using format_with_decimals_length [OF s(1)] unfolding qrl_text_def by (intro take_all) simp
  with s show thesis by (intro that) (simp_all add: qrl_amount_def)
qed

lemma qrl_amount_parse: "n < 256 ^ 40 \<Longrightarrow> parse_amount (drop 4 (qrl_amount n)) = n"
  using format_qrl_eq [OF be_bytes_length, of n] by (auto simp: be_nat_be_bytes qrl_amount_def)

lemma qrl_amount_inj:
  assumes "qrl_amount m = qrl_amount n" "m < 256 ^ 40" "n < 256 ^ 40"
  shows "m = n"
  using qrl_amount_parse [OF assms(2)] qrl_amount_parse [OF assms(3)] assms(1) by metis

lemma dec_str_inj: "dec_str m = dec_str n \<Longrightarrow> m = n"
  by (metis dec_str_val)

lemma address_text_inj:
  assumes "address_text a = address_text b" "length a = 64" "length b = 64"
  shows "a = b"
proof -
  have "parse_hex (tl (address_text x)) = x" if "length x = 64" for x
    using parse_checksummed [OF that] by (simp add: address_text_def format_checksummed_address_def Let_def)
  then show ?thesis using assms by metis
qed

lemma field_num_less: "unat len \<le> k \<Longrightarrow> field_num field len < 256 ^ k"
proof -
  assume "unat len \<le> k"
  then have "length (take (unat len) field) \<le> k" by simp
  then have "(256 :: nat) ^ length (take (unat len) field) \<le> 256 ^ k" by (rule power_increasing) simp
  with be_nat_less [of "take (unat len) field"] show ?thesis unfolding field_num_def by linarith
qed

subsection \<open>Every transaction can be displayed\<close>

lemma amount_shown: "unat len \<le> 32 \<Longrightarrow> \<exists>s. format_qrl_amount (take (unat len) f) TX_FORMAT_MAX_AMOUNT_LEN = Some s
    \<and> qrl_text s = qrl_amount (field_num f len)"
  by (rule qrl_text_eq [of "take (unat len) f"]) (auto simp: field_num_def)

lemma number_shown: "unat len \<le> 32 \<Longrightarrow> uint8_array_to_decimal (take (unat len) f) 98 = Some (dec_str (field_num f len))"
proof -
  assume "unat len \<le> 32"
  then have le: "length (take (unat len) f) \<le> 40" by simp
  have "length (dec_str (be_nat (take (unat len) f))) \<le> 97" by (rule dec_str_length [OF bytes40 [OF le]]) simp
  then show ?thesis using to_decimal_eq [OF le, of 98] by (simp add: field_num_def)
qed

lemma small_number_shown: "unat len \<le> 8 \<Longrightarrow> uint8_array_to_decimal (take (unat len) f) 21 = Some (dec_str (field_num f len))"
proof -
  assume le: "unat len \<le> 8"
  have "field_num f len < 256 ^ 8" by (rule field_num_less [OF le])
  also have "256 ^ 8 < (10 :: nat) ^ 20" by simp
  finally have "length (dec_str (field_num f len)) \<le> 20" by (rule dec_str_length) simp
  then show ?thesis using to_decimal_eq [of "take (unat len) f" 21] le by (simp add: field_num_def)
qed

lemma fee_bound: "unat m \<le> 32 \<Longrightarrow> unat n \<le> 8 \<Longrightarrow> field_num a m * field_num b n < 256 ^ 40"
proof -
  assume "unat m \<le> 32" "unat n \<le> 8"
  then have "field_num a m * field_num b n < 256 ^ 32 * 256 ^ 8" by (intro mult_strict_mono field_num_less) simp_all
  then show ?thesis by simp
qed

lemma product_shown:
  assumes "unat m \<le> 32" "unat n \<le> 8"
  obtains p s where "multiply_uint8_arrays (take (unat m) a) (take (unat n) b) 40 = Some p"
    "format_qrl_amount p TX_FORMAT_MAX_AMOUNT_LEN = Some s" "qrl_text s = qrl_amount (field_num a m * field_num b n)"
proof -
  let ?a = "take (unat m) a" and ?b = "take (unat n) b"
  have len: "length ?a + length ?b \<le> 40" using assms by simp
  have lt: "be_nat ?a * be_nat ?b < 256 ^ 40" using fee_bound [OF assms, of a b] by (simp only: field_num_def)
  show thesis
  proof (cases "multiply_uint8_arrays ?a ?b 40")
    case None
    with multiply_product [OF len, of 40] have "256 ^ 40 \<le> be_nat ?a * be_nat ?b" by simp
    with lt show thesis by linarith
  next
    case (Some p)
    with multiply_product [OF len, of 40] have p: "be_nat p = be_nat ?a * be_nat ?b" "length p \<le> 40" by simp_all
    from qrl_text_eq [OF p(2)] obtain s where "format_qrl_amount p TX_FORMAT_MAX_AMOUNT_LEN = Some s" "qrl_text s = qrl_amount (be_nat p)" .
    with Some p(1) that show thesis by (simp add: field_num_def)
  qed
qed

lemma address_shown: "format_checksummed_address a (1 + ADDRESS_SIZE * 2 + 1) = Some (address_text a)"
  by (simp add: address_text_def format_checksummed_address_def Let_def)

lemma review_pairs_expected:
  assumes "tx_wf tx"
  shows "review_pairs sender hash s tx = Inr (expected_pairs sender hash s tx)"
proof -
  from assms have le: "unat (value_len tx) \<le> 32" "unat (gas_fee_cap_len tx) \<le> 32" "unat (gas_len tx) \<le> 8" "unat (chain_id_len tx) \<le> 32"
    "unat (gas_tip_cap_len tx) \<le> 32" "unat (nonce_len tx) \<le> 8"
    by (simp_all add: tx_wf_def)
  from amount_shown [OF le(1)] obtain amount where amount: "format_qrl_amount (take (unat (value_len tx)) (tx_value tx)) 100 = Some amount"
    "qrl_text amount = qrl_amount (field_num (tx_value tx) (value_len tx))" by blast
  from amount_shown [OF le(5)] obtain tip where tip: "format_qrl_amount (take (unat (gas_tip_cap_len tx)) (gas_tip_cap tx)) 100 = Some tip"
    "qrl_text tip = qrl_amount (field_num (gas_tip_cap tx) (gas_tip_cap_len tx))" by blast
  from product_shown [OF le(2,3)] obtain p fee where
    fee: "multiply_uint8_arrays (take (unat (gas_fee_cap_len tx)) (gas_fee_cap tx)) (take (unat (gas_len tx)) (gas tx)) 40 = Some p"
    "format_qrl_amount p 100 = Some fee" "qrl_text fee = qrl_amount (field_num (gas_fee_cap tx) (gas_fee_cap_len tx) * field_num (gas tx) (gas_len tx))" .
  show ?thesis
    using amount tip fee number_shown [OF le(4)] small_number_shown [OF le(3)] small_number_shown [OF le(6)]
    by (simp add: review_pairs_def expected_pairs_def address_shown [simplified])
qed

text \<open>
  C12.  A decoded transaction is always displayed, and exactly: no formatting step fails, no text is cut off by its
  buffer, and the review shows the address text of sender and recipient, the amounts in QRL, the product of
  gas limit and fee cap as maximal fees and the decimal notation of chain id, gas limit and (if enabled)
  nonce.  Reading an amount as a decimal fraction with 18 places gives the number in the field.
\<close>

theorem review_texts_exact:
  assumes "tx_wf tx"
  shows "review_pairs sender hash s tx = Inr (expected_pairs sender hash s tx)
    \<and> parse_amount (drop 4 (qrl_amount (field_num (tx_value tx) (value_len tx)))) = field_num (tx_value tx) (value_len tx)
    \<and> parse_amount (drop 4 (qrl_amount (field_num (gas_tip_cap tx) (gas_tip_cap_len tx)))) = field_num (gas_tip_cap tx) (gas_tip_cap_len tx)
    \<and> parse_amount (drop 4 (qrl_amount (field_num (gas_fee_cap tx) (gas_fee_cap_len tx) * field_num (gas tx) (gas_len tx))))
        = field_num (gas_fee_cap tx) (gas_fee_cap_len tx) * field_num (gas tx) (gas_len tx)"
proof -
  from assms have le: "unat (value_len tx) \<le> 32" "unat (gas_fee_cap_len tx) \<le> 32" "unat (gas_len tx) \<le> 8" "unat (gas_tip_cap_len tx) \<le> 32"
    by (simp_all add: tx_wf_def)
  have "(256 :: nat) ^ 32 < 256 ^ 40" by simp
  with field_num_less [OF le(1)] field_num_less [OF le(4)] have
    "field_num (tx_value tx) (value_len tx) < 256 ^ 40" "field_num (gas_tip_cap tx) (gas_tip_cap_len tx) < 256 ^ 40"
    by (meson less_trans)+
  with fee_bound [OF le(2,3)] show ?thesis using review_pairs_expected [OF assms] by (simp only: qrl_amount_parse simp_thms)
qed

theorem review_texts_exact_witness:
  "\<exists>pairs. review_pairs (replicate 64 1) [] nvm_fresh (store_tx sample_tx tx_zero) = Inr pairs \<and> length pairs = 7"
proof -
  have "tx_wf (store_tx sample_tx tx_zero)" by (simp add: store_tx_def sample_tx_def tx_zero_def tx_wf_def overlay_def)
  from review_texts_exact [OF this, of "replicate 64 1" "[]" nvm_fresh] show ?thesis
    by (simp add: expected_pairs_def nvm_fresh_def)
qed

subsection \<open>The review determines the transaction\<close>

lemma be_nat_inj_length: "length xs = length ys \<Longrightarrow> be_nat xs = be_nat ys \<Longrightarrow> xs = ys"
proof (induction xs ys rule: list_induct2)
  case (Cons x xs y ys)
  have lt: "be_nat xs < 256 ^ length ys" "be_nat ys < 256 ^ length ys" using be_nat_less [of xs] be_nat_less [of ys] Cons.hyps by simp_all
  from Cons.prems have eq: "unat x * 256 ^ length ys + be_nat xs = unat y * 256 ^ length ys + be_nat ys"
    using Cons.hyps by (simp add: be_nat_Cons)
  have "be_nat xs = be_nat ys" using arg_cong [OF eq, of "\<lambda>n. n mod 256 ^ length ys"] lt by simp
  moreover have "unat x = unat y" using eq calculation by simp
  ultimately show ?case using Cons.IH by (simp add: word_unat_eq_iff)
qed simp

text \<open>Numbers without leading zeros are determined by their value.\<close>

lemma num_ok_inj:
  assumes "num_ok k xs" "num_ok k ys" "be_nat xs = be_nat ys"
  shows "xs = ys"
proof -
  have le: "length as \<le> length bs" if "num_ok k as" "be_nat as = be_nat bs" for as bs :: "byte list"
  proof (rule ccontr)
    assume less: "\<not> length as \<le> length bs"
    then have "256 ^ length bs \<le> (256 :: nat) ^ (length as - 1)" by (intro power_increasing) simp_all
    also have "\<dots> \<le> be_nat as" using that(1) less by (intro be_nat_ge) (auto simp: num_ok_def)
    finally show False using be_nat_less [of bs] that(2) by simp
  qed
  show ?thesis using le [OF assms(1,3)] le [OF assms(2) assms(3) [symmetric]] assms(3) by (intro be_nat_inj_length) simp_all
qed

text \<open>The fields of a stored transaction.\<close>

lemma field_num_stored: "length v < 256 \<Longrightarrow> field_num (overlay v old) (of_nat (length v)) = be_nat v"
  by (simp add: field_num_def overlay_def unat_of_nat_byte)

lemma stored_wf: "tx_valid t \<Longrightarrow> tx_wf (store_tx t tx_zero)"
  by (auto simp: store_tx_def tx_zero_def tx_wf_def tx_valid_def num_ok_def overlay_def unat_len_byte)

lemma stored_to: "tx_valid t \<Longrightarrow> t_to t \<noteq> [] \<Longrightarrow> to_addr (store_tx t tx_zero) = t_to t"
  by (simp add: store_tx_def tx_valid_def overlay_def)

lemma stored_nums:
  assumes "tx_valid t"
  defines "tx \<equiv> store_tx t tx_zero"
  shows "field_num (chain_id tx) (chain_id_len tx) = be_nat (t_chain t)" "field_num (nonce tx) (nonce_len tx) = be_nat (t_nonce t)"
    "field_num (gas_tip_cap tx) (gas_tip_cap_len tx) = be_nat (t_tip t)" "field_num (gas_fee_cap tx) (gas_fee_cap_len tx) = be_nat (t_fee t)"
    "field_num (gas tx) (gas_len tx) = be_nat (t_gas t)" "field_num (tx_value tx) (value_len tx) = be_nat (t_value t)"
  using assms(1) by (simp_all add: tx_def store_tx_def field_num_stored tx_valid_def num_ok_def)

lemma be_nat_pos: "num_ok k v \<Longrightarrow> v \<noteq> [] \<Longrightarrow> 0 < be_nat v"
  by (cases v) (simp_all add: num_ok_def be_nat_Cons unat_gt_0)

lemma valid_less: "num_ok k v \<Longrightarrow> k \<le> 40 \<Longrightarrow> be_nat v < 256 ^ 40"
proof -
  assume "num_ok k v" "k \<le> 40"
  then have "(256 :: nat) ^ length v \<le> 256 ^ 40" by (intro power_increasing) (simp_all add: num_ok_def)
  with be_nat_less [of v] show ?thesis by linarith
qed

text \<open>A plain transfer, which the review shows in full: a recipient, a positive gas limit, no call data, no access list.\<close>

definition plain_transfer :: "tx_data \<Rightarrow> bool" where
  "plain_transfer t \<longleftrightarrow> tx_valid t \<and> t_to t \<noteq> [] \<and> t_gas t \<noteq> [] \<and> t_data t = [] \<and> t_access t = []"

lemma plain_determined:
  assumes "plain_transfer t" "plain_transfer t'" "length sender = 64" "length sender' = 64" "display_nonce s \<noteq> 0"
    "review_pairs sender hash s (store_tx t tx_zero) = review_pairs sender' hash' s (store_tx t' tx_zero)"
  shows "sender = sender' \<and> t = t' \<and> encode_tx t = encode_tx t'"
proof -
  have valid: "tx_valid t" "tx_valid t'" using assms(1,2) by (simp_all add: plain_transfer_def)
  note ok = valid [unfolded tx_valid_def]
  have to: "to_addr (store_tx t tx_zero) = t_to t" "to_addr (store_tx t' tx_zero) = t_to t'" "length (t_to t) = 64" "length (t_to t') = 64"
    using assms(1,2) stored_to by (auto simp: plain_transfer_def tx_valid_def)
  from assms(6) have eq: "expected_pairs sender hash s (store_tx t tx_zero) = expected_pairs sender' hash' s (store_tx t' tx_zero)"
    by (simp add: review_pairs_expected stored_wf valid)
  then have texts: "address_text sender = address_text sender'" "qrl_amount (be_nat (t_value t)) = qrl_amount (be_nat (t_value t'))"
    "address_text (t_to t) = address_text (t_to t')" "dec_str (be_nat (t_chain t)) = dec_str (be_nat (t_chain t'))"
    "dec_str (be_nat (t_gas t)) = dec_str (be_nat (t_gas t'))" "qrl_amount (be_nat (t_tip t)) = qrl_amount (be_nat (t_tip t'))"
    "qrl_amount (be_nat (t_fee t) * be_nat (t_gas t)) = qrl_amount (be_nat (t_fee t') * be_nat (t_gas t'))"
    "dec_str (be_nat (t_nonce t)) = dec_str (be_nat (t_nonce t'))"
    using assms(5) by (simp_all add: expected_pairs_def stored_nums valid to)
  have gas: "t_gas t = t_gas t'" using num_ok_inj dec_str_inj [OF texts(5)] ok by blast
  have "t_chain t = t_chain t'" "t_nonce t = t_nonce t'"
    using num_ok_inj dec_str_inj [OF texts(4)] dec_str_inj [OF texts(8)] ok by blast+
  moreover have "be_nat (t_value t) = be_nat (t_value t')" "be_nat (t_tip t) = be_nat (t_tip t')"
    by (rule qrl_amount_inj [OF texts(2)] qrl_amount_inj [OF texts(6)]; use ok valid_less [of 32] in simp)+
  then have "t_value t = t_value t'" "t_tip t = t_tip t'" using num_ok_inj ok by blast+
  moreover have "t_fee t = t_fee t'"
  proof -
    have lt: "be_nat (t_fee u) * be_nat (t_gas u) < 256 ^ 40" if "tx_valid u" for u
      using fee_bound [of "gas_fee_cap_len (store_tx u tx_zero)" "gas_len (store_tx u tx_zero)" "gas_fee_cap (store_tx u tx_zero)" "gas (store_tx u tx_zero)"]
        stored_wf [OF that] stored_nums [OF that] by (simp add: tx_wf_def)
    have "be_nat (t_fee t) * be_nat (t_gas t) = be_nat (t_fee t') * be_nat (t_gas t')" by (rule qrl_amount_inj [OF texts(7) lt lt]) (fact valid)+
    moreover have "0 < be_nat (t_gas t)" using be_nat_pos ok assms(1) by (auto simp: plain_transfer_def)
    ultimately have "be_nat (t_fee t) = be_nat (t_fee t')" using gas by simp
    then show ?thesis using num_ok_inj ok by blast
  qed
  moreover have "t_to t = t_to t'" by (rule address_text_inj [OF texts(3) to(3,4)])
  ultimately have "t = t'" using gas assms(1,2) by (cases t, cases t') (simp add: plain_transfer_def)
  moreover have "sender = sender'" by (rule address_text_inj [OF texts(1) assms(3,4)])
  ultimately show ?thesis by simp
qed

lemma hex_val_hexc: "k < 16 \<Longrightarrow> hex_val (hexc ! k) = k"
  using hexc_vals by (simp add: list_all_iff)

lemma lower_hex_parse: "parse_hex (bytes_to_lower_hex bs) = bs"
proof (induction bs)
  case (Cons b bs)
  then show ?case using nibble_digits [of b] by (simp add: bytes_to_lower_hex_def hex_val_hexc)
qed (simp add: bytes_to_lower_hex_def)

text \<open>
  C5.  What two reviews with the same texts have in common, whatever the accepted bytes are (also with bytes after the transaction or in
  an encoding that is not canonical): the sender, the recipient field, value, chain id, gas limit, priority fee and the product of gas
  limit and fee cap are the same, and so is the fee cap unless the gas limit is 0; the nonce is the same if it is displayed, and
  so is the hash that is signed if the hash is displayed.  If the nonce is displayed and both buffers are canonical encodings of
  plain transfers, the signed bytes are the same.
\<close>

theorem review_determines_transaction:
  assumes "decode_ledger_tx bs tx_zero = Go tx p n" "decode_ledger_tx bs' tx_zero = Go tx' p' n'" "length bs \<le> 510" "length bs' \<le> 510"
    "length sender = 64" "length sender' = 64" "review_pairs sender hash s tx = review_pairs sender' hash' s tx'"
  shows "sender = sender' \<and> to_addr tx = to_addr tx'
    \<and> field_num (tx_value tx) (value_len tx) = field_num (tx_value tx') (value_len tx')
    \<and> field_num (chain_id tx) (chain_id_len tx) = field_num (chain_id tx') (chain_id_len tx')
    \<and> field_num (gas tx) (gas_len tx) = field_num (gas tx') (gas_len tx')
    \<and> field_num (gas_tip_cap tx) (gas_tip_cap_len tx) = field_num (gas_tip_cap tx') (gas_tip_cap_len tx')
    \<and> field_num (gas_fee_cap tx) (gas_fee_cap_len tx) * field_num (gas tx) (gas_len tx)
        = field_num (gas_fee_cap tx') (gas_fee_cap_len tx') * field_num (gas tx') (gas_len tx')
    \<and> (if field_num (gas tx) (gas_len tx) \<noteq> 0
       then field_num (gas_fee_cap tx) (gas_fee_cap_len tx) = field_num (gas_fee_cap tx') (gas_fee_cap_len tx') else True)
    \<and> (if display_nonce s \<noteq> 0 then field_num (nonce tx) (nonce_len tx) = field_num (nonce tx') (nonce_len tx') else True)
    \<and> (if display_tx_hash s \<noteq> 0 then take 32 hash = take 32 hash' else True)
    \<and> (if display_nonce s \<noteq> 0 \<and> (\<exists>t. plain_transfer t \<and> bs = encode_tx t) \<and> (\<exists>t. plain_transfer t \<and> bs' = encode_tx t)
       then bs = bs' else True)"
proof -
  have wf: "tx_wf tx" "tx_wf tx'"
    using decode_wf [OF tx_zero_wf, of bs] decode_wf [OF tx_zero_wf, of bs'] assms(1,2) by (simp_all add: dec_wf_def)
  note le = wf [unfolded tx_wf_def]
  from assms(7) have eq: "expected_pairs sender hash s tx = expected_pairs sender' hash' s tx'" by (simp add: review_pairs_expected wf)
  have amount: "field_num f l = field_num f' l'" if "qrl_amount (field_num f l) = qrl_amount (field_num f' l')" "unat l \<le> 32" "unat l' \<le> 32" for f f' l l'
  proof -
    have c: "(256 :: nat) ^ 32 < 256 ^ 40" by simp
    show ?thesis by (rule qrl_amount_inj [OF that(1) less_trans [OF field_num_less [OF that(2)] c] less_trans [OF field_num_less [OF that(3)] c]])
  qed
  have fees: "field_num (gas_fee_cap tx) (gas_fee_cap_len tx) * field_num (gas tx) (gas_len tx)
      = field_num (gas_fee_cap tx') (gas_fee_cap_len tx') * field_num (gas tx') (gas_len tx')"
    using eq le by (intro qrl_amount_inj fee_bound) (simp_all add: expected_pairs_def)
  have gas: "field_num (gas tx) (gas_len tx) = field_num (gas tx') (gas_len tx')"
    and chain: "field_num (chain_id tx) (chain_id_len tx) = field_num (chain_id tx') (chain_id_len tx')"
    and nonce: "display_nonce s \<noteq> 0 \<Longrightarrow> field_num (nonce tx) (nonce_len tx) = field_num (nonce tx') (nonce_len tx')"
    using eq by (auto simp: expected_pairs_def intro!: dec_str_inj)
  have value_tip: "field_num (tx_value tx) (value_len tx) = field_num (tx_value tx') (value_len tx')"
      "field_num (gas_tip_cap tx) (gas_tip_cap_len tx) = field_num (gas_tip_cap tx') (gas_tip_cap_len tx')"
    using eq le by (auto simp: expected_pairs_def intro!: amount)
  have ends: "sender = sender'" "to_addr tx = to_addr tx'"
    using eq le assms(5,6) by (auto simp: expected_pairs_def intro!: address_text_inj)
  have hash: "take 32 hash = take 32 hash'" if "display_tx_hash s \<noteq> 0"
  proof -
    have "bytes_to_lower_hex (take 32 hash) = bytes_to_lower_hex (take 32 hash')"
      using eq that by (simp add: expected_pairs_def split: if_splits)
    then show ?thesis by (metis lower_hex_parse)
  qed
  have stored: "u = store_tx t tx_zero" if "plain_transfer t" "cs = encode_tx t" "decode_ledger_tx cs tx_zero = Go u q m" "length cs \<le> 510" for t cs u q m
    using decode_encoded [of t "[]" tx_zero] that by (auto simp: plain_transfer_def)
  have same: "bs = bs'" if "display_nonce s \<noteq> 0" "plain_transfer t" "bs = encode_tx t" "plain_transfer t'" "bs' = encode_tx t'" for t t'
    using plain_determined [OF that(2,4) assms(5,6) that(1), of hash hash'] assms(7)
      stored [OF that(2,3) assms(1,3)] stored [OF that(4,5) assms(2,4)] that(3,5) by simp
  show ?thesis using ends value_tip chain gas fees nonce hash same by auto
qed

theorem review_determines_transaction_witness:
  "\<exists>tx p n. decode_ledger_tx (encode_tx sample_tx) tx_zero = Go tx p n
     \<and> (\<forall>hash'. review_pairs (replicate 64 1) (replicate 32 5) (nvm_fresh\<lparr>display_tx_hash := 1\<rparr>) tx
          = review_pairs (replicate 64 1) hash' (nvm_fresh\<lparr>display_tx_hash := 1\<rparr>) tx \<longrightarrow> replicate 32 5 = take 32 hash')"
proof -
  have valid: "tx_valid sample_tx" by (simp add: tx_valid_def sample_tx_def num_ok_def)
  have len: "length (encode_tx sample_tx) \<le> 510"
    by (simp add: encode_tx_def encode_payload_def sample_tx_def rlp_list_def rlp_string_def rlp_header_def be_bytes.simps)
  then have "length (encode_tx sample_tx @ []) < 2147483648" by simp
  from decode_encoded [OF valid this, of tx_zero] obtain p n where d: "decode_ledger_tx (encode_tx sample_tx) tx_zero = Go (store_tx sample_tx tx_zero) p n"
    by auto
  have "replicate 32 5 = take 32 hash'"
    if "review_pairs (replicate 64 1) (replicate 32 5) (nvm_fresh\<lparr>display_tx_hash := 1\<rparr>) (store_tx sample_tx tx_zero)
      = review_pairs (replicate 64 1) hash' (nvm_fresh\<lparr>display_tx_hash := 1\<rparr>) (store_tx sample_tx tx_zero)" for hash'
    using review_determines_transaction [OF d d len len _ _ that] by simp
  with d show ?thesis by blast
qed

text \<open>
  A transaction without recipient, which creates a contract, is not told apart from one to the zero address: the
  decoder leaves the zeros and the review shows them.
\<close>

lemma creation_shown_as_zero_address:
  assumes "t_to t = []"
  shows "store_tx t tx_zero = store_tx (t\<lparr>t_to := replicate 64 0\<rparr>) tx_zero"
  using assms by (simp add: store_tx_def overlay_def)

end
