(* ===== verification/Fips_Ntt.thy ===== *)
theory Fips_Ntt
  imports Sign_Verify
begin

text \<open>
  The transforms of FIPS 204: \<open>NTT\<close> is evaluation at the powers of the root of unity 1753 with bit-reversed exponents, and the inverse
  is the explicit sum.  Both transforms of \<open>ntt.c\<close> compute them, and the inverse is one.
\<close>

subsection \<open>The transforms of the standard\<close>

text \<open>\<open>bit_rev n m\<close> reverses the lowest \<open>n\<close> bits.\<close>

fun bit_rev :: "nat \<Rightarrow> nat \<Rightarrow> nat" where
  "bit_rev 0 m = 0"
| "bit_rev (Suc n) m = bit_rev n (m div 2) + m mod 2 * 2 ^ n"

abbreviation (input) ZETA :: int where "ZETA \<equiv> 1753"

definition fips_ntt :: "poly \<Rightarrow> poly" where
  "fips_ntt w = pmap (\<lambda>k. (\<Sum>j<N. w ! j * ZETA ^ ((2 * bit_rev 8 k + 1) * j)) mod Q_CONST)"

text \<open>8347681 is the inverse of 256, and the root has the order 512.\<close>

definition fips_inv_ntt :: "poly \<Rightarrow> poly" where
  "fips_inv_ntt f = pmap (\<lambda>j. (8347681 * (\<Sum>k<N. f ! k * ZETA ^ ((2 * bit_rev 8 k + 1) * (512 - j)))) mod Q_CONST)"

subsection \<open>The table of \<open>ntt.c\<close>\<close>

lemma bit_rev_top: "k < 2 ^ s \<Longrightarrow> s < n \<Longrightarrow> bit_rev n (2 ^ s + k) = bit_rev n k + 2 ^ (n - 1 - s)"
proof (induction n arbitrary: s k)
  case (Suc n)
  show ?case
  proof (cases s)
    case 0
    then show ?thesis using Suc.prems by simp
  next
    case (Suc t)
    then have "(2 ^ s + k) div 2 = 2 ^ t + k div 2" "(2 ^ s + k) mod 2 = k mod 2" "k div 2 < 2 ^ t" using Suc.prems by auto
    with Suc.IH [of "k div 2" t] Suc.prems Suc show ?thesis by simp
  qed
qed simp

lemma bit_rev_small: "k < 2 ^ n \<Longrightarrow> bit_rev (Suc n) k = 2 * bit_rev n k"
proof (induction n arbitrary: k)
  case (Suc n)
  then have "k div 2 < 2 ^ n" by auto
  with Suc.IH [of "k div 2"] show ?case by simp
qed simp

fun zeta_table :: "int list \<Rightarrow> int list" where
  "zeta_table [] = [1]"
| "zeta_table (c # cs) = (let t = zeta_table cs in t @ map (\<lambda>z. (z * c) mod Q_CONST) t)"

lemma length_zeta_table: "length (zeta_table cs) = 2 ^ length cs"
  by (induction cs) (simp_all add: Let_def)

text \<open>1753 squared again and again.\<close>

definition zeta_squares :: "int list" where
  "zeta_squares = [1753, 3073009, 3602218, 5010068, 7778734, 5178923, 3765607, 4808194]"

lemma zeta_square_step: "eqm a (ZETA ^ 2 ^ j) \<Longrightarrow> eqm b (a * a) \<Longrightarrow> eqm b (ZETA ^ 2 ^ Suc j)"
proof -
  assume a: "eqm a (ZETA ^ 2 ^ j)" and b: "eqm b (a * a)"
  have "(1753 :: int) ^ 2 ^ Suc j = 1753 ^ 2 ^ j * 1753 ^ 2 ^ j" by (simp add: mult_2 power_add)
  with eqm_trans [OF b eqm_mult [OF a a]] show ?thesis by (simp only:)
qed

lemma zeta_squares_eq: "j < 8 \<Longrightarrow> eqm (zeta_squares ! j) (ZETA ^ 2 ^ j)"
proof (induction j)
  case (Suc j)
  have c: "j = 0 \<or> j = 1 \<or> j = 2 \<or> j = 3 \<or> j = 4 \<or> j = 5 \<or> j = 6" using Suc.prems by presburger
  show ?case
  proof (rule zeta_square_step)
    show "eqm (zeta_squares ! j) (1753 ^ 2 ^ j)" using Suc by simp
    show "eqm (zeta_squares ! Suc j) (zeta_squares ! j * zeta_squares ! j)" using c by (elim disjE) (simp_all add: zeta_squares_def eqm_def)
  qed
qed (simp add: zeta_squares_def)

lemma minus_one_power: "eqm (- 1) (ZETA ^ 256)"
proof -
  have "eqm (- 1) (ZETA ^ 2 ^ Suc 7)" using zeta_squares_eq [of 7] by (rule zeta_square_step) (simp_all add: zeta_squares_def eqm_def)
  moreover have "(2 :: nat) ^ Suc 7 = 256" by simp
  ultimately show ?thesis by metis
qed

lemma zeta_table_powers: "s \<le> 8 \<Longrightarrow> k < 2 ^ s \<Longrightarrow> eqm (zeta_table (drop (8 - s) zeta_squares) ! k) (ZETA ^ bit_rev 8 k)"
proof (induction s arbitrary: k)
  case 0
  have "bit_rev n 0 = 0" for n by (induction n) simp_all
  with 0 show ?case by (simp add: zeta_squares_def)
next
  case (Suc s)
  let ?c = "zeta_squares ! (7 - s)" and ?t = "zeta_table (drop (8 - s) zeta_squares)"
  have l8: "length zeta_squares = 8" by (simp add: zeta_squares_def)
  have "8 - s = Suc (7 - s)" "8 - Suc s = 7 - s" using Suc.prems(1) by simp_all
  then have cs: "drop (8 - Suc s) zeta_squares = ?c # drop (8 - s) zeta_squares" using l8 by (simp add: Cons_nth_drop_Suc)
  have len: "length ?t = 2 ^ s" using Suc.prems(1) l8 by (simp add: length_zeta_table)
  have T: "zeta_table (drop (8 - Suc s) zeta_squares) = ?t @ map (\<lambda>z. (z * ?c) mod 8380417) ?t" unfolding cs by (simp add: Let_def)
  show ?case
  proof (cases "k < 2 ^ s")
    case True
    with Suc len T show ?thesis by (simp add: nth_append)
  next
    case False
    define m where "m = k - 2 ^ s"
    have m: "k = 2 ^ s + m" "m < 2 ^ s" using False Suc.prems(2) by (simp_all add: m_def)
    have "eqm (?t ! m * ?c) (1753 ^ bit_rev 8 m * 1753 ^ 2 ^ (7 - s))"
      using Suc.IH [OF _ m(2)] Suc.prems(1) by (intro eqm_mult zeta_squares_eq) simp_all
    moreover have "bit_rev 8 k = bit_rev 8 m + 2 ^ (7 - s)" using bit_rev_top [OF m(2), of 8] Suc.prems(1) m(1) by simp
    ultimately show ?thesis using len m unfolding T by (simp add: nth_append power_add eqm_mod)
  qed
qed

lemma zeta_table_eq: "drop 1 (zeta_table zeta_squares) = drop 1 fips_zetas"
  by code_simp

text \<open>The table holds \<open>ZETA ^ bit_rev 8 n\<close> without the Montgomery factor, as appendix B of FIPS 204 says.\<close>

lemma zr_power: "0 < n \<Longrightarrow> n < 256 \<Longrightarrow> eqm (zr n) (ZETA ^ bit_rev 8 n)"
proof -
  assume n: "0 < n" "n < 256"
  define t where "t = zeta_table zeta_squares"
  have len: "length t = 256" unfolding t_def length_zeta_table by (simp add: zeta_squares_def)
  have "drop 1 t = drop 1 fips_zetas" unfolding t_def by (rule zeta_table_eq)
  then have "drop 1 t ! (n - 1) = drop 1 fips_zetas ! (n - 1)" by (rule arg_cong)
  then have "t ! n = zr n" using n len length_fips_zetas by (simp add: zr_eq)
  moreover have "eqm (t ! n) (ZETA ^ bit_rev 8 n)" using zeta_table_powers [of 8 n] n by (simp add: t_def)
  ultimately show ?thesis by metis
qed

lemma node_power_zeta: "k < 256 \<Longrightarrow> eqm (node (256 + k)) (ZETA ^ (2 * bit_rev 8 k + 1))"
proof -
  assume k: "k < 256"
  define i where "i = k div 2"
  have i: "i < 128" using k by (simp add: i_def)
  have "bit_rev 8 (2 ^ 7 + i) = bit_rev 8 i + 2 ^ (8 - 1 - 7)" by (rule bit_rev_top) (use i in simp_all)
  moreover have "bit_rev (Suc 7) i = 2 * bit_rev 7 i" by (rule bit_rev_small) (use i in simp)
  ultimately have r: "bit_rev 8 (128 + i) = 2 * bit_rev 7 i + 1" by simp
  have b: "bit_rev 8 k = bit_rev 7 i + k mod 2 * 128" using bit_rev.simps(2) [of 7 k] by (simp add: i_def)
  have z: "eqm (zr (128 + i)) (ZETA ^ (2 * bit_rev 7 i + 1))" using zr_power [of "128 + i"] i r by simp
  show ?thesis
  proof (cases "even k")
    case True
    then show ?thesis using z b by (simp add: node_def i_def)
  next
    case False
    moreover have "(256 + k) div 2 = 128 + i" unfolding i_def by presburger
    ultimately have "node (256 + k) = - zr (128 + i)" by (simp add: node_def)
    moreover have "2 * bit_rev 8 k + 1 = 256 + (2 * bit_rev 7 i + 1)" using False b by (simp add: odd_iff_mod_2_eq_one)
    then have "(1753 :: int) ^ (2 * bit_rev 8 k + 1) = 1753 ^ 256 * 1753 ^ (2 * bit_rev 7 i + 1)" by (simp only: power_add)
    moreover have "eqm (- 1 * 1753 ^ (2 * bit_rev 7 i + 1)) (1753 ^ 256 * 1753 ^ (2 * bit_rev 7 i + 1))"
      by (rule eqm_mult [OF minus_one_power eqm_refl])
    ultimately show ?thesis using eqm_trans [OF eqm_minus [OF z]] by (simp only: mult_minus1)
  qed
qed

subsection \<open>Sums of the roots\<close>

definition node_sum :: "nat \<Rightarrow> nat \<Rightarrow> int" where
  "node_sum s d = (\<Sum>i<2 ^ s. node (2 ^ s + i) ^ d)"

lemma sum_pairs: "(\<Sum>i<2 * n. f i) = (\<Sum>i<n. f (2 * i) + f (2 * i + 1 :: nat))" for f :: "nat \<Rightarrow> int"
  by (induction n) simp_all

lemma node_sum_pairs: "node_sum (Suc s) d = (\<Sum>i<2 ^ s. zr (2 ^ s + i) ^ d + (- zr (2 ^ s + i)) ^ d)"
proof -
  have n: "node (2 * 2 ^ s + 2 * i) = zr (2 ^ s + i)" "node (2 * 2 ^ s + (2 * i + 1)) = - zr (2 ^ s + i)" for i
  proof -
    have "(2 * 2 ^ s + (2 * i + 1)) div 2 = 2 ^ s + i" "2 * 2 ^ s + (2 * i + 1) \<noteq> 1" by simp_all
    moreover have "2 * 2 ^ s + 2 * i \<noteq> Suc 0" using even_Suc [of 0] by (metis even_add even_mult_iff even_numeral even_zero)
    ultimately show "node (2 * 2 ^ s + 2 * i) = zr (2 ^ s + i)" "node (2 * 2 ^ s + (2 * i + 1)) = - zr (2 ^ s + i)"
      by (simp_all add: node_def)
  qed
  show ?thesis unfolding node_sum_def power_Suc sum_pairs n ..
qed

lemma node_sum_zero: "s \<le> 8 \<Longrightarrow> \<not> 2 ^ s dvd d \<Longrightarrow> eqm (node_sum s d) 0"
proof (induction s arbitrary: d)
  case (Suc s)
  show ?case
  proof (cases "even d")
    case False
    then show ?thesis unfolding node_sum_pairs by simp
  next
    case True
    then obtain e where e: "d = 2 * e" by blast
    then have "\<not> 2 ^ s dvd e" using Suc.prems(2) by simp
    with Suc.IH [of e] Suc.prems(1) have "eqm (node_sum s e) 0" by simp
    then have "eqm (2 * node_sum s e) (2 * 0)" by (rule eqm_mult [OF eqm_refl])
    then have zero: "eqm (\<Sum>i<2 ^ s. 2 * node (2 ^ s + i) ^ e) 0" by (simp add: node_sum_def sum_distrib_left)
    have "eqm (node_sum (Suc s) d) (\<Sum>i<2 ^ s. 2 * node (2 ^ s + i) ^ e)"
      unfolding node_sum_pairs
    proof (rule eqm_sum)
      fix i :: nat assume "i \<in> {..<2 ^ s}"
      moreover have "(2 :: nat) ^ s \<le> 2 ^ 7" using Suc.prems(1) by (intro power_increasing) simp_all
      ultimately have "eqm (zr (2 ^ s + i) * zr (2 ^ s + i)) (node (2 ^ s + i))" by (intro zr_square) simp_all
      then have "eqm (2 * (zr (2 ^ s + i) * zr (2 ^ s + i)) ^ e) (2 * node (2 ^ s + i) ^ e)" by (intro eqm_mult eqm_power) simp_all
      then show "eqm (zr (2 ^ s + i) ^ d + (- zr (2 ^ s + i)) ^ d) (2 * node (2 ^ s + i) ^ e)"
        by (simp add: e power_mult power2_eq_square)
    qed
    from eqm_trans [OF this zero] show ?thesis .
  qed
qed simp

lemma root_512: "k < 256 \<Longrightarrow> eqm (node (256 + k) ^ 512) 1"
proof -
  assume "k < 256"
  then have "eqm (node (256 + k) ^ 256 * node (256 + k) ^ 256) (- 1 * - 1)" by (intro eqm_mult root_256)
  then show ?thesis by (simp flip: power_add)
qed

text \<open>Orthogonality.\<close>

lemma node_sum_orthogonal:
  assumes "i < 256" "j < 256"
  shows "eqm (\<Sum>k<256. node (256 + k) ^ (i + (512 - j))) (if i = j then 256 else 0)"
proof (cases "i = j")
  case True
  then have "i + (512 - j) = 512" using assms by simp
  then have "eqm (\<Sum>k<256. node (256 + k) ^ (i + (512 - j))) (\<Sum>k<256 :: nat. 1)" by (intro eqm_sum) (simp add: root_512)
  then show ?thesis using True by simp
next
  case False
  have "\<not> 256 dvd i + (512 - j)"
  proof
    assume "256 dvd i + (512 - j)"
    then obtain m where "i + (512 - j) = 256 * m" by blast
    then have "m = 2" using assms by linarith
    then show False using False assms \<open>i + (512 - j) = 256 * m\<close> by simp
  qed
  then show ?thesis using node_sum_zero [of 8 "i + (512 - j)"] False by (simp add: node_sum_def)
qed

subsection \<open>The transforms are inverse\<close>

lemma fips_ntt_ev: "k < 256 \<Longrightarrow> fips_ntt w ! k = ev w k mod 8380417"
proof -
  assume k: "k < 256"
  have "eqm (\<Sum>j<256. w ! j * 1753 ^ ((2 * bit_rev 8 k + 1) * j)) (\<Sum>j<256. w ! j * node (256 + k) ^ j)"
    unfolding power_mult by (intro eqm_sum eqm_mult eqm_power eqm_sym [OF node_power_zeta [OF k]] eqm_refl)
  then show ?thesis using k by (simp add: fips_ntt_def ev_def peval_def eqm_mod)
qed

lemma fips_inv_ntt_node:
  "j < 256 \<Longrightarrow> eqm (fips_inv_ntt f ! j) (8347681 * (\<Sum>k<256. f ! k * node (256 + k) ^ (512 - j)))"
proof -
  assume j: "j < 256"
  have "eqm (\<Sum>k<256. f ! k * 1753 ^ ((2 * bit_rev 8 k + 1) * (512 - j))) (\<Sum>k<256. f ! k * node (256 + k) ^ (512 - j))"
    unfolding power_mult by (intro eqm_sum eqm_mult eqm_power eqm_sym [OF node_power_zeta]) simp_all
  from eqm_mult [OF eqm_refl [of 8347681] this] show ?thesis using j by (simp add: fips_inv_ntt_def eqm_mod)
qed

lemma fips_inv_ntt_cong: "(\<And>k. k < 256 \<Longrightarrow> eqm (f ! k) (g ! k)) \<Longrightarrow> fips_inv_ntt f = fips_inv_ntt g"
proof -
  assume e: "\<And>k. k < 256 \<Longrightarrow> eqm (f ! k) (g ! k)"
  have "eqm (8347681 * (\<Sum>k<256. f ! k * 1753 ^ ((2 * bit_rev 8 k + 1) * (512 - j))))
    (8347681 * (\<Sum>k<256. g ! k * 1753 ^ ((2 * bit_rev 8 k + 1) * (512 - j))))" for j
    by (intro eqm_mult eqm_sum eqm_refl e) simp_all
  then show ?thesis by (simp add: fips_inv_ntt_def eqm_mod)
qed

lemma residues_fips: "residues (fips_ntt w)" "residues (fips_inv_ntt f)"
  by (simp_all add: residues_def fips_ntt_def fips_inv_ntt_def list_all_length)

lemma inv_of_values: "length a = 256 \<Longrightarrow> eqml (fips_inv_ntt (pmap (ev a))) a"
proof -
  assume len: "length a = 256"
  have "eqm (fips_inv_ntt (pmap (ev a)) ! j) (a ! j)" if j: "j < 256" for j
  proof -
    have "(\<Sum>k<256. pmap (ev a) ! k * node (256 + k) ^ (512 - j)) = (\<Sum>k<256. \<Sum>i<256. a ! i * node (256 + k) ^ (i + (512 - j)))"
      by (intro sum.cong refl) (simp add: ev_def peval_def sum_distrib_right power_add mult.assoc)
    also have "\<dots> = (\<Sum>i<256. a ! i * (\<Sum>k<256. node (256 + k) ^ (i + (512 - j))))"
      unfolding sum_distrib_left by (rule sum.swap)
    also have "eqm \<dots> (\<Sum>i<256. a ! i * (if i = j then 256 else 0))"
      by (intro eqm_sum eqm_mult node_sum_orthogonal eqm_refl) (use j in simp_all)
    also have "(\<Sum>i<256. a ! i * (if i = j then 256 else 0)) = 256 * a ! j" using j by (simp add: if_distrib cong: if_cong)
    finally have "eqm (8347681 * (\<Sum>k<256. pmap (ev a) ! k * node (256 + k) ^ (512 - j))) (8347681 * (256 * a ! j))"
      by (rule eqm_mult [OF eqm_refl])
    also have "8347681 * (256 * a ! j) = 2137006336 * a ! j" by simp
    also have "eqm \<dots> (1 * a ! j)" by (rule eqm_mult [OF _ eqm_refl]) (simp add: eqm_def)
    finally show ?thesis using eqm_trans [OF fips_inv_ntt_node [OF j]] by simp
  qed
  then show ?thesis using len by (simp add: eqml_def fips_inv_ntt_def)
qed

lemma ev_fips_inv: "k < 256 \<Longrightarrow> eqm (ev (fips_inv_ntt f) k) (f ! k)"
proof -
  assume k: "k < 256"
  define r where "r = pmap (\<lambda>k. (f ! k * MONT_INV) mod Q_CONST)"
  have b: "bounded 8388608 r"
  proof (rule boundedI)
    fix i :: nat assume "i < 256"
    moreover have "0 \<le> x mod 8380417" "x mod 8380417 < 8380417" for x :: int by simp_all
    ultimately show "\<bar>r ! i\<bar> < 8388608" by (simp add: r_def)
  qed (simp add: r_def)
  define g where "g = inv_ntt_to_mont r"
  have len: "length g = 256" unfolding g_def using inv_ntt_correct(1) [OF b order_refl] by (rule bounded_length)
  have g: "eqm (ev g k) (f ! k)" if "k < 256" for k
  proof -
    have "eqm (4294967296 * r ! k) (4294967296 * (f ! k * MONT_INV))" using that by (intro eqm_mult) (simp_all add: r_def eqm_mod)
    also have "4294967296 * (f ! k * MONT_INV) = (4294967296 * MONT_INV) * f ! k" by simp
    also have "eqm \<dots> (1 * f ! k)" by (rule eqm_mult [OF mont_inv eqm_refl])
    finally show ?thesis using eqm_trans [OF inv_ev [OF b that, folded g_def]] by simp
  qed
  have "fips_inv_ntt f = fips_inv_ntt (pmap (ev g))" by (rule fips_inv_ntt_cong) (simp add: g eqm_sym)
  then have "eqml (fips_inv_ntt f) g" using inv_of_values [OF len] by simp
  from eqm_trans [OF ev_cong [OF this] g [OF k]] show ?thesis .
qed

text \<open>A polynomial in standard form is the inverse transform of its values.\<close>

lemma residues_eqml: "residues a \<Longrightarrow> residues b \<Longrightarrow> eqml a b \<Longrightarrow> a = b"
proof (rule nth_equalityI)
  assume a: "residues a" "residues b" "eqml a b"
  then show "length a = length b" by (simp add: residues_def)
  fix i assume "i < length a"
  then have i: "i < 256" using a(1) by (simp add: residues_def)
  have "\<bar>a ! i - b ! i\<bar> < 8380417" using residuesD(2,3) [OF a(1) i] residuesD(2,3) [OF a(2) i] by linarith
  then show "a ! i = b ! i" using eqml_nth [OF a(3) i] by (intro eqm_small_eq)
qed

lemma residues_by_values:
  assumes "residues p" "\<And>k. k < 256 \<Longrightarrow> eqm (ev p k) (f ! k)"
  shows "p = fips_inv_ntt f"
proof (rule residues_eqml [OF assms(1) residues_fips(2)])
  have "fips_inv_ntt (pmap (ev p)) = fips_inv_ntt f" by (rule fips_inv_ntt_cong) (simp add: assms(2))
  with inv_of_values [of p] assms(1) show "eqml p (fips_inv_ntt f)" by (metis eqml_sym residuesD(1))
qed

lemma ev_fips_ntt: "k < 256 \<Longrightarrow> eqm (fips_ntt w ! k) (ev w k)"
  by (simp add: fips_ntt_ev eqm_mod)

text \<open>
  C29.  The transforms of \<open>ntt.c\<close> are those of FIPS 204: without overflow, \<open>ntt\<close> gives the values of \<open>NTT\<close> modulo q, and
  \<open>inv_ntt_to_mont\<close> those of the inverse times \<open>2^32\<close>; the two transforms of the standard are inverse.
\<close>

theorem transforms_are_fips204:
  assumes "bounded B a" "B \<le> 2080440312" "bounded 8388608 r" "residues p"
  shows "map (\<lambda>x. x mod Q_CONST) (ntt a) = fips_ntt a \<and> bounded (B + 67043336) (ntt a)
    \<and> map (\<lambda>x. x mod Q_CONST) (inv_ntt_to_mont r) = map (\<lambda>x. 2 ^ 32 * x mod Q_CONST) (fips_inv_ntt r) \<and> bounded 4211199 (inv_ntt_to_mont r)
    \<and> fips_inv_ntt (fips_ntt p) = p \<and> fips_ntt (fips_inv_ntt p) = p"
proof (intro conjI)
  have la: "length (ntt a) = 256" using ntt_bounds [OF assms(1)] assms(2) by (simp add: bounded_length)
  show "bounded (B + 67043336) (ntt a)" using ntt_bounds [OF assms(1)] assms(2) by simp
  show i: "bounded 4211199 (inv_ntt_to_mont r)" by (rule inv_ntt_correct(1) [OF assms(3)]) simp
  show "map (\<lambda>x. x mod Q_CONST) (ntt a) = fips_ntt a"
    using la residuesD(1) [OF residues_fips(1)] ntt_ev [OF assms(1,2)] by (intro nth_equalityI) (simp_all add: fips_ntt_ev eqm_mod)
  show "fips_inv_ntt (fips_ntt p) = p" by (rule residues_by_values [OF assms(4) eqm_sym [OF ev_fips_ntt], symmetric])
  show "fips_ntt (fips_inv_ntt p) = p"
  proof (rule residues_eqml [OF residues_fips(1) assms(4)])
    show "eqml (fips_ntt (fips_inv_ntt p)) p"
      using residuesD(1) [OF assms(4)] residuesD(1) [OF residues_fips(1)] eqm_trans [OF ev_fips_ntt ev_fips_inv] by (simp add: eqml_def)
  qed
  let ?g = "inv_ntt_to_mont r" and ?p = "map (\<lambda>x. 2 ^ 32 * x mod Q_CONST) (fips_inv_ntt r)"
  have lp: "length (fips_inv_ntt r) = 256" by (rule residuesD(1) [OF residues_fips(2)])
  have "residues (map (\<lambda>x. x mod 8380417) ?g)" "residues ?p" using bounded_length [OF i] lp by (simp_all add: residues_def list_all_length)
  moreover have "eqml (map (\<lambda>x. x mod 8380417) ?g) ?p"
  proof (rule eqml_trans)
    have "eqm (ev ?g k) (ev (map (\<lambda>x. x * 4294967296) (fips_inv_ntt r)) k)" if k: "k < 256" for k
    proof -
      have "eqm (ev (fips_inv_ntt r) k * 4294967296) (r ! k * 4294967296)" by (rule eqm_mult [OF ev_fips_inv [OF k]]) simp
      then have "eqm (r ! k * 4294967296) (ev (map (\<lambda>x. x * 4294967296) (fips_inv_ntt r)) k)" unfolding ev_scale [OF lp] by (rule eqm_sym)
      then show ?thesis using eqm_trans [OF inv_ev [OF assms(3) k]] by (simp only: mult.commute)
    qed
    then have "fips_inv_ntt (pmap (ev ?g)) = fips_inv_ntt (pmap (ev (map (\<lambda>x. x * 4294967296) (fips_inv_ntt r))))"
      by (intro fips_inv_ntt_cong) simp
    with inv_of_values [of ?g] inv_of_values [of "map (\<lambda>x. x * 4294967296) (fips_inv_ntt r)"]
    have "eqml ?g (map (\<lambda>x. x * 4294967296) (fips_inv_ntt r))" using lp bounded_length [OF i] by (metis eqml_sym eqml_trans length_map)
    then show "eqml (map (\<lambda>x. x mod 8380417) ?g) (map (\<lambda>x. x * 4294967296) (fips_inv_ntt r))" by (auto simp: eqml_def eqm_mod)
    show "eqml (map (\<lambda>x. x * 4294967296) (fips_inv_ntt r)) ?p" using lp by (simp add: eqml_def eqm_mod mult.commute)
  qed
  ultimately show "map (\<lambda>x. x mod Q_CONST) ?g = ?p" by (rule residues_eqml)
qed

theorem transforms_are_fips204_witness:
  "map (\<lambda>x. x mod Q_CONST) (ntt (replicate 256 (- 1))) = fips_ntt (replicate 256 (- 1))
   \<and> fips_inv_ntt (fips_ntt (replicate 256 3)) = replicate 256 3"
  using transforms_are_fips204 [of 2 "replicate 256 (- 1)" "replicate 256 0" "replicate 256 3"]
  by (simp add: bounded_def residues_def list_all_length)

end
