(* ===== verification/Fips204_Spec.thy ===== *)
theory Fips204_Spec
  imports Fips_Ntt
begin

text \<open>
  ML-DSA-87 as FIPS 204 describes it, written from the standard: conversions, encodings, samplers, key generation, signing and
  verification, numbered as in the standard.  No function of \<open>sign.c\<close> or \<open>poly.c\<close> occurs here.  Polynomials are lists of 256
  integers; arithmetic is in the ring of polynomials modulo \<open>X^256 + 1\<close> and \<open>q\<close>.
\<close>

subsection \<open>Hashing and streams\<close>

definition H256 :: "byte list \<Rightarrow> nat \<Rightarrow> byte list" where
  "H256 m n = spec_sponge 136 0x1F m n"

definition G128 :: "byte list \<Rightarrow> nat \<Rightarrow> byte list" where
  "G128 m n = spec_sponge 168 0x1F m n"

text \<open>
  An algorithm that squeezes as many bytes as it needs: \<open>f n\<close> is its result if \<open>n\<close> bytes are enough.  It does not return if no
  number of bytes is.
\<close>

definition squeeze_until :: "(nat \<Rightarrow> 'a option) \<Rightarrow> 'a option" where
  "squeeze_until f = (if \<exists>n. f n \<noteq> None then f (LEAST n. f n \<noteq> None) else None)"

subsection \<open>Conversions (algorithms 9 to 13)\<close>

definition integer_to_bits :: "int \<Rightarrow> nat \<Rightarrow> bool list" where
  "integer_to_bits x n = map (\<lambda>k. x div 2 ^ k mod 2 = 1) [0..<n]"

definition bits_to_integer :: "bool list \<Rightarrow> int" where
  "bits_to_integer y = (\<Sum>k<length y. if y ! k then 2 ^ k else 0)"

definition integer_to_bytes :: "nat \<Rightarrow> nat \<Rightarrow> byte list" where
  "integer_to_bytes x n = map (\<lambda>k. of_nat (x div 256 ^ k)) [0..<n]"

definition bits_to_bytes :: "bool list \<Rightarrow> byte list" where
  "bits_to_bytes y = map (\<lambda>i. of_int (bits_to_integer (chunk (8 * i) 8 y))) [0..<length y div 8]"

definition bytes_to_bits :: "byte list \<Rightarrow> bool list" where
  "bytes_to_bits z = concat (map (\<lambda>b. integer_to_bits (uint b) 8) z)"

subsection \<open>Encodings (algorithms 16 to 28)\<close>

text \<open>The length of \<open>b\<close> in bits.\<close>

fun bitlen :: "nat \<Rightarrow> nat" where
  "bitlen b = (if b = 0 then 0 else bitlen (b div 2) + 1)"

declare bitlen.simps [simp del]

definition simple_bit_pack :: "poly \<Rightarrow> nat \<Rightarrow> byte list" where
  "simple_bit_pack w b = bits_to_bytes (concat (map (\<lambda>x. integer_to_bits x (bitlen b)) w))"

definition bit_pack :: "poly \<Rightarrow> nat \<Rightarrow> nat \<Rightarrow> byte list" where
  "bit_pack w a b = bits_to_bytes (concat (map (\<lambda>x. integer_to_bits (int b - x) (bitlen (a + b))) w))"

definition bit_unpack :: "byte list \<Rightarrow> nat \<Rightarrow> nat \<Rightarrow> poly" where
  "bit_unpack v a b = map (\<lambda>i. int b - bits_to_integer (chunk (i * bitlen (a + b)) (bitlen (a + b)) (bytes_to_bits v))) [0..<N]"

text \<open>The positions of the ones, padded with zeros, and behind them the number of ones up to each row.\<close>

definition hint_positions :: "poly \<Rightarrow> nat list" where
  "hint_positions p = filter (\<lambda>j. p ! j \<noteq> 0) [0..<N]"

definition hint_bit_pack :: "polyvec \<Rightarrow> byte list" where
  "hint_bit_pack h =
     (let pos = concat (map hint_positions h)
      in map of_nat pos @ replicate (OMEGA - length pos) 0
         @ map (\<lambda>i. of_nat (length (concat (map hint_positions (take (i + 1) h))))) [0..<K])"

definition fips_pk :: "byte list \<Rightarrow> polyvec \<Rightarrow> byte list" where
  "fips_pk rho t1 = rho @ concat (map (\<lambda>p. simple_bit_pack p (2 ^ 10 - 1)) t1)"

definition fips_w1_encode :: "polyvec \<Rightarrow> byte list" where
  "fips_w1_encode w1 = concat (map (\<lambda>p. simple_bit_pack p 15) w1)"

definition sig_encode :: "byte list \<Rightarrow> polyvec \<Rightarrow> polyvec \<Rightarrow> byte list" where
  "sig_encode c z h = c @ concat (map (\<lambda>p. bit_pack p (2 ^ 19 - 1) (2 ^ 19)) z) @ hint_bit_pack h"

text \<open>\<open>sig\<close> is the encoding of a challenge hash, a response in the range of the format and a hint with at most 75 ones.\<close>

definition sig_decodes :: "byte list \<Rightarrow> byte list \<Rightarrow> polyvec \<Rightarrow> polyvec \<Rightarrow> bool" where
  "sig_decodes sig c z h \<longleftrightarrow> length c = CTILDE_BYTES
     \<and> length z = L \<and> list_all (\<lambda>p. length p = N \<and> list_all (\<lambda>x. - GAMMA1 < x \<and> x \<le> GAMMA1) p) z
     \<and> length h = K \<and> list_all (\<lambda>p. length p = N \<and> set p \<subseteq> {0, 1}) h \<and> ones h \<le> OMEGA \<and> sig = sig_encode c z h"

subsection \<open>Samplers (algorithms 14, 15 and 29 to 34)\<close>

text \<open>The first 256 accepted values, if there are as many.\<close>

definition first_256 :: "int list \<Rightarrow> poly option" where
  "first_256 cs = (if 256 \<le> length cs then Some (take 256 cs) else None)"

definition coeff_from_three_bytes :: "nat \<Rightarrow> nat \<Rightarrow> nat \<Rightarrow> int option" where
  "coeff_from_three_bytes b0 b1 b2 =
     (let b2' = (if b2 > 127 then b2 - 128 else b2); z = 2 ^ 16 * b2' + 2 ^ 8 * b1 + b0
      in if int z < Q_CONST then Some (int z) else None)"

fun ntt_candidates :: "byte list \<Rightarrow> int list" where
  "ntt_candidates (b0 # b1 # b2 # bs) =
     (case coeff_from_three_bytes (unat b0) (unat b1) (unat b2) of
        Some z \<Rightarrow> z # ntt_candidates bs
      | None \<Rightarrow> ntt_candidates bs)"
| "ntt_candidates bs = []"

definition rej_ntt_poly :: "byte list \<Rightarrow> poly option" where
  "rej_ntt_poly seed = squeeze_until (\<lambda>n. first_256 (ntt_candidates (G128 seed n)))"

text \<open>A matrix, row by row, from the sampler of its entries.\<close>

definition expand_with :: "(byte list \<Rightarrow> poly option) \<Rightarrow> byte list \<Rightarrow> polyvec list option" where
  "expand_with f rho = those (map (\<lambda>r. those (map (\<lambda>s. f (rho @ integer_to_bytes s 1 @ integer_to_bytes r 1)) [0..<L])) [0..<K])"

definition expand_A :: "byte list \<Rightarrow> polyvec list option" where
  "expand_A rho = expand_with rej_ntt_poly rho"

definition coeff_from_half_byte :: "nat \<Rightarrow> int list" where
  "coeff_from_half_byte b = (if b < 15 then [2 - int (b mod 5)] else [])"

definition bounded_candidates :: "byte list \<Rightarrow> int list" where
  "bounded_candidates bs = concat (map (\<lambda>z. coeff_from_half_byte (unat z mod 16) @ coeff_from_half_byte (unat z div 16)) bs)"

definition rej_bounded_poly :: "byte list \<Rightarrow> poly option" where
  "rej_bounded_poly seed = squeeze_until (\<lambda>n. first_256 (bounded_candidates (H256 seed n)))"

text \<open>\<open>ExpandS\<close>, for \<open>n\<close> polynomials from the number \<open>from\<close> on.\<close>

definition expand_S :: "byte list \<Rightarrow> nat \<Rightarrow> nat \<Rightarrow> polyvec option" where
  "expand_S rho offset n = those (map (\<lambda>r. rej_bounded_poly (rho @ integer_to_bytes (offset + r) 2)) [0..<n])"

definition expand_mask :: "byte list \<Rightarrow> nat \<Rightarrow> polyvec" where
  "expand_mask rho mu = map (\<lambda>r. bit_unpack (H256 (rho @ integer_to_bytes (mu + r) 2) (32 * 20)) (2 ^ 19 - 1) (2 ^ 19)) [0..<L]"

text \<open>Algorithm 29: \<open>i\<close> runs from 196 to 255, and the signs are the bits of the first eight bytes.\<close>

fun ball_loop :: "nat list \<Rightarrow> byte list \<Rightarrow> bool list \<Rightarrow> poly \<Rightarrow> poly option" where
  "ball_loop [] s h c = Some c"
| "ball_loop (i # is) s h c =
     (case dropWhile (\<lambda>j. unat j > i) s of
        [] \<Rightarrow> None
      | j # s' \<Rightarrow> ball_loop is s' h ((c[i := c ! unat j])[unat j := (if h ! (i + TAU - 256) then - 1 else 1)]))"

definition fips_challenge :: "byte list \<Rightarrow> poly option" where
  "fips_challenge seed = squeeze_until (\<lambda>n. let s = H256 seed (8 + n)
     in ball_loop [256 - TAU..<256] (drop 8 s) (bytes_to_bits (take 8 s)) (replicate 256 0))"

subsection \<open>Arithmetic\<close>

text \<open>Standard representatives, and the product of the ring.\<close>

definition rq :: "poly \<Rightarrow> poly" where
  "rq p = map (\<lambda>x. x mod Q_CONST) p"

definition rq_mul :: "poly \<Rightarrow> poly \<Rightarrow> poly" where
  "rq_mul a b = rq (nega_mul a b)"

text \<open>Row \<open>i\<close> of \<open>NTT\<^sup>-\<^sup>1(A \<circ> NTT(v))\<close>.\<close>

definition fips_az :: "polyvec list \<Rightarrow> polyvec \<Rightarrow> nat \<Rightarrow> poly" where
  "fips_az A v i = fips_inv_ntt (pmap (\<lambda>k. \<Sum>m<L. A ! i ! m ! k * fips_ntt (v ! m) ! k))"

definition fips_t :: "polyvec list \<Rightarrow> polyvec \<Rightarrow> polyvec \<Rightarrow> polyvec" where
  "fips_t A s1 s2 = map (\<lambda>i. rq (map2 (+) (fips_az A s1 i) (s2 ! i))) [0..<K]"

definition fips_t1 :: "polyvec \<Rightarrow> polyvec" where
  "fips_t1 t = map (map (\<lambda>x. fst (fips_power2round x))) t"

definition fips_t0 :: "polyvec \<Rightarrow> polyvec" where
  "fips_t0 t = map (map (\<lambda>x. snd (fips_power2round x))) t"

definition fips_high :: "polyvec \<Rightarrow> polyvec" where
  "fips_high v = map (map (\<lambda>x. fst (fips_decompose x))) v"

definition fips_low :: "polyvec \<Rightarrow> polyvec" where
  "fips_low v = map (map (\<lambda>x. snd (fips_decompose x))) v"

text \<open>The norm of a vector is that of its centred representatives.\<close>

definition norm_less :: "int \<Rightarrow> polyvec \<Rightarrow> bool" where
  "norm_less B v \<longleftrightarrow> list_all (list_all (\<lambda>x. \<bar>mod_pm x Q_CONST\<bar> < B)) v"

subsection \<open>The scheme (algorithms 6 to 8)\<close>

text \<open>
  The functions take \<open>ExpandA\<close> as an argument; the standard is the case \<open>expand_A\<close>.  The result of the key generation is the seed
  \<open>rho\<close>, the key \<open>K\<close>, the matrix, the secret vectors and \<open>t\<close>; \<open>None\<close> if a sampler does not return.
\<close>

definition fips_expand_seed :: "byte list \<Rightarrow> byte list \<times> byte list \<times> byte list" where
  "fips_expand_seed xi =
     (let s = H256 (xi @ integer_to_bytes K 1 @ integer_to_bytes L 1) 128 in (take 32 s, chunk 32 64 s, chunk 96 32 s))"

type_synonym fips_key = "byte list \<times> byte list \<times> polyvec list \<times> polyvec \<times> polyvec \<times> polyvec"

definition fips_keygen :: "(byte list \<Rightarrow> polyvec list option) \<Rightarrow> byte list \<Rightarrow> fips_key option" where
  "fips_keygen expand xi =
     (let (rho, rhoPrime, key) = fips_expand_seed xi
      in do { A \<leftarrow> expand rho;
              s1 \<leftarrow> expand_S rhoPrime 0 L;
              s2 \<leftarrow> expand_S rhoPrime L K;
              Some (rho, key, A, s1, s2, fips_t A s1 s2) })"

text \<open>The message representative for the context string of the application.\<close>

definition fips_mu :: "byte list \<Rightarrow> byte list \<Rightarrow> byte list" where
  "fips_mu pk message = H256 (H256 pk 64 @ integer_to_bytes 0 1 @ integer_to_bytes 8 1
     @ [0x5A, 0x4F, 0x4E, 0x44, 0x01, 0x01, 0x00, 0x00] @ message) 64"

text \<open>Algorithm 8 on a decoded signature; the norm is checked first, so that \<open>None\<close> means that \<open>SampleInBall\<close> does not return.\<close>

definition fips_verify ::
  "byte list \<Rightarrow> polyvec list \<Rightarrow> polyvec \<Rightarrow> byte list \<Rightarrow> byte list \<Rightarrow> polyvec \<Rightarrow> polyvec \<Rightarrow> bool option" where
  "fips_verify rho A t1 message c z h =
     (if \<not> norm_less (GAMMA1 - BETA) z then Some False
      else map_option (\<lambda>cp.
        let w = map (\<lambda>i. rq (map2 (-) (fips_az A z i) (rq_mul cp (map (\<lambda>x. x * 2 ^ D) (t1 ! i))))) [0..<K];
            w1 = map2 (map2 (\<lambda>hb r. fips_use_hint (hb \<noteq> 0) r)) h w
        in c = H256 (fips_mu (fips_pk rho t1) message @ fips_w1_encode w1) CTILDE_BYTES) (fips_challenge c))"

text \<open>
  One pass of the signing loop with the masking vector \<open>y\<close>: \<open>None\<close> if \<open>SampleInBall\<close> does not return, \<open>Some None\<close> if the pass is
  rejected.
\<close>

definition fips_sign_pass ::
  "polyvec list \<Rightarrow> polyvec \<Rightarrow> polyvec \<Rightarrow> polyvec \<Rightarrow> byte list \<Rightarrow> polyvec \<Rightarrow> (byte list \<times> polyvec \<times> polyvec) option option" where
  "fips_sign_pass A s1 s2 t0 mu y =
     (let w = map (fips_az A y) [0..<K];
          c = H256 (mu @ fips_w1_encode (fips_high w)) CTILDE_BYTES
      in map_option (\<lambda>cp.
        let z = map2 (\<lambda>p s. rq (map2 (+) p (rq_mul cp s))) y s1;
            r = map2 (\<lambda>p s. rq (map2 (-) p (rq_mul cp s))) w s2;
            ct0 = map (rq_mul cp) t0;
            rt = map2 (\<lambda>p q. rq (map2 (+) p q)) r ct0;
            h = map2 (map2 (\<lambda>a b. if a \<noteq> b then 1 else 0)) (fips_high rt) (fips_high r)
        in if norm_less (GAMMA1 - BETA) z \<and> norm_less (GAMMA2 - BETA) (fips_low r) \<and> norm_less GAMMA2 ct0 \<and> ones h \<le> OMEGA
           then Some (c, map (map (\<lambda>x. mod_pm x Q_CONST)) z, h) else None) (fips_challenge c))"

text \<open>The loop with at most \<open>n\<close> passes from the counter \<open>kappa\<close> on; \<open>Some None\<close> if all are rejected.\<close>

fun fips_sign_loop ::
  "polyvec list \<Rightarrow> polyvec \<Rightarrow> polyvec \<Rightarrow> polyvec \<Rightarrow> byte list \<Rightarrow> byte list \<Rightarrow> nat \<Rightarrow> nat \<Rightarrow> (byte list \<times> polyvec \<times> polyvec) option option" where
  "fips_sign_loop A s1 s2 t0 mu rho2 kappa 0 = Some None"
| "fips_sign_loop A s1 s2 t0 mu rho2 kappa (Suc n) =
     (case fips_sign_pass A s1 s2 t0 mu (expand_mask rho2 kappa) of
        None \<Rightarrow> None
      | Some None \<Rightarrow> fips_sign_loop A s1 s2 t0 mu rho2 (kappa + L) n
      | Some (Some sig) \<Rightarrow> Some (Some sig))"

text \<open>Algorithm 7, with the bound of 814 passes that the standard allows.\<close>

definition fips_sign :: "fips_key \<Rightarrow> byte list \<Rightarrow> byte list \<Rightarrow> (byte list \<times> polyvec \<times> polyvec) option option" where
  "fips_sign k message rnd =
     (let (rho, key, A, s1, s2, t) = k;
          mu = fips_mu (fips_pk rho (fips_t1 t)) message;
          rho2 = H256 (key @ rnd @ mu) 64
      in fips_sign_loop A s1 s2 (fips_t0 t) mu rho2 0 814)"

subsection \<open>The matrix of the device\<close>

text \<open>
  The first 840 bytes of a stream offer 280 candidates, of which 256 must be accepted for an entry.  If they are not enough, the
  code continues with byte 842, so that its matrix is that of the standard unless more than 24 candidates of an entry are rejected.
\<close>

definition enough_candidates :: "byte list \<Rightarrow> bool" where
  "enough_candidates rho \<longleftrightarrow>
     list_all (\<lambda>r. list_all (\<lambda>s. 256 \<le> length (ntt_candidates (G128 (rho @ integer_to_bytes s 1 @ integer_to_bytes r 1) 840))) [0..<L]) [0..<K]"

definition rej_ntt_poly_skip :: "byte list \<Rightarrow> poly option" where
  "rej_ntt_poly_skip seed = squeeze_until (\<lambda>n. let s = G128 seed n in first_256 (ntt_candidates (take 840 s @ drop 842 s)))"

definition device_A :: "byte list \<Rightarrow> polyvec list option" where
  "device_A rho = (if enough_candidates rho then expand_A rho else expand_with rej_ntt_poly_skip rho)"

text \<open>A signature that the standard accepts for the public key of the seed \<open>xi\<close>.\<close>

definition fips_valid :: "byte list \<Rightarrow> byte list \<Rightarrow> byte list \<Rightarrow> bool" where
  "fips_valid xi message sig \<longleftrightarrow>
     (case fips_keygen device_A xi of
        None \<Rightarrow> False
      | Some (rho, key, A, s1, s2, t) \<Rightarrow> \<exists>c z h. sig_decodes sig c z h \<and> fips_verify rho A (fips_t1 t) message c z h = Some True)"

end
