(* ===== verification/Fips204_Codec.thy ===== *)
theory Fips204_Codec
  imports Fips204_Spec Sign_Correct
begin

text \<open>
  The encoders of \<open>poly.c\<close> and \<open>sign.c\<close> compute the bit strings of FIPS 204: the shifts and masks of a group of coefficients give the
  bytes of \<open>BitsToBytes\<close>, and the loop over the groups gives those of the whole polynomial.
\<close>

subsection \<open>Bits and bytes\<close>

lemma integer_to_bits_eq: "integer_to_bits x n = map (bit x) [0..<n]"
  by (simp add: integer_to_bits_def bit_iff_odd odd_iff_mod_2_eq_one)

lemma length_integer_to_bits [simp]: "length (integer_to_bits x n) = n"
  by (simp add: integer_to_bits_def)

lemma bits_to_integer_eq: "bits_to_integer y = horner_sum of_bool 2 y"
  unfolding bits_to_integer_def horner_sum_eq_sum atLeast0LessThan by (rule sum.cong) simp_all

lemma bits_of_integer: "bits_to_integer (integer_to_bits x n) = take_bit n x"
  by (simp add: bits_to_integer_eq integer_to_bits_eq horner_sum_bit_eq_take_bit)

lemma length_bits_to_bytes [simp]: "length (bits_to_bytes y) = length y div 8"
  by (simp add: bits_to_bytes_def)

lemma bits_to_bytes_Nil [simp]: "bits_to_bytes [] = []"
  by (simp add: bits_to_bytes_def)

lemma bits_to_bytes_Cons8:
  "bits_to_bytes (b0 # b1 # b2 # b3 # b4 # b5 # b6 # b7 # y)
    = byte_of (horner_sum of_bool 2 [b0, b1, b2, b3, b4, b5, b6, b7]) # bits_to_bytes y"
proof -
  have "length (b0 # b1 # b2 # b3 # b4 # b5 # b6 # b7 # y) div 8 = Suc (length y div 8)" by simp
  moreover have "drop (8 + n) (b0 # b1 # b2 # b3 # b4 # b5 # b6 # b7 # y) = drop n y" for n by (simp add: numeral_eq_Suc)
  ultimately show ?thesis
    by (simp add: bits_to_bytes_def upt_conv_Cons chunk_def bits_to_integer_eq flip: map_Suc_upt del: horner_sum_simps upt_Suc)
qed

lemma bits_to_bytes_append: "length xs = 8 * n \<Longrightarrow> bits_to_bytes (xs @ ys) = bits_to_bytes xs @ bits_to_bytes ys"
proof (induction n arbitrary: xs)
  case (Suc n)
  then have "length (take 8 xs) = 8" "length (drop 8 xs) = 8 * n" by simp_all
  from exhaust8 [OF this(1)] obtain x0 x1 x2 x3 x4 x5 x6 x7 where x: "take 8 xs = [x0, x1, x2, x3, x4, x5, x6, x7]" by blast
  have split: "xs = x0 # x1 # x2 # x3 # x4 # x5 # x6 # x7 # drop 8 xs" using append_take_drop_id [of 8 xs] unfolding x by simp
  have "bits_to_bytes (drop 8 xs @ ys) = bits_to_bytes (drop 8 xs) @ bits_to_bytes ys" using \<open>length (drop 8 xs) = 8 * n\<close> by (rule Suc.IH)
  then show ?case by (subst (1 2) split) (simp add: bits_to_bytes_Cons8 del: horner_sum_simps)
qed simp

lemma bits_to_bytes_concat:
  "(\<And>x. x \<in> set xs \<Longrightarrow> length (f x) = 8 * h) \<Longrightarrow> bits_to_bytes (concat (map f xs)) = concat (map (\<lambda>x. bits_to_bytes (f x)) xs)"
  by (induction xs) (simp_all add: bits_to_bytes_append)

lemma bits_of_byte: "length bs = 8 \<Longrightarrow> integer_to_bits (uint (byte_of (horner_sum of_bool 2 bs))) 8 = bs"
  unfolding integer_to_bits_eq by (rule nth_equalityI) (simp_all add: uint_byte_of bit_simps)

lemma bytes_of_bits: "length y = 8 * n \<Longrightarrow> bytes_to_bits (bits_to_bytes y) = y"
proof (induction n arbitrary: y)
  case (Suc n)
  then have "length (take 8 y) = 8" "length (drop 8 y) = 8 * n" by simp_all
  from exhaust8 [OF this(1)] obtain x0 x1 x2 x3 x4 x5 x6 x7 where x: "take 8 y = [x0, x1, x2, x3, x4, x5, x6, x7]" by blast
  have split: "y = x0 # x1 # x2 # x3 # x4 # x5 # x6 # x7 # drop 8 y" using append_take_drop_id [of 8 y] unfolding x by simp
  have "integer_to_bits (uint (byte_of (horner_sum of_bool 2 [x0, x1, x2, x3, x4, x5, x6, x7]))) 8 = [x0, x1, x2, x3, x4, x5, x6, x7]"
    by (rule bits_of_byte) simp
  then have "bytes_to_bits (byte_of (horner_sum of_bool 2 [x0, x1, x2, x3, x4, x5, x6, x7]) # bs)
      = [x0, x1, x2, x3, x4, x5, x6, x7] @ bytes_to_bits bs" for bs
    unfolding bytes_to_bits_def list.map concat.simps by (rule arg_cong)
  with Suc.IH [OF \<open>length (drop 8 y) = 8 * n\<close>] show ?case
    by (subst (1 2) split) (simp only: bits_to_bytes_Cons8 append.simps)
qed (simp add: bytes_to_bits_def)

lemma bitlens: "bitlen 1023 = 10" "bitlen 15 = 4" "bitlen 1048575 = 20"
  by (simp_all add: bitlen.simps)

subsection \<open>From a group to a polynomial\<close>

lemma concat_chunks_map: "length p = n * g \<Longrightarrow> concat (map f p) = concat (map (\<lambda>i. concat (map f (chunk (i * g) g p))) [0..<n])"
proof (induction n arbitrary: p)
  case (Suc n)
  have d: "chunk (Suc i * g) g p = chunk (i * g) g (drop g p)" for i by (simp add: chunk_def add.commute)
  have "concat (map f p) = concat (map f (chunk (0 * g) g p)) @ concat (map f (drop g p))"
    by (subst append_take_drop_id [of g p, symmetric], subst map_append) (simp add: chunk_def)
  also have "concat (map f (drop g p)) = concat (map (\<lambda>i. concat (map f (chunk (i * g) g (drop g p)))) [0..<n])"
    using Suc.prems by (intro Suc.IH) simp
  finally show ?case unfolding d [symmetric] by (simp add: upt_conv_Cons comp_def flip: map_Suc_upt del: upt_Suc)
qed simp

lemma bit_string_blocks:
  assumes "length p = n * g" "\<And>x. length (f x) = b" "g * b = 8 * h" "list_all P p"
    "\<And>c. length c = g \<Longrightarrow> list_all P c \<Longrightarrow> bits_to_bytes (concat (map f c)) = pk c"
  shows "bits_to_bytes (concat (map f p)) = encode_blocks n g pk p"
proof -
  have chunk: "length (chunk (i * g) g p) = g" "list_all P (chunk (i * g) g p)" if "i < n" for i
  proof -
    have "i * g + g \<le> n * g" using that mult_le_mono1 [of "i + 1" n g] by simp
    then show "length (chunk (i * g) g p) = g" using assms(1) by simp
    show "list_all P (chunk (i * g) g p)" using assms(4) by (auto simp: chunk_def list_all_iff dest: in_set_takeD in_set_dropD)
  qed
  have "length (concat (map f c)) = length c * b" for c using assms(2) by (simp add: length_concat comp_def sum_list_triv)
  then have "bits_to_bytes (concat (map f p)) = concat (map (\<lambda>i. bits_to_bytes (concat (map f (chunk (i * g) g p)))) [0..<n])"
    using assms(3) chunk(1) unfolding concat_chunks_map [OF assms(1), of f] by (intro bits_to_bytes_concat [where h = h]) simp
  also have "\<dots> = encode_blocks n g pk p"
    unfolding encode_blocks_def by (intro arg_cong [where f = concat] map_cong refl assms(5) chunk) simp_all
  finally show ?thesis .
qed

lemmas group_eval = integer_to_bits_eq bits_to_bytes_Cons8 upts

lemma upt_4: "[0..<4] = [0, 1, 2, 3]"
  by (simp add: upt_rec)

lemma t1_group: "length c = 4 \<Longrightarrow> bits_to_bytes (concat (map (\<lambda>x. integer_to_bits x 10) (map (take_bit 10) c))) = t1_pack4 (map (take_bit 10) c)"
  by (drule exhaust4, clarsimp simp: t1_pack4_def asr_def group_eval simp del: bit_distribs horner_sum_simps)
    (intro conjI byte_eqI; simp add: pack_eval bit_horner_sum_bit_iff del: push_bit_Suc horner_sum_simps)

lemma w1_group: "length c = 2 \<Longrightarrow> bits_to_bytes (concat (map (\<lambda>x. integer_to_bits x 4) (map (take_bit 4) c))) = w1_pack2 (map (take_bit 4) c)"
  by (drule exhaust2, clarsimp simp: w1_pack2_def group_eval upt_4 simp del: bit_distribs horner_sum_simps)
    (intro conjI byte_eqI; simp add: pack_eval bit_horner_sum_bit_iff del: push_bit_Suc horner_sum_simps)

lemma z_group:
  "length c = 2 \<Longrightarrow> bits_to_bytes (concat (map (\<lambda>x. integer_to_bits (GAMMA1 - x) 20) (map (\<lambda>x. GAMMA1 - take_bit 20 (GAMMA1 - x)) c)))
    = z_pack2 (map (\<lambda>x. GAMMA1 - take_bit 20 (GAMMA1 - x)) c)"
  by (drule exhaust2, clarsimp simp: z_pack2_def Let_def uw32_take_bit group_eval simp del: bit_distribs horner_sum_simps)
    (intro conjI byte_eqI; simp add: pack_eval bit_horner_sum_bit_iff del: push_bit_Suc horner_sum_simps)

lemma t1_pack_bits:
  assumes "length p = 256" "list_all t1_ok p"
  shows "simple_bit_pack p (2 ^ 10 - 1) = poly_t1_pack p"
proof -
  have "bits_to_bytes (concat (map (\<lambda>x. integer_to_bits x 10) c)) = t1_pack4 c" if "length c = 4" "list_all t1_ok c" for c
  proof -
    have "map (take_bit 10) c = c" using that(2) by (intro map_take_bit_id) (simp add: t1_ok_def [abs_def])
    with t1_group [OF that(1)] show ?thesis by simp
  qed
  with assms have "bits_to_bytes (concat (map (\<lambda>x. integer_to_bits x 10) p)) = encode_blocks 64 4 t1_pack4 p"
    by (intro bit_string_blocks [where b = 10 and h = 5 and P = t1_ok]) simp_all
  then show ?thesis by (simp add: simple_bit_pack_def bitlens poly_t1_pack_def)
qed

lemma w1_pack_eq_bits:
  assumes "length p = 256" "list_all w1_ok p"
  shows "simple_bit_pack p 15 = poly_w1_pack p"
proof -
  have "bits_to_bytes (concat (map (\<lambda>x. integer_to_bits x 4) c)) = w1_pack2 c" if "length c = 2" "list_all w1_ok c" for c
  proof -
    have "map (take_bit 4) c = c" using that(2) by (intro map_take_bit_id) (simp add: w1_ok_def [abs_def])
    with w1_group [OF that(1)] show ?thesis by simp
  qed
  with assms have "bits_to_bytes (concat (map (\<lambda>x. integer_to_bits x 4) p)) = encode_blocks 128 2 w1_pack2 p"
    by (intro bit_string_blocks [where b = 4 and h = 1 and P = w1_ok]) simp_all
  then show ?thesis by (simp add: simple_bit_pack_def bitlens poly_w1_pack_def)
qed

lemma z_pack_bits:
  assumes "length p = 256" "list_all z_ok p"
  shows "bit_pack p (2 ^ 19 - 1) (2 ^ 19) = poly_z_pack p"
proof -
  have "bits_to_bytes (concat (map (\<lambda>x. integer_to_bits (GAMMA1 - x) 20) c)) = z_pack2 c" if "length c = 2" "list_all z_ok c" for c
  proof -
    have "map (\<lambda>x. GAMMA1 - take_bit 20 (GAMMA1 - x)) c = c" using that(2) by (intro map_offset_id) (auto simp: z_ok_def list_all_iff)
    with z_group [OF that(1)] show ?thesis by simp
  qed
  with assms have "bits_to_bytes (concat (map (\<lambda>x. integer_to_bits (GAMMA1 - x) 20) p)) = encode_blocks 128 2 z_pack2 p"
    by (intro bit_string_blocks [where b = 20 and h = 5 and P = z_ok]) simp_all
  then show ?thesis by (simp add: bit_pack_def bitlens poly_z_pack_def)
qed

text \<open>Unpacking is the inverse on the bytes of \<open>ExpandMask\<close>.\<close>

lemma z_unpack_bits:
  assumes "length v = 640"
  shows "bit_unpack v (2 ^ 19 - 1) (2 ^ 19) = poly_z_unpack v"
proof -
  define p where "p = poly_z_unpack v"
  have v: "length v = 128 * 5" using assms by simp
  have p: "length p = 256" "list_all z_ok p" using zc.decode_length [OF v] zc.decode_range [OF v] by (simp_all add: p_def poly_z_unpack_def)
  have "poly_z_pack p = v" using zc.encode_decode [OF v] by (simp add: p_def poly_z_unpack_def poly_z_pack_def)
  then have pk: "v = bits_to_bytes (concat (map (\<lambda>x. integer_to_bits (GAMMA1 - x) 20) p))"
    using z_pack_bits [OF p] by (simp add: bit_pack_def bitlens)
  have "map (\<lambda>x. integer_to_bits (GAMMA1 - x) 20) p = map (\<lambda>i. integer_to_bits (GAMMA1 - p ! i) 20) [0..<256]"
    using p(1) by (intro nth_equalityI) simp_all
  moreover have "bytes_to_bits v = concat (map (\<lambda>x. integer_to_bits (GAMMA1 - x) 20) p)"
    unfolding pk by (rule bytes_of_bits [where n = 640]) (simp add: length_concat comp_def sum_list_triv p(1))
  ultimately have bits: "bytes_to_bits v = concat (map (\<lambda>i. integer_to_bits (GAMMA1 - p ! i) 20) [0..<256])" by simp
  have "int (2 ^ 19) - bits_to_integer (chunk (i * 20) 20 (bytes_to_bits v)) = p ! i" if i: "i < 256" for i
  proof -
    have c: "chunk (i * 20) 20 (bytes_to_bits v) = integer_to_bits (GAMMA1 - p ! i) 20"
      unfolding bits by (rule chunk_concat_map) (use i in simp_all)
    have "z_ok (p ! i)" using p i by (simp add: list_all_length)
    then have "take_bit 20 (GAMMA1 - p ! i) = GAMMA1 - p ! i" by (intro take_bit_range) (simp_all add: z_ok_def)
    then show ?thesis unfolding c bits_of_integer by simp
  qed
  then have "bit_unpack v (2 ^ 19 - 1) (2 ^ 19) = p" using p(1) by (intro nth_equalityI) (simp_all add: bit_unpack_def bitlens)
  then show ?thesis by (simp add: p_def)
qed

subsection \<open>The hint\<close>

lemma hint_pack_bits:
  assumes "hint_ok h"
  shows "hint_bit_pack h = hint_bytes h"
proof -
  have h: "length h = 8" "length (all_pos h 8) \<le> 75" using assms by (simp_all add: hint_ok_def)
  have rows: "concat (map hint_positions (take m h)) = all_pos h m" if "m \<le> 8" for m
  proof -
    have "map hint_positions (take m h) = map (\<lambda>i. row_pos (h ! i)) [0..<m]"
      using that h(1) by (intro nth_equalityI) (simp_all add: hint_positions_def row_pos_def)
    then show ?thesis by (simp add: all_pos_def)
  qed
  have "concat (map hint_positions h) = all_pos h 8" using rows [of 8] h(1) by simp
  moreover have "map (\<lambda>i. of_nat (length (concat (map hint_positions (take (i + 1) h))))) [0..<8]
      = map (\<lambda>i. of_nat (length (all_pos h (Suc i))) :: byte) [0..<8]"
    using rows by (intro map_cong) (simp_all del: all_pos_Suc)
  ultimately show ?thesis by (simp add: hint_bit_pack_def Let_def hint_bytes_eq [OF h(2)] hint_array_def)
qed

lemma hint_ok_ones: "hint_ok h \<longleftrightarrow> length h = 8 \<and> list_all (\<lambda>p. length p = 256 \<and> set p \<subseteq> {0, 1}) h \<and> ones h \<le> 75"
proof -
  have "ones h = length (all_pos h 8)" if "length h = 8" "list_all hint_poly_ok h"
  proof -
    have "map (\<lambda>p. length (filter (\<lambda>x. x \<noteq> 0) p)) h = map (\<lambda>i. length (row_pos (h ! i))) [0..<8]"
      using that by (intro nth_equalityI) (simp_all add: filter_nonzero_row_pos list_all_length hint_poly_ok_def)
    then show ?thesis by (simp add: ones_def all_pos_def length_concat comp_def)
  qed
  then show ?thesis unfolding hint_ok_def hint_poly_ok_def [abs_def] by auto
qed

end
