(* ===== verification/Fips204_Samplers.thy ===== *)
theory Fips204_Samplers
  imports Fips204_Codec
begin

text \<open>
  The samplers of \<open>poly.c\<close> and \<open>sign.c\<close> are those of FIPS 204 on the same seeds; the matrix sampler is the one that skips two bytes.
\<close>

subsection \<open>Streams\<close>

lemma length_streams [simp]: "length (H256 m n) = n" "length (G128 m n) = n"
  by (simp_all add: H256_def G128_def sh256.length_squeeze sh128.length_squeeze flip: sh256.digest_spec sh128.digest_spec)

lemma stream_prefix: "\<exists>zs. H256 m (n + k) = H256 m n @ zs" "\<exists>zs. G128 m (n + k) = G128 m n @ zs"
  unfolding H256_def G128_def sh256.digest_spec [symmetric] sh128.digest_spec [symmetric] sh256.squeeze_add sh128.squeeze_add by simp_all

definition extends :: "'a list \<Rightarrow> 'a list \<Rightarrow> bool" where
  "extends ys xs \<longleftrightarrow> (\<exists>zs. ys = xs @ zs)"

lemma extendsI [intro]: "extends (xs @ zs) xs"
  by (auto simp: extends_def)

lemma streams_extend: "m \<le> n \<Longrightarrow> extends (H256 seed n) (H256 seed m)" "m \<le> n \<Longrightarrow> extends (G128 seed n) (G128 seed m)"
  using stream_prefix [of seed m "n - m"] by (simp_all add: extends_def)

lemma option_eqI: "(\<And>p. a = Some p \<longleftrightarrow> b = Some p) \<Longrightarrow> a = b"
  by (metis not_Some_eq)

text \<open>An algorithm whose result more bytes do not change.\<close>

definition settled :: "(nat \<Rightarrow> 'a option) \<Rightarrow> bool" where
  "settled f \<longleftrightarrow> (\<forall>m n x. f m = Some x \<longrightarrow> m \<le> n \<longrightarrow> f n = Some x)"

lemma squeeze_until_iff:
  assumes "settled f"
  shows "squeeze_until f = Some x \<longleftrightarrow> (\<exists>n. f n = Some x)"
proof
  assume "\<exists>n. f n = Some x"
  then obtain n where n: "f n = Some x" ..
  then have ex: "f n \<noteq> None" by simp
  let ?m = "LEAST n. f n \<noteq> None"
  have "f ?m \<noteq> None" using LeastI [of "\<lambda>n. f n \<noteq> None", OF ex] .
  then obtain y where y: "f ?m = Some y" by blast
  have "?m \<le> n" using Least_le [of "\<lambda>n. f n \<noteq> None", OF ex] .
  with y n assms have "y = x" unfolding settled_def by (metis option.inject)
  with ex y show "squeeze_until f = Some x" by (auto simp: squeeze_until_def)
qed (auto simp: squeeze_until_def split: if_splits)

lemma first_256_iff: "first_256 cs = Some p \<longleftrightarrow> 256 \<le> length cs \<and> p = take 256 cs"
  by (auto simp: first_256_def)

lemma settled_first_256: "(\<And>m n. m \<le> n \<Longrightarrow> extends (f n) (f m)) \<Longrightarrow> settled (\<lambda>n. first_256 (f n))"
  by (fastforce simp: settled_def first_256_iff extends_def)

lemma sampler_cofinal:
  assumes "\<And>m n. m \<le> n \<Longrightarrow> extends (f n) (f m)" "\<And>n. n \<le> g n"
  shows "squeeze_until (\<lambda>n. first_256 (f n)) = Some p \<longleftrightarrow> (\<exists>k. 256 \<le> length (f (g k)) \<and> p = take 256 (f (g k)))"
proof -
  have s: "settled (\<lambda>n. first_256 (f n))" using assms(1) by (rule settled_first_256)
  then have "(\<exists>n. first_256 (f n) = Some p) \<longleftrightarrow> (\<exists>k. first_256 (f (g k)) = Some p)"
    using assms(2) unfolding settled_def by blast
  then show ?thesis unfolding squeeze_until_iff [OF s] first_256_iff .
qed

subsection \<open>The matrix\<close>

lemma ntt_candidates_eq: "ntt_candidates bs = accept3 bs"
proof (induction bs rule: ntt_candidates.induct)
  case (1 b0 b1 b2 bs)
  let ?b = "if unat b2 > 127 then unat b2 - 128 else unat b2"
  have b: "unat b0 < 256" "unat b1 < 256" "unat b2 < 256" by (rule unat_byte_less)+
  have z: "(int (unat b0) + 256 * int (unat b1) + 65536 * int (unat b2)) mod 2 ^ 23 = int (2 ^ 16 * ?b + 2 ^ 8 * unat b1 + unat b0)"
  proof (cases "unat b2 > 127")
    case True
    define X where "X = 2 ^ 16 * (unat b2 - 128) + 2 ^ 8 * unat b1 + unat b0"
    have "X < 2 ^ 23" using b by (simp add: X_def)
    moreover have "int (unat b0) + 256 * int (unat b1) + 65536 * int (unat b2) = int X + 1 * 2 ^ 23" using True by (simp add: X_def)
    ultimately have "(int (unat b0) + 256 * int (unat b1) + 65536 * int (unat b2)) mod 2 ^ 23 = int X" by simp
    then show ?thesis using True by (simp only: X_def if_True)
  next
    case False
    define X where "X = 2 ^ 16 * unat b2 + 2 ^ 8 * unat b1 + unat b0"
    have "X < 2 ^ 23" using False b by (simp add: X_def)
    moreover have "int (unat b0) + 256 * int (unat b1) + 65536 * int (unat b2) = int X" by (simp add: X_def)
    ultimately have "(int (unat b0) + 256 * int (unat b1) + 65536 * int (unat b2)) mod 2 ^ 23 = int X" by simp
    then show ?thesis using False by (simp only: X_def if_False)
  qed
  show ?case using 1 unfolding ntt_candidates.simps accept3.simps Let_def z coeff_from_three_bytes_def by simp
qed simp_all

lemma accept3_extends: "extends (accept3 (xs @ ys)) (accept3 xs)"
  by (induction xs rule: accept3.induct) (auto simp: extends_def Let_def)

lemma candidates_extend: "extends ys xs \<Longrightarrow> extends (ntt_candidates ys) (ntt_candidates xs)"
  unfolding ntt_candidates_eq using accept3_extends by (auto simp: extends_def)

definition skip_840 :: "byte list \<Rightarrow> byte list" where
  "skip_840 s = take 840 s @ drop 842 s"

lemma skip_extends: "extends ys xs \<Longrightarrow> extends (skip_840 ys) (skip_840 xs)"
proof -
  assume "extends ys xs"
  then obtain zs where ys: "ys = xs @ zs" by (auto simp: extends_def)
  show ?thesis
  proof (cases "length xs \<le> 842")
    case True
    then have "skip_840 xs = take 840 xs" by (simp add: skip_840_def)
    then show ?thesis
      using ys by (cases "length xs \<le> 840") (auto simp: skip_840_def extends_def)
  next
    case False
    then show ?thesis using ys by (auto simp: skip_840_def extends_def)
  qed
qed

lemma nonce_ij: "i < 8 \<Longrightarrow> j < 7 \<Longrightarrow> nonce_bytes (push_bit 8 (of_nat i) + of_nat j) = integer_to_bytes j 1 @ integer_to_bytes i 1"
proof -
  have "list_all (\<lambda>i. list_all (\<lambda>j. nonce_bytes (push_bit 8 (of_nat i) + of_nat j) = integer_to_bytes j 1 @ integer_to_bytes i 1) [0..<7]) [0..<8]"
    by code_simp
  then show "i < 8 \<Longrightarrow> j < 7 \<Longrightarrow> ?thesis" by (simp add: list_all_iff)
qed

lemma matrix_entry_skip:
  assumes "i < 8" "j < 7"
  shows "matrix_entry rho i j = rej_ntt_poly_skip (rho @ integer_to_bytes j 1 @ integer_to_bytes i 1)"
proof -
  let ?seed = "rho @ integer_to_bytes j 1 @ integer_to_bytes i 1"
  let ?f = "\<lambda>n. ntt_candidates (skip_840 (G128 ?seed n))"
  have "matrix_stream rho i j (k * 168) = ?f (842 + k * 168)" for k
    using accept3_append [of "take 840 (G128 ?seed (842 + k * 168))" 280]
    by (simp add: matrix_stream_def Let_def nonce_ij [OF assms] ntt_candidates_eq skip_840_def flip: G128_def)
  moreover have "squeeze_until (\<lambda>n. first_256 (?f n)) = Some p \<longleftrightarrow>
      (\<exists>k. 256 \<le> length (?f (842 + k * 168)) \<and> p = take 256 (?f (842 + k * 168)))" for p
    by (rule sampler_cofinal) (simp_all add: candidates_extend skip_extends streams_extend(2))
  ultimately have "matrix_entry rho i j = Some p \<longleftrightarrow> rej_ntt_poly_skip ?seed = Some p" for p
    unfolding matrix_entry_iff rej_ntt_poly_skip_def Let_def skip_840_def [symmetric] by simp
  then show ?thesis by (rule option_eqI)
qed

lemma rej_ntt_poly_enough:
  assumes "256 \<le> length (ntt_candidates (G128 seed 840))"
  shows "rej_ntt_poly seed = rej_ntt_poly_skip seed"
proof -
  let ?p = "take 256 (ntt_candidates (G128 seed 840))"
  have a: "first_256 (ntt_candidates (G128 seed 840)) = Some ?p" "first_256 (ntt_candidates (skip_840 (G128 seed 840))) = Some ?p"
    using assms by (simp_all add: first_256_iff skip_840_def)
  have "settled (\<lambda>n. first_256 (ntt_candidates (G128 seed n)))" "settled (\<lambda>n. first_256 (ntt_candidates (skip_840 (G128 seed n))))"
    by (rule settled_first_256; simp add: candidates_extend skip_extends streams_extend(2))+
  from squeeze_until_iff [OF this(1), of ?p] squeeze_until_iff [OF this(2), of ?p] a
  have "rej_ntt_poly seed = Some ?p" "squeeze_until (\<lambda>n. first_256 (ntt_candidates (skip_840 (G128 seed n)))) = Some ?p"
    unfolding rej_ntt_poly_def by blast+
  then show ?thesis by (simp add: rej_ntt_poly_skip_def skip_840_def Let_def)
qed

text \<open>The matrix that the device samples, as the argument of the functions of the standard.\<close>

definition mat_of :: "byte list \<Rightarrow> polyvec list" where
  "mat_of rho = map (\<lambda>i. map (mat rho i) [0..<L]) [0..<K]"

lemma mat_of_nth [simp]: "i < 8 \<Longrightarrow> m < 7 \<Longrightarrow> mat_of rho ! i ! m = mat rho i m"
  by (simp add: mat_of_def)

lemma device_A_eq: "device_A rho = (if mat_defined rho then Some (mat_of rho) else None)"
proof -
  have skip: "device_A rho = expand_with rej_ntt_poly_skip rho"
  proof (cases "enough_candidates rho")
    case True
    then have "map (\<lambda>r. those (map (\<lambda>s. rej_ntt_poly (rho @ integer_to_bytes s 1 @ integer_to_bytes r 1)) [0..<7])) [0..<8]
        = map (\<lambda>r. those (map (\<lambda>s. rej_ntt_poly_skip (rho @ integer_to_bytes s 1 @ integer_to_bytes r 1)) [0..<7])) [0..<8]"
      by (intro map_cong refl arg_cong [where f = those] rej_ntt_poly_enough) (auto simp: enough_candidates_def list_all_iff)
    then show ?thesis using True by (simp only: device_A_def expand_A_def expand_with_def if_True)
  qed (simp add: device_A_def)
  have entries: "expand_with rej_ntt_poly_skip rho = those (map (\<lambda>i. those (map (matrix_entry rho i) [0..<7])) [0..<8])"
    unfolding expand_with_def by (intro arg_cong [where f = those] map_cong refl) (simp add: matrix_entry_skip)
  show ?thesis
  proof (cases "mat_defined rho")
    case True
    then have "those (map (matrix_entry rho i) [0..<7]) = Some (map (mat rho i) [0..<7])" if "i < 8" for i
      using that by (auto simp: those_map_Some mat_def mat_defined_def)
    then have "those (map (\<lambda>i. those (map (matrix_entry rho i) [0..<7])) [0..<8]) = Some (mat_of rho)"
      by (simp add: those_map_Some mat_of_def)
    then show ?thesis using True by (simp add: skip entries)
  next
    case False
    then obtain i j where "i < 8" "j < 7" "matrix_entry rho i j = None" by (auto simp: mat_defined_def)
    then have "those (map (\<lambda>i. those (map (matrix_entry rho i) [0..<7])) [0..<8]) = None"
      by (intro not_Some_eq [THEN iffD1] allI notI) (fastforce simp: those_map_Some)
    then show ?thesis using False by (simp add: skip entries)
  qed
qed

subsection \<open>Secrets, masks and challenges\<close>

lemma nonce_of_nat: "nonce_bytes (of_nat x) = integer_to_bytes x 2"
proof -
  have "(ucast (of_nat x :: 16 word) :: byte) = of_nat x"
    by (rule bit_word_eqI) (simp add: bit_simps)
  moreover have "(ucast (drop_bit 8 (of_nat x :: 16 word)) :: byte) = of_nat (x div 256)"
  proof -
    have "x div 256 = drop_bit 8 x" by (simp add: drop_bit_eq_div)
    then show ?thesis by (simp only:) (rule bit_word_eqI, simp add: bit_simps)
  qed
  ultimately show ?thesis by (simp add: nonce_bytes_def integer_to_bytes_def upt_rec)
qed

lemma bounded_candidates_eq: "bounded_candidates bs = accept_eta bs"
  by (simp add: bounded_candidates_def accept_eta_def coeff_from_half_byte_def accept_half_def)

lemma eta_fips: "poly_uniform_eta seed (of_nat x) = rej_bounded_poly (seed @ integer_to_bytes x 2)"
proof -
  let ?f = "\<lambda>n. bounded_candidates (H256 (seed @ integer_to_bytes x 2) n)"
  have "eta_stream seed (of_nat x) n = ?f n" for n
    by (simp add: eta_stream_def bounded_candidates_eq nonce_of_nat H256_def)
  moreover have "squeeze_until (\<lambda>n. first_256 (?f n)) = Some p \<longleftrightarrow>
      (\<exists>k. 256 \<le> length (?f (136 + k * 136)) \<and> p = take 256 (?f (136 + k * 136)))" for p
  proof (rule sampler_cofinal)
    fix m n :: nat assume "m \<le> n"
    from streams_extend(1) [OF this, of "seed @ integer_to_bytes x 2"] show "extends (?f n) (?f m)"
      by (auto simp: extends_def bounded_candidates_eq accept_eta_append)
  qed simp
  ultimately have "poly_uniform_eta seed (of_nat x) = Some p \<longleftrightarrow> rej_bounded_poly (seed @ integer_to_bytes x 2) = Some p" for p
    unfolding poly_uniform_eta_iff rej_bounded_poly_def by simp
  then show ?thesis by (rule option_eqI)
qed

lemma expand_S_eq: "expand_S seed 0 7 = poly_vec_l_uniform_eta seed 0" "expand_S seed 7 8 = poly_vec_k_uniform_eta seed 7"
proof -
  have "poly_uniform_eta seed (7 + of_nat r) = rej_bounded_poly (seed @ integer_to_bytes (7 + r) 2)" for r
    using eta_fips [of seed "7 + r"] by simp
  then show "expand_S seed 0 7 = poly_vec_l_uniform_eta seed 0" "expand_S seed 7 8 = poly_vec_k_uniform_eta seed 7"
    by (simp_all add: expand_S_def poly_vec_l_uniform_eta_def poly_vec_k_uniform_eta_def eta_fips)
qed

lemma mask_fips: "poly_vec_l_uniform_gamma1_volatile seed (of_nat k) = expand_mask seed (7 * k)"
proof -
  have "poly_uniform_gamma1 seed n = poly_z_unpack (H256 (seed @ nonce_bytes n) 640)" for n
  proof -
    let ?c = "shake256_finalize (shake256_absorb (shake256_absorb shake256_init seed) (nonce_bytes n))"
    have "poly_uniform_gamma1 seed n = encode_blocks 128 5 z_unpack2 (fst (shake256_squeeze ?c (640 + 40)))"
      by (simp add: poly_uniform_gamma1_def poly_z_unpack_def case_prod_beta)
    also have "\<dots> = poly_z_unpack (take 640 (fst (shake256_squeeze ?c (640 + 40))))" by (rule z_unpack_prefix)
    also have "take 640 (fst (shake256_squeeze ?c (640 + 40))) = fst (shake256_squeeze ?c 640)"
      unfolding sh256.squeeze_add by (simp add: sh256.length_squeeze)
    also have "\<dots> = H256 (seed @ nonce_bytes n) 640" by (simp only: H256_def sh256.digest_spec flip: sh256.absorb_append)
    finally show ?thesis .
  qed
  moreover have "nonce_bytes (7 * of_nat k + of_nat r) = integer_to_bytes (7 * k + r) 2" for r
    using nonce_of_nat [of "7 * k + r"] by simp
  ultimately show ?thesis
    using z_unpack_bits by (simp add: gamma1_volatile expand_mask_def)
qed

text \<open>\<open>SampleInBall\<close>.\<close>

lemma ball_loop_eq:
  "is = [196 + m..<256] \<Longrightarrow> length s = 8 \<Longrightarrow>
    ball_loop is bs (bytes_to_bits s) c = sample_in_ball is bs (sign_bits s) m c"
proof (induction "is" arbitrary: bs m c)
  case (Cons i "is")
  have m: "m < 60" using Cons.prems(1) by (cases "m < 60") simp_all
  then have "[196 + m..<256] = (196 + m) # [196 + (m + 1)..<256]" by (simp add: upt_conv_Cons)
  then have i: "i = 196 + m" "is = [196 + (m + 1)..<256]" "m < 60" using Cons.prems(1) m by simp_all
  have "bytes_to_bits s ! m = sign_bits s m"
  proof -
    have m8: "m < 64" "m div 8 < 8" using i(3) by simp_all
    have "map (\<lambda>b. integer_to_bits (uint b) 8) s = map (\<lambda>k. integer_to_bits (uint (s ! k)) 8) [0..<8]"
      using Cons.prems(2) by (intro nth_equalityI) simp_all
    then have "bytes_to_bits s ! m = integer_to_bits (uint (s ! (m div 8))) 8 ! (m mod 8)"
      using m8 nth_concat_map_const [of 8 "\<lambda>k. integer_to_bits (uint (s ! k)) 8" 8 m] by (simp add: bytes_to_bits_def)
    then show ?thesis by (simp add: sign_bits_def integer_to_bits_eq bit_uint_byte)
  qed
  moreover have "i + TAU - 256 = m" using i(1) by simp
  moreover have "ball_loop is bs' (bytes_to_bits s) c' = sample_in_ball is bs' (sign_bits s) (m + 1) c'" for bs' c'
    using Cons.IH [of "m + 1"] i(2) Cons.prems(2) by simp
  ultimately show ?case by (simp only: ball_loop.simps sample_in_ball.simps)
qed simp

lemma ball_loop_extends: "ball_loop is bs h c = Some p \<Longrightarrow> ball_loop is (bs @ zs) h c = Some p"
proof (induction "is" arbitrary: bs c)
  case (Cons i "is")
  then obtain j bs' where d: "dropWhile (\<lambda>j. unat j > i) bs = j # bs'" by (auto split: list.splits)
  then have "\<not> (\<forall>x \<in> set bs. unat x > i)" by (metis dropWhile_eq_Nil_conv list.distinct(1))
  with d have "dropWhile (\<lambda>j. unat j > i) (bs @ zs) = j # bs' @ zs" unfolding dropWhile_append by (simp only: if_False append.simps)
  with Cons d show ?case by simp
qed simp

lemma challenge_fips: "fips_challenge seed = poly_challenge_volatile seed"
proof (rule option_eqI)
  fix p
  let ?f = "\<lambda>n. let s = H256 seed (8 + n) in ball_loop [256 - 60..<256] (drop 8 s) (bytes_to_bits (take 8 s)) (replicate 256 0)"
  have "settled ?f"
    unfolding settled_def Let_def
  proof (intro allI impI)
    fix m n x assume a: "ball_loop [256 - 60..<256] (drop 8 (H256 seed (8 + m))) (bytes_to_bits (take 8 (H256 seed (8 + m)))) (replicate 256 0) = Some x" "m \<le> n"
    then obtain zs where z: "H256 seed (8 + n) = H256 seed (8 + m) @ zs" using streams_extend(1) [of "8 + m" "8 + n" seed] by (auto simp: extends_def)
    from ball_loop_extends [OF a(1), of zs]
    show "ball_loop [256 - 60..<256] (drop 8 (H256 seed (8 + n))) (bytes_to_bits (take 8 (H256 seed (8 + n)))) (replicate 256 0) = Some x"
      by (simp add: z)
  qed
  note until = squeeze_until_iff [OF this]
  have code: "?f (128 + k * 136) = sample_in_ball [196..<256] (drop 8 (H256 seed (136 + k * 136))) (sign_bits (H256 seed (136 + k * 136))) 0 (replicate 256 0)" for k
  proof -
    let ?s = "H256 seed (136 + k * 136)"
    have "ball_loop [256 - 60..<256] (drop 8 ?s) (bytes_to_bits (take 8 ?s)) (replicate 256 0)
        = sample_in_ball [196..<256] (drop 8 ?s) (sign_bits (take 8 ?s)) 0 (replicate 256 0)"
    proof -
      have "[256 - 60..<256] = [196 + 0..<(256 :: nat)]" "[196..<256] = [256 - 60..<(256 :: nat)]" by (rule arg_cong2 [where f = upt]; simp)+
      then show ?thesis using ball_loop_eq [of "[256 - 60..<256]" 0 "take 8 ?s"] by simp
    qed
    also have "\<dots> = sample_in_ball [196..<256] (drop 8 ?s) (sign_bits ?s) 0 (replicate 256 0)"
      by (rule sample_in_ball_cong) (simp_all add: sign_bits_def less_mult_imp_div_less)
    finally show ?thesis by (simp add: Let_def)
  qed
  have "(\<exists>n. ?f n = Some p) \<longleftrightarrow> (\<exists>k. ?f (128 + k * 136) = Some p)"
  proof
    assume "\<exists>n. ?f n = Some p"
    then obtain n where "?f n = Some p" ..
    moreover have "n \<le> 128 + n * 136" by simp
    ultimately show "\<exists>k. ?f (128 + k * 136) = Some p" using \<open>settled ?f\<close> unfolding settled_def by blast
  qed blast
  also have "\<dots> \<longleftrightarrow> poly_challenge_volatile seed = Some p" unfolding challenge_iff code by (simp only: Let_def H256_def)
  finally show "fips_challenge seed = Some p \<longleftrightarrow> poly_challenge_volatile seed = Some p"
    using until [of p] unfolding fips_challenge_def by (rule trans [rotated])
qed

end
