(* ===== verification/Fips204.thy ===== *)
theory Fips204
  imports Fips204_Samplers Sign_State Address
begin

text \<open>
  Key generation and verification of \<open>sign.c\<close> are algorithms 6 and 8 of \<open>Fips204_Spec\<close>, with the encoders of \<open>Fips204_Codec\<close> and the
  samplers of \<open>Fips204_Samplers\<close>.
\<close>

subsection \<open>Ring arithmetic and values\<close>

lemma residues_rq: "length p = 256 \<Longrightarrow> residues (rq p)"
  by (simp add: residues_def rq_def list_all_iff)

lemma ev_rq: "length p = 256 \<Longrightarrow> eqm (ev (rq p) k) (ev p k)"
  unfolding rq_def by (rule ev_mod)

lemma length_nega_mul [simp]: "length (nega_mul a b) = 256"
  by (simp add: nega_mul_def)

lemma rq_mul_ev: "residues (rq_mul a b)" "k < 256 \<Longrightarrow> eqm (ev (rq_mul a b) k) (ev a k * ev b k)"
proof -
  show "residues (rq_mul a b)" unfolding rq_mul_def by (rule residues_rq) simp
  assume "k < 256"
  from nega_mul_eval [OF root_256 [OF this], of a b] show "eqm (ev (rq_mul a b) k) (ev a k * ev b k)"
    unfolding rq_mul_def ev_def [symmetric] by (rule eqm_trans [OF ev_rq, rotated]) simp
qed

lemma residues_ev_eq: "residues a \<Longrightarrow> residues b \<Longrightarrow> (\<And>k. k < 256 \<Longrightarrow> eqm (ev a k) (ev b k)) \<Longrightarrow> a = b"
  using residues_by_values [of a "pmap (ev b)"] residues_by_values [of b "pmap (ev b)"] by simp

lemma fips_az_ev:
  "residues (fips_az A v i)"
  "i < 8 \<Longrightarrow> k < 256 \<Longrightarrow> eqm (ev (fips_az (mat_of rho) v i) k) (\<Sum>m<7. mat rho i m ! k * ev (v ! m) k)"
proof -
  show "residues (fips_az A v i)" unfolding fips_az_def by (rule residues_fips(2))
  assume i: "i < 8" and k: "k < 256"
  have "eqm (\<Sum>m<7. mat rho i m ! k * fips_ntt (v ! m) ! k) (\<Sum>m<7. mat rho i m ! k * ev (v ! m) k)"
    by (intro eqm_sum eqm_mult ev_fips_ntt eqm_refl k)
  moreover have "eqm (ev (fips_az (mat_of rho) v i) k) (\<Sum>m<7. mat rho i m ! k * fips_ntt (v ! m) ! k)"
    using ev_fips_inv [OF k, of "pmap (\<lambda>k. \<Sum>m<7. mat_of rho ! i ! m ! k * fips_ntt (v ! m) ! k)"] i by (simp add: k fips_az_def)
  ultimately show "eqm (ev (fips_az (mat_of rho) v i) k) (\<Sum>m<7. mat rho i m ! k * ev (v ! m) k)" by (rule eqm_trans [rotated])
qed

lemma rq_sum_ev:
  assumes "residues a" "length b = 256"
  shows "residues (rq (map2 (+) a b))" "eqm (ev (rq (map2 (+) a b)) k) (ev a k + ev b k)"
    "residues (rq (map2 (-) a b))" "eqm (ev (rq (map2 (-) a b)) k) (ev a k - ev b k)"
proof -
  note len = residuesD(1) [OF assms(1)] assms(2)
  show "residues (rq (map2 (+) a b))" "residues (rq (map2 (-) a b))" using len by (auto intro!: residues_rq)
  show "eqm (ev (rq (map2 (+) a b)) k) (ev a k + ev b k)" using ev_rq [of "map2 (+) a b" k] len by (simp add: ev_add)
  show "eqm (ev (rq (map2 (-) a b)) k) (ev a k - ev b k)" using ev_rq [of "map2 (-) a b" k] len by (simp add: ev_map2)
qed

subsection \<open>Key generation\<close>

lemma public_t_fips:
  assumes "public_t rho (map ntt s1) s2 told = Some t" "length s1 = 7" "\<And>j. j < 7 \<Longrightarrow> bounded 3 (s1 ! j)"
    "length s2 = 8" "\<And>j. j < 8 \<Longrightarrow> bounded 3 (s2 ! j)"
  shows "t = fips_t (mat_of rho) s1 s2" "mat_defined rho"
proof -
  have r: "mat_defined rho" "length t = 8" "\<And>i. i < 8 \<Longrightarrow> residues (t ! i)"
    "\<And>i k. i < 8 \<Longrightarrow> k < 256 \<Longrightarrow> eqm (ev (t ! i) k) ((\<Sum>m<7. mat rho i m ! k * ev (s1 ! m) k) + ev (s2 ! i) k)"
    using public_t_row [OF assms(1,2) _ assms(4)] assms(3,5) by blast+
  show "mat_defined rho" by (rule r(1))
  show "t = fips_t (mat_of rho) s1 s2"
  proof (rule nth_equalityI)
    show "length t = length (fips_t (mat_of rho) s1 s2)" using r(2) by (simp add: fips_t_def)
    fix i assume "i < length t"
    then have i: "i < 8" using r(2) by simp
    note s = rq_sum_ev [OF fips_az_ev(1) bounded_length [OF assms(5) [OF i]], of "mat_of rho" s1 i]
    have "t ! i = rq (map2 (+) (fips_az (mat_of rho) s1 i) (s2 ! i))"
    proof (rule residues_ev_eq [OF r(3) [OF i] s(1)])
      fix k :: nat assume k: "k < 256"
      have "eqm (ev (fips_az (mat_of rho) s1 i) k + ev (s2 ! i) k) ((\<Sum>m<7. mat rho i m ! k * ev (s1 ! m) k) + ev (s2 ! i) k)"
        by (intro eqm_add fips_az_ev(2) eqm_refl i k)
      from eqm_trans [OF s(2) this] show "eqm (ev (t ! i) k) (ev (rq (map2 (+) (fips_az (mat_of rho) s1 i) (s2 ! i))) k)"
        using r(4) [OF i k] eqm_sym eqm_trans by blast
    qed
    then show "t ! i = fips_t (mat_of rho) s1 s2 ! i" using i by (simp add: fips_t_def)
  qed
qed

text \<open>The hash, and the expansion of the seed.\<close>

lemma shake256_of_H: "shake256_of parts n = H256 (concat parts) n"
  unfolding shake256_of_def H256_def by (simp flip: sh256.absorb_concat add: sh256.digest_spec)

lemma expand_seed_fips: "expand_seed xi = fips_expand_seed xi"
proof -
  have n: "integer_to_bytes 8 1 @ integer_to_bytes 7 1 = [8, 7]" by (simp add: integer_to_bytes_def)
  let ?c = "shake256_finalize (shake256_absorb (shake256_absorb shake256_init xi) [8, 7])"
  have "H256 (xi @ [8, 7]) (32 + (64 + 32)) = fst (shake256_squeeze ?c (32 + (64 + 32)))"
    by (simp only: H256_def sh256.digest_spec flip: sh256.absorb_append)
  then have "H256 (xi @ [8, 7]) 128 = fst (shake256_squeeze ?c (32 + (64 + 32)))" by simp
  then show ?thesis
    by (simp only: sh256.squeeze_add fips_expand_seed_def n expand_seed_def Let_def)
      (simp add: chunk_def sh256.length_squeeze case_prod_beta)
qed

lemma keygen_iff:
  "fips_keygen device_A xi = Some (rho, key, A, s1, s2, t) \<longleftrightarrow> A = mat_of rho \<and> (\<exists>rhoPrime. expand_seed xi = (rho, rhoPrime, key)
     \<and> poly_vec_l_uniform_eta rhoPrime 0 = Some s1 \<and> poly_vec_k_uniform_eta rhoPrime 7 = Some s2 \<and> public_t rho (map ntt s1) s2 told = Some t)"
proof -
  have key: "public_t rho (map ntt s1) s2 told = (if mat_defined rho then Some (fips_t (mat_of rho) s1 s2) else None)"
    if "poly_vec_l_uniform_eta rhoPrime 0 = Some s1" "poly_vec_k_uniform_eta rhoPrime 7 = Some s2" for rho rhoPrime s1 s2
  proof -
    note s = uniform_eta_vec(1) [OF that(1)] uniform_eta_vec(2) [OF that(2)]
    show ?thesis
    proof (cases "public_t rho (map ntt s1) s2 told")
      case None
      then have "combined_method told (map ntt s1) rho = None" by (simp add: public_t_def Let_def split: bind_splits)
      then show ?thesis using None mat_defined_combined [of rho told "map ntt s1"] by auto
    next
      case (Some t')
      from public_t_fips [OF Some] s show ?thesis using Some by (simp add: list_all_length)
    qed
  qed
  obtain r r' k where e: "fips_expand_seed xi = (r, r', k)" by (cases "fips_expand_seed xi")
  have gen: "fips_keygen device_A xi = Some (rho, key, A, s1, s2, t) \<longleftrightarrow> r = rho \<and> k = key \<and> mat_defined r \<and> A = mat_of r
      \<and> poly_vec_l_uniform_eta r' 0 = Some s1 \<and> poly_vec_k_uniform_eta r' 7 = Some s2 \<and> t = fips_t A s1 s2"
    by (auto simp: fips_keygen_def e expand_S_eq device_A_eq Option.bind_eq_Some_conv)
  show ?thesis
  proof
    assume "fips_keygen device_A xi = Some (rho, key, A, s1, s2, t)"
    then show "A = mat_of rho \<and> (\<exists>rhoPrime. expand_seed xi = (rho, rhoPrime, key) \<and> poly_vec_l_uniform_eta rhoPrime 0 = Some s1
      \<and> poly_vec_k_uniform_eta rhoPrime 7 = Some s2 \<and> public_t rho (map ntt s1) s2 told = Some t)"
      using key [of r' s1 s2 rho] unfolding gen by (auto simp: expand_seed_fips e)
  next
    assume "A = mat_of rho \<and> (\<exists>rhoPrime. expand_seed xi = (rho, rhoPrime, key) \<and> poly_vec_l_uniform_eta rhoPrime 0 = Some s1
      \<and> poly_vec_k_uniform_eta rhoPrime 7 = Some s2 \<and> public_t rho (map ntt s1) s2 told = Some t)"
    then have *: "A = mat_of rho" "poly_vec_l_uniform_eta r' 0 = Some s1" "poly_vec_k_uniform_eta r' 7 = Some s2" "r = rho" "k = key"
      and t: "public_t rho (map ntt s1) s2 told = Some t"
      by (auto simp: expand_seed_fips e)
    from t have "mat_defined rho" "fips_t (mat_of rho) s1 s2 = t" unfolding key [OF *(2,3)] by (simp_all split: if_splits)
    with * show "fips_keygen device_A xi = Some (rho, key, A, s1, s2, t)" unfolding gen by simp
  qed
qed

lemma fips_t1_eq: "list_all residues t \<Longrightarrow> t1_of t = fips_t1 t" "list_all residues t \<Longrightarrow> t0_of t = fips_t0 t"
  by (auto simp: t1_of_def fips_t1_def t0_of_def fips_t0_def list_all_iff residues_def power2_round_fips)

lemma fips_t_residues: "length s2 = 8 \<Longrightarrow> list_all (\<lambda>p. length p = 256) s2 \<Longrightarrow> list_all residues (fips_t (mat_of rho) s1 s2)"
  by (simp add: fips_t_def list_all_length rq_sum_ev(1) [OF fips_az_ev(1)])

lemma signing_key_residues: "signing_key derive path rho key s1 s2 t \<Longrightarrow> mat_defined rho \<and> list_all residues t"
proof -
  assume "signing_key derive path rho key s1 s2 t"
  then obtain rhoPrime where k: "poly_vec_l_uniform_eta rhoPrime 0 = Some s1" "poly_vec_k_uniform_eta rhoPrime 7 = Some s2"
    "public_t rho (map ntt s1) s2 [] = Some t" by (auto simp: signing_key_def)
  note s = uniform_eta_vec(1) [OF k(1)] uniform_eta_vec(2) [OF k(2)]
  have "t = fips_t (mat_of rho) s1 s2" "mat_defined rho" using public_t_fips [OF k(3)] s by (simp_all add: list_all_length)
  moreover have "list_all residues (fips_t (mat_of rho) s1 s2)" using s by (intro fips_t_residues) (auto simp: list_all_iff bounded_length)
  ultimately show ?thesis by simp
qed

text \<open>The values that are packed are in the range of their format.\<close>

lemma pack_pk_fips:
  assumes "list_all residues t"
  shows "concat (map (\<lambda>p. simple_bit_pack p (2 ^ 10 - 1)) (fips_t1 t)) = concat (map poly_t1_pack (fips_t1 t))"
proof -
  have "simple_bit_pack p (2 ^ 10 - 1) = poly_t1_pack p" if p: "p \<in> set (fips_t1 t)" for p
  proof -
    obtain q where q: "q \<in> set t" "p = map (\<lambda>x. fst (fips_power2round x)) q" using p by (auto simp: fips_t1_def)
    then have "residues q" using assms by (simp add: list_all_iff)
    then have "\<forall>x \<in> set q. 0 \<le> x \<and> x < 8380417" "length q = 256" by (auto simp: residues_def list_all_iff)
    then have "list_all t1_ok p" "length p = 256"
      using power2_round_split(2,3) by (fastforce simp: q(2) list_all_iff t1_ok_def simp flip: power2_round_fips)+
    then show ?thesis by (intro t1_pack_bits)
  qed
  then show ?thesis by (intro arg_cong [where f = concat] map_cong refl)
qed

lemma w1_encode_eq:
  assumes "length w = 8" "\<And>p. p \<in> set w \<Longrightarrow> length p = 256 \<and> list_all w1_ok p"
  shows "w1_bytes w = fips_w1_encode w"
proof -
  have "map (\<lambda>i. poly_w1_pack (w ! i)) [0..<8] = map (\<lambda>p. simple_bit_pack p 15) w"
    using assms by (intro nth_equalityI) (simp_all add: w1_pack_eq_bits)
  then show ?thesis by (simp add: w1_bytes_def fips_w1_encode_def)
qed

lemma fips_high_ok: "list_all residues v \<Longrightarrow> p \<in> set (fips_high v) \<Longrightarrow> length p = 256 \<and> list_all w1_ok p"
proof -
  assume "list_all residues v" "p \<in> set (fips_high v)"
  then obtain q where q: "p = map (\<lambda>x. fst (fips_decompose x)) q" "length q = 256" "\<forall>x \<in> set q. 0 \<le> x \<and> x < 8380417"
    by (auto simp: fips_high_def residues_def list_all_iff)
  then show ?thesis using fst_decompose_range by (auto simp: list_all_iff w1_ok_def simp flip: decompose_fips)
qed

lemma use_hint_ok: "0 \<le> r \<Longrightarrow> r < 8380417 \<Longrightarrow> w1_ok (fips_use_hint b r)"
  using fst_decompose_range(1,2) [of r] by (auto simp: fips_use_hint_def w1_ok_def decompose_fips split: prod.splits)

lemma hinted_ok:
  assumes "list_all hint_poly_ok h" "list_all residues u" "p \<in> set (map2 (map2 (\<lambda>hb r. fips_use_hint (hb \<noteq> 0) r)) h u)"
  shows "length p = 256 \<and> list_all w1_ok p"
proof -
  obtain a b where ab: "(a, b) \<in> set (zip h u)" "p = map2 (\<lambda>hb r. fips_use_hint (hb \<noteq> 0) r) a b" using assms(3) by auto
  then have "hint_poly_ok a" "residues b" using assms(1,2) by (auto simp: list_all_iff dest: set_zip_leftD set_zip_rightD)
  moreover from this(2) have "w1_ok (fips_use_hint x y)" if "y \<in> set b" for x y
    using that use_hint_ok by (simp add: residues_def list_all_iff)
  ultimately show ?thesis by (auto simp: ab(2) hint_poly_ok_def residues_def list_all_iff dest: set_zip_rightD)
qed

text \<open>A key of the standard is one of the model.\<close>

lemma keygenD:
  assumes "fips_keygen device_A xi = Some (rho, key, A, s1, s2, t)"
  shows "derive path = Inr raw \<Longrightarrow> xi = take 32 raw \<Longrightarrow> signing_key derive path rho key s1 s2 t"
    "t1_of t = fips_t1 t" "t0_of t = fips_t0 t" "pk_of rho t = fips_pk rho (fips_t1 t)" "t = fips_t (mat_of rho) s1 s2" "length t = 8"
    "A = mat_of rho"
proof -
  show "A = mat_of rho" using assms unfolding keygen_iff [where told = "[]"] by blast
  obtain rhoPrime where k: "expand_seed xi = (rho, rhoPrime, key)" "poly_vec_l_uniform_eta rhoPrime 0 = Some s1"
    "poly_vec_k_uniform_eta rhoPrime 7 = Some s2" "public_t rho (map ntt s1) s2 [] = Some t"
    using assms unfolding keygen_iff [where told = "[]"] by blast
  then show "derive path = Inr raw \<Longrightarrow> xi = take 32 raw \<Longrightarrow> signing_key derive path rho key s1 s2 t"
    unfolding signing_key_def by auto
  note s = uniform_eta_vec(1) [OF k(2)] uniform_eta_vec(2) [OF k(3)]
  show t: "t = fips_t (mat_of rho) s1 s2" using public_t_fips(1) [OF k(4)] s by (simp add: list_all_length)
  then show len: "length t = 8" by (simp add: fips_t_def)
  have res: "list_all residues t" unfolding t by (rule fips_t_residues) (use s in \<open>auto simp: list_all_iff bounded_length\<close>)
  then show t1: "t1_of t = fips_t1 t" "t0_of t = fips_t0 t" using res by (simp_all add: fips_t1_eq)
  have "length (fips_t1 t) = 8" using len by (simp add: fips_t1_def)
  then have "map poly_t1_pack (fips_t1 t) = map (\<lambda>b. poly_t1_pack (fips_t1 t ! b)) [0..<8]" by (intro nth_equalityI) simp_all
  then show "pk_of rho t = fips_pk rho (fips_t1 t)" by (simp add: pk_of_def fips_pk_def t1 pack_pk_fips [OF res, simplified])
qed

lemma keypair_fips:
  assumes "nvm_ok s"
  shows "map_option (\<lambda>s'. (nv_pk s', nv_t1 s')) (crypto_sign_keypair xi s)
    = map_option (\<lambda>(rho, key, A, s1, s2, t). (fips_pk rho (fips_t1 t), fips_t1 t)) (fips_keygen device_A xi)"
proof (cases "fips_keygen device_A xi")
  case None
  have "crypto_sign_keypair xi s = None"
  proof (rule ccontr)
    assume "crypto_sign_keypair xi s \<noteq> None"
    then obtain rho rhoPrime key s1 s2 t where "expand_seed xi = (rho, rhoPrime, key)" "poly_vec_l_uniform_eta rhoPrime 0 = Some s1"
      "poly_vec_k_uniform_eta rhoPrime 7 = Some s2" "public_t rho (map ntt s1) s2 [] = Some t"
      using assms by (auto simp: crypto_sign_keypair_eq nvm_ok_def Option.bind_eq_Some_conv split: prod.splits)
    then have "fips_keygen device_A xi = Some (rho, key, mat_of rho, s1, s2, t)" unfolding keygen_iff [where told = "[]"] by blast
    with None show False by simp
  qed
  with None show ?thesis by simp
next
  case (Some x)
  obtain rho key A s1 s2 t where x: "x = (rho, key, A, s1, s2, t)" by (cases x)
  note k = keygenD [OF Some [unfolded x]]
  from Some [unfolded x] assms have "crypto_sign_keypair xi s = Some (s\<lparr>nv_t1 := t1_of t, nv_pk := pk_of rho t\<rparr>)"
    unfolding keygen_iff [where told = "[]"] by (auto simp: crypto_sign_keypair_eq nvm_ok_def)
  then show ?thesis using Some x k by simp
qed

text \<open>With the matrix of the device the key generation is the one with \<open>ExpandA\<close>, if the first 280 candidates of every entry are enough.\<close>

lemma keygen_standard: "enough_candidates (fst (fips_expand_seed xi)) \<Longrightarrow> fips_keygen device_A xi = fips_keygen expand_A xi"
  by (cases "fips_expand_seed xi") (simp add: fips_keygen_def device_A_def)

text \<open>
  C6.  \<open>crypto_sign_keypair\<close> is the key generation of \<open>Fips204_Spec\<close> (FIPS 204, algorithm 6 with \<open>pkEncode\<close>), which is written from the
  standard: from every seed it stores the encoded public key and the vector \<open>t1\<close>, where \<open>t = A s1 + s2\<close> is computed in the ring, and it
  returns whenever the samplers do.  The matrix is \<open>ExpandA\<close> of the standard if every entry finds its 256 coefficients among its first 280
  candidates; the code skips bytes 840 and 841 of the stream of an entry that does not, and \<open>device_A\<close> says what it computes then.
\<close>

theorem keygen_is_fips204:
  assumes "nvm_ok s"
  shows "map_option (\<lambda>s'. (nv_pk s', nv_t1 s')) (crypto_sign_keypair xi s)
      = map_option (\<lambda>(rho, key, A, s1, s2, t). (fips_pk rho (fips_t1 t), fips_t1 t)) (fips_keygen device_A xi)
    \<and> (if enough_candidates (fst (fips_expand_seed xi)) then fips_keygen device_A xi = fips_keygen expand_A xi else True)"
  using keypair_fips [OF assms] keygen_standard by simp

theorem keygen_is_fips204_witness:
  "map_option (\<lambda>s'. (nv_pk s', nv_t1 s')) (crypto_sign_keypair (replicate 32 5) nvm_fresh)
    = map_option (\<lambda>(rho, key, A, s1, s2, t). (fips_pk rho (fips_t1 t), fips_t1 t)) (fips_keygen device_A (replicate 32 5))"
  by (rule keygen_is_fips204 [OF nvm_fresh_ok, THEN conjunct1])

subsection \<open>Verification\<close>

lemma z_bounded: "z_vec_ok z \<Longrightarrow> j < 7 \<Longrightarrow> bounded 524289 (z ! j)"
proof (rule boundedI)
  assume "z_vec_ok z" "j < 7"
  then have z: "length (z ! j) = 256" "list_all z_ok (z ! j)" by (simp_all add: z_vec_ok_def list_all_length)
  then show "length (z ! j) = 256" by blast
  show "\<bar>z ! j ! i\<bar> < 524289" if "i < 256" for i
  proof -
    have "z_ok (z ! j ! i)" using z that by (simp add: list_all_length)
    then show ?thesis unfolding z_ok_def abs_less_iff by linarith
  qed
qed

text \<open>One row of the vector that the verifier computes is the row of \<open>A z - c t1 2^d\<close>.\<close>

lemma verify_row:
  assumes "combined_method told (map ntt z) rho = Some rv" "z_vec_ok z" "bounded 2 cp" "residues p" "i < 8"
  defines "p1 \<equiv> map (\<lambda>a. fst (power2_round a)) p"
  shows "map c_addq (inv_ntt_to_mont (map reduce_32 (map2 (\<lambda>x y. i32 (x - y)) (rv ! i) (cmul cp (map (\<lambda>x. i32 (push_bit 13 x)) p1)))))
    = rq (map2 (-) (fips_az (mat_of rho) z i) (rq_mul cp (map (\<lambda>x. x * 8192) p1)))"
proof -
  have z: "length z = 7" "\<And>j. j < 7 \<Longrightarrow> bounded 524289 (z ! j)" using assms(2) z_bounded by (auto simp: z_vec_ok_def)
  have n: "bounded (524289 + 67043336) (map ntt z ! j)" if "j < 7" for j using ntt_bounds [OF z(2) [OF that]] z(1) that by simp
  note c = combined_correct [OF assms(1) n, simplified]
  note P = power2_round_row [OF assms(4), folded p1_def]
  have AZ: "\<forall>k < 256. eqm (4294967296 * rv ! i ! k) (\<Sum>m<7. mat rho i m ! k * ev (z ! m) k)"
  proof (intro allI impI)
    fix k :: nat assume k: "k < 256"
    have "eqm (\<Sum>m<7. mat rho i m ! k * map ntt z ! m ! k) (\<Sum>m<7. mat rho i m ! k * ev (z ! m) k)"
      by (intro eqm_sum eqm_mult eqm_refl) (simp add: z(1) ntt_ev [OF z(2) _ k])
    then show "eqm (4294967296 * rv ! i ! k) (\<Sum>m<7. mat rho i m ! k * ev (z ! m) k)" using c(3) [OF assms(5) k] by (rule eqm_trans [rotated])
  qed
  have rv: "bounded (7 * 8380417) (rv ! i)" using c(2) [OF assms(5)] by simp
  note V = verifier_value [OF assms(3) P(3) rv AZ]
  note S = rq_sum_ev [OF fips_az_ev(1) residuesD(1) [OF rq_mul_ev(1)], of "mat_of rho" z i cp "map (\<lambda>x. x * 8192) p1"]
  show ?thesis unfolding P(2)
  proof (rule residues_ev_eq [OF V(1) S(3)])
    fix k :: nat assume k: "k < 256"
    have "eqm (ev (fips_az (mat_of rho) z i) k - ev (rq_mul cp (map (\<lambda>x. x * 8192) p1)) k)
        ((\<Sum>m<7. mat rho i m ! k * ev (z ! m) k) - ev cp k * ev (map (\<lambda>x. x * 8192) p1) k)"
      by (intro eqm_diff fips_az_ev(2) rq_mul_ev(2) assms(5) k)
    from eqm_trans [OF V(2) [OF k] eqm_sym [OF eqm_trans [OF S(4) this]]]
    show "eqm (ev (map c_addq (inv_ntt_to_mont (map reduce_32 (map2 (\<lambda>x y. i32 (x - y)) (rv ! i) (cmul cp (map (\<lambda>x. x * 8192) p1)))))) k)
        (ev (rq (map2 (-) (fips_az (mat_of rho) z i) (rq_mul cp (map (\<lambda>x. x * 8192) p1)))) k)" .
  qed
qed

lemma recover_fips:
  assumes "combined_method told (map ntt z) rho = Some rv" "z_vec_ok z" "bounded 2 cp" "list_all residues t" "length t = 8" "hint_ok h"
  shows "recover rv cp (t1_of t) h = map2 (map2 (\<lambda>hb r. fips_use_hint (hb \<noteq> 0) r)) h
    (map (\<lambda>i. rq (map2 (-) (fips_az (mat_of rho) z i) (rq_mul cp (map (\<lambda>x. x * 2 ^ D) (fips_t1 t ! i))))) [0..<K])"
proof (rule nth_equalityI)
  have len: "length rv = 8" "length h = 8" using assms(1,6) by (auto simp: combined_method_def those_map_Some hint_ok_def)
  then show "length (recover rv cp (t1_of t) h) = length (map2 (map2 (\<lambda>hb r. fips_use_hint (hb \<noteq> 0) r)) h
    (map (\<lambda>i. rq (map2 (-) (fips_az (mat_of rho) z i) (rq_mul cp (map (\<lambda>x. x * 2 ^ D) (fips_t1 t ! i))))) [0..<K]))"
    using assms(5) by (simp add: recover_def commit_def vsub_def t1_of_def)
  fix i assume "i < length (recover rv cp (t1_of t) h)"
  then have i: "i < 8" using len assms(5) by (simp add: recover_def commit_def vsub_def t1_of_def)
  have ti: "residues (t ! i)" using assms(4,5) i by (simp add: list_all_length)
  let ?u = "rq (map2 (-) (fips_az (mat_of rho) z i) (rq_mul cp (map (\<lambda>x. x * 8192) (fips_t1 t ! i))))"
  have t1: "fips_t1 t ! i = map (\<lambda>a. fst (power2_round a)) (t ! i)" using i assms(5) by (simp add: t1_of_def flip: fips_t1_eq(1) [OF assms(4)])
  note S = rq_sum_ev(3) [OF fips_az_ev(1) residuesD(1) [OF rq_mul_ev(1)], of "mat_of rho" z i cp "map (\<lambda>x. x * 8192) (fips_t1 t ! i)"]
  have hi: "length (h ! i) = 256" "set (h ! i) \<subseteq> {0, 1}" using assms(6) i len by (auto simp: hint_ok_def hint_poly_ok_def list_all_length)
  have "recover rv cp (t1_of t) h ! i = map2 use_hint ?u (h ! i)"
    using verify_row [OF assms(1-3) ti i] i len assms(5) by (simp add: recover_def commit_def vsub_def t1_of_def t1)
  also have "\<dots> = map2 (\<lambda>hb r. fips_use_hint (hb \<noteq> 0) r) (h ! i) ?u"
  proof (rule nth_equalityI)
    fix k assume "k < length (map2 use_hint ?u (h ! i))"
    then have k: "k < 256" using hi(1) by simp
    then have "h ! i ! k \<in> {0, 1}" using hi by (metis nth_mem subsetD)
    then have "use_hint (?u ! k) (h ! i ! k) = fips_use_hint (h ! i ! k \<noteq> 0) (?u ! k)"
      using residuesD(2,3) [OF S k] by (intro use_hint_eq) auto
    then show "map2 use_hint ?u (h ! i) ! k = map2 (\<lambda>hb r. fips_use_hint (hb \<noteq> 0) r) (h ! i) ?u ! k"
      using k hi(1) residuesD(1) [OF S] by simp
  qed (simp add: hi(1) residuesD(1) [OF S])
  finally show "recover rv cp (t1_of t) h ! i = map2 (map2 (\<lambda>hb r. fips_use_hint (hb \<noteq> 0) r)) h
    (map (\<lambda>i. rq (map2 (-) (fips_az (mat_of rho) z i) (rq_mul cp (map (\<lambda>x. x * 2 ^ D) (fips_t1 t ! i))))) [0..<K]) ! i"
    using i len by simp
qed

text \<open>The norm check on decoded responses.\<close>

lemma mod_pm_small: "2 * \<bar>x\<bar> < m \<Longrightarrow> mod_pm x m = x"
  by (rule mod_pm_unique [of _ 0]) (simp_all add: abs_less_iff)

lemma chk_norm_z:
  assumes "z_vec_ok z"
  shows "chk_norm_vec z 524168 = 0 \<longleftrightarrow> norm_less (GAMMA1 - BETA) z"
proof -
  have "poly_chk_norm p 524168 = 0 \<longleftrightarrow> list_all (\<lambda>x. \<bar>mod_pm x 8380417\<bar> < 524168) p" if p: "p \<in> set z" for p
  proof -
    obtain j where j: "j < length z" "z ! j = p" using p unfolding in_set_conv_nth by blast
    then have "j < 7" using assms by (simp add: z_vec_ok_def)
    then have b: "bounded 524289 p" using z_bounded [OF assms] j(2) by blast
    have "mod_pm x 8380417 = x" if "x \<in> set p" for x
      using b that by (intro mod_pm_small) (auto simp: bounded_def list_all_iff)
    then have "list_all (\<lambda>x. \<bar>mod_pm x 8380417\<bar> < 524168) p = list_all (\<lambda>x. \<bar>x\<bar> < 524168) p" by (simp add: list_all_iff)
    then show ?thesis using poly_chk_norm_eq [OF bounded_mono [OF b], of 524168] by simp
  qed
  then show ?thesis by (simp add: chk_norm_vec_0 norm_less_def list_all_iff)
qed

lemma verify_result:
  assumes "signing_key derive path rho key s1 s2 t" "message \<noteq> []" "length sig = 4627" "nvm_ok s" "unpack_sig_volatile sig (nv_h s) = (c, z, h, bad)"
  shows "map_option snd (crypto_verify_optimized derive path sig message s) =
    (if bad \<noteq> 0 \<or> chk_norm_vec z 524168 \<noteq> 0 then Some (Code ERR_NONE, False)
     else map_option (\<lambda>cp. (Code ERR_NONE, c = shake256_of [mu_of (pk_of rho t) message,
       w1_bytes (recover (the (combined_method (nv_w1 s) (map ntt z) rho)) cp (t1_of t) h)] 64)) (poly_challenge_volatile c))"
proof -
  note sk = signing_key_ok [OF assms(1)]
  from assms(1) obtain raw rhoPrime where x: "derive path = Inr raw" "expand_seed (take 32 raw) = (rho, rhoPrime, key)"
    "poly_vec_l_uniform_eta rhoPrime 0 = Some s1" "poly_vec_k_uniform_eta rhoPrime 7 = Some s2"
    and t: "public_t rho (map ntt s1) s2 (nv_t1 s) = Some t"
    using public_t_old [of rho "map ntt s1" s2 "[]" "nv_t1 s"] by (auto simp: signing_key_def)
  have "mat_defined rho" using t by (auto simp: public_t_def Option.bind_eq_Some_conv dest: combined_method_defined)
  from mat_defined_combined [OF this] obtain rv where rv: "combined_method (nv_w1 s) (map ntt z) rho = Some rv" by blast
  have ok: "length (nv_pk s) = 2592" using assms(4) by (simp add: nvm_ok_def)
  have ne: "sig \<noteq> []" using assms(3) by auto
  have t0: "t0_of t \<noteq> []" using sk(3) by (auto simp: t0_of_def polyvec_ok_def)
  have buf: "take 1024 (buf_verify (store_buf_verify (poly_vec_k_pack_w1_volatile_verify w1 (buf_verify (t0_of t))) (t0_of t))) = w1_bytes w1" for w1
    using t0 by (simp add: buf_verify_store length_buf_verify pack_w1_eq(2) length_w1_bytes w1_bytes_def)
  have w1: "poly_vec_k_use_hint_volatile (commit (vsub rv (poly_vec_k_pointwise_poly_montgomery_volatile (ntt cp)
      (map ntt (poly_vec_k_shift_l_volatile (t1_of t)))))) h = recover rv cp (t1_of t) h" for cp
    by (simp add: recover_def poly_vec_k_use_hint_volatile_def poly_vec_k_pointwise_poly_montgomery_volatile_def
        poly_vec_k_shift_l_volatile_def cmul_def comp_def)
  have "c = take 64 sig" using assms(5) by (auto simp: unpack_sig_volatile_def Let_def split: prod.splits option.splits if_splits)
  then have c: "length c = 64" using assms(3) by simp
  have cmp: "list_all (\<lambda>i. c ! i = shake256_of parts 64 ! i) [0..<64] \<longleftrightarrow> c = shake256_of parts 64" for parts
    using c by (auto simp: list_all_iff intro: nth_equalityI)
  have nf: "Ex Not" by (rule exI [of _ False]) simp
  show ?thesis
    using assms(2,3) x t ok sk(4) rv nf
    by (cases "poly_challenge_volatile c")
      (simp_all add: crypto_verify_optimized_def ne vec_ntts power2_round_parts pack_pk_of assms(5) volatile_eqs(5-) Let_def w1 buf cmp
        flip: mu_of_def cong: do_congs)
qed

text \<open>The signature format.\<close>

lemma pack_sig_encode:
  assumes "length c = 64" "length sig = 4627" "z_vec_ok z" "hint_ok h"
  shows "pack_sig_volatile sig c z h = sig_encode c z h"
proof -
  have "map (\<lambda>b. poly_z_pack (z ! b)) [0..<7] = map (\<lambda>p. bit_pack p (2 ^ 19 - 1) (2 ^ 19)) z"
    using assms(3) z_pack_bits by (intro nth_equalityI) (simp_all add: z_vec_ok_def list_all_length)
  then show ?thesis using pack_sig_eq [OF assms(1,2) length_hint_bytes, of z h] hint_pack_bits [OF assms(4)] by (simp add: sig_encode_def)
qed

lemma sig_decodes_iff: "sig_decodes sig c z h \<longleftrightarrow> length c = 64 \<and> z_vec_ok z \<and> hint_ok h \<and> sig = sig_encode c z h"
  by (auto simp: sig_decodes_def hint_ok_ones z_vec_ok_def z_ok_def [abs_def])

lemma unpack_decodes:
  assumes "length sig = 4627" "length h0 = 8"
  shows "unpack_sig_volatile sig h0 = (c, z, h, 0) \<longleftrightarrow> sig_decodes sig c z h"
proof
  assume u: "unpack_sig_volatile sig h0 = (c, z, h, 0)"
  then have "c = take 64 sig" by (auto simp: unpack_sig_volatile_def Let_def split: prod.splits option.splits if_splits)
  moreover have "pack_sig_volatile sig c z h = sig" "z_vec_ok z" "hint_ok h" using unpack_canonical [OF u assms assms(1)] by simp_all
  ultimately show "sig_decodes sig c z h" using assms(1) pack_sig_encode [of c sig z h] by (simp add: sig_decodes_iff)
next
  assume d: "sig_decodes sig c z h"
  then have "pack_sig_volatile sig c z h = sig" using pack_sig_encode [of c sig z h] assms(1) by (simp add: sig_decodes_iff)
  then show "unpack_sig_volatile sig h0 = (c, z, h, 0)" using unpack_pack [of c sig z h h0] d assms by (simp add: sig_decodes_iff)
qed

lemma recovered_encode:
  assumes "combined_method told (map ntt z) rho = Some rv" "z_vec_ok z" "poly_challenge_volatile c = Some cp" "list_all residues t" "length t = 8"
    "hint_ok h"
  shows "w1_bytes (recover rv cp (t1_of t) h) = fips_w1_encode (map2 (map2 (\<lambda>hb r. fips_use_hint (hb \<noteq> 0) r)) h
    (map (\<lambda>i. rq (map2 (-) (fips_az (mat_of rho) z i) (rq_mul cp (map (\<lambda>x. x * 2 ^ D) (fips_t1 t ! i))))) [0..<K]))"
  unfolding recover_fips [OF assms(1,2) challenge_bounded [OF assms(3)] assms(4-6)]
proof (rule w1_encode_eq)
  let ?u = "map (\<lambda>i. rq (map2 (-) (fips_az (mat_of rho) z i) (rq_mul cp (map (\<lambda>x. x * 2 ^ D) (fips_t1 t ! i))))) [0..<K]"
  have "residues (rq (map2 (-) (fips_az (mat_of rho) z i) (rq_mul cp q)))" for i q
    by (rule rq_sum_ev(3) [OF fips_az_ev(1) residuesD(1) [OF rq_mul_ev(1)]])
  then have "list_all residues ?u" by (simp add: list_all_iff)
  then show "p \<in> set (map2 (map2 (\<lambda>hb r. fips_use_hint (hb \<noteq> 0) r)) h ?u) \<Longrightarrow> length p = 256 \<and> list_all w1_ok p" for p
    using assms(6) by (intro hinted_ok) (simp_all add: hint_ok_def)
qed (use assms(6) in \<open>simp add: hint_ok_def\<close>)

lemma mu_fips: "mu_of pk message = fips_mu pk message"
  by (simp add: mu_of_def fips_mu_def shake256_of_H pre_bytes_def CTX_def integer_to_bytes_def)

lemma verify_fips:
  assumes "nvm_ok s" "message \<noteq> []" "length sig = 4627" "derive path = Inr raw"
  shows "case fips_keygen device_A (take 32 raw) of
      None \<Rightarrow> crypto_verify_optimized derive path sig message s = None
    | Some (rho, key, A, s1, s2, t) \<Rightarrow>
        (\<forall>c z h. sig_decodes sig c z h \<longrightarrow> map_option snd (crypto_verify_optimized derive path sig message s)
           = map_option (Pair (Code ERR_NONE)) (fips_verify rho A (fips_t1 t) message c z h))
        \<and> ((\<nexists>c z h. sig_decodes sig c z h) \<longrightarrow>
           map_option snd (crypto_verify_optimized derive path sig message s) = Some (Code ERR_NONE, False))"
proof (cases "fips_keygen device_A (take 32 raw)")
  case None
  have "crypto_verify_optimized derive path sig message s = None"
  proof (rule ccontr)
    assume "crypto_verify_optimized derive path sig message s \<noteq> None"
    then obtain s' st b where "crypto_verify_optimized derive path sig message s = Some (s', st, b)" by (metis not_None_eq prod_cases3)
    then obtain rho key s1 s2 t where "signing_key derive path rho key s1 s2 t"
      using assms by (cases rule: crypto_verify_cases) auto
    then have "fips_keygen device_A (take 32 raw) = Some (rho, key, mat_of rho, s1, s2, t)"
      using assms(4) unfolding keygen_iff [where told = "[]"] by (auto simp: signing_key_def)
    with None show False by simp
  qed
  with None show ?thesis by simp
next
  case (Some x)
  obtain rho key A s1 s2 t where x: "x = (rho, key, A, s1, s2, t)" by (cases x)
  note k = keygenD [OF Some [unfolded x]]
  have sk: "signing_key derive path rho key s1 s2 t" by (rule k(1) [of derive path raw, OF assms(4) refl])
  have h0: "length (nv_h s) = 8" using assms(1) by (simp add: nvm_ok_def polyvec_ok_def)
  obtain c z h bad where u: "unpack_sig_volatile sig (nv_h s) = (c, z, h, bad)" by (cases "unpack_sig_volatile sig (nv_h s)")
  note R = verify_result [OF sk assms(2,3,1) u]
  show ?thesis
  proof (cases "bad = 0")
    case False
    have "\<nexists>c z h. sig_decodes sig c z h" using u False unpack_decodes [OF assms(3) h0] by auto
    moreover have "map_option snd (crypto_verify_optimized derive path sig message s) = Some (Code ERR_NONE, False)" using R False by simp
    ultimately show ?thesis using Some x by simp
  next
    case True
    have d: "sig_decodes sig c z h" using u True unpack_decodes [OF assms(3) h0] by simp
    have unique: "c' = c \<and> z' = z \<and> h' = h" if "sig_decodes sig c' z' h'" for c' z' h'
      using that u unpack_decodes [OF assms(3) h0, of c' z' h'] by simp
    have z: "z_vec_ok z" and h: "hint_ok h" using d by (simp_all add: sig_decodes_iff)
    from mat_defined_combined signing_key_residues [OF sk] obtain rv where rv: "combined_method (nv_w1 s) (map ntt z) rho = Some rv" by blast
    have tr: "list_all residues t" using signing_key_residues [OF sk] by blast
    have "map_option snd (crypto_verify_optimized derive path sig message s)
        = map_option (Pair (Code ERR_NONE)) (fips_verify rho A (fips_t1 t) message c z h)"
    proof (cases "norm_less (GAMMA1 - BETA) z")
      case False
      then show ?thesis using R True chk_norm_z [OF z] by (simp add: fips_verify_def)
    next
      case norm: True
      note w1 = recovered_encode [OF rv z _ tr k(6) h]
      show ?thesis
        using R True norm chk_norm_z [OF z] w1
        by (cases "poly_challenge_volatile c") (simp_all add: fips_verify_def challenge_fips rv shake256_of_H mu_fips k(4,7) Let_def)
    qed
    then have "\<forall>c' z' h'. sig_decodes sig c' z' h' \<longrightarrow> map_option snd (crypto_verify_optimized derive path sig message s)
        = map_option (Pair (Code ERR_NONE)) (fips_verify rho A (fips_t1 t) message c' z' h')"
      using unique by metis
    then show ?thesis using d unfolding Some x option.case prod.case by blast
  qed
qed


text \<open>
  C2.  \<open>crypto_verify_optimized\<close> is the verification of \<open>Fips204_Spec\<close> (FIPS 204, algorithm 8), which is written from the standard: it accepts a signature exactly if it is the encoding of a
  challenge hash, a response of norm below \<open>gamma1 - beta\<close> and a hint, and the hash of the message and of the high bits of
  \<open>A z - c t1 2^d\<close>, corrected by the hint, is the challenge hash again.  The arithmetic of the standard is in the ring,
  without Montgomery factors and machine integers; the decoding of the signature and the encodings that are hashed are those of the standard, bit by
  bit.  The matrix is \<open>ExpandA\<close>, with the exception stated for the key generation.
\<close>

theorem verify_is_fips204:
  assumes "nvm_ok s" "message \<noteq> []" "length sig = 4627" "derive path = Inr raw"
  shows "(case fips_keygen device_A (take 32 raw) of
      None \<Rightarrow> crypto_verify_optimized derive path sig message s = None
    | Some (rho, key, A, s1, s2, t) \<Rightarrow>
        (\<forall>c z h. sig_decodes sig c z h \<longrightarrow> map_option snd (crypto_verify_optimized derive path sig message s)
           = map_option (Pair (Code ERR_NONE)) (fips_verify rho A (fips_t1 t) message c z h))
        \<and> ((\<nexists>c z h. sig_decodes sig c z h) \<longrightarrow>
           map_option snd (crypto_verify_optimized derive path sig message s) = Some (Code ERR_NONE, False)))
    \<and> (if enough_candidates (fst (fips_expand_seed (take 32 raw))) then fips_keygen device_A (take 32 raw) = fips_keygen expand_A (take 32 raw) else True)"
  using verify_fips [of s message sig derive path raw, OF assms] keygen_standard by simp

theorem verify_is_fips204_witness:
  "case fips_keygen device_A (replicate 32 7) of
      None \<Rightarrow> crypto_verify_optimized (\<lambda>path. Inr (replicate 64 7)) [] (replicate 4627 0) [1, 2, 3] nvm_fresh = None
    | Some (rho, key, A, s1, s2, t) \<Rightarrow>
        (\<forall>c z h. sig_decodes (replicate 4627 0) c z h \<longrightarrow>
           map_option snd (crypto_verify_optimized (\<lambda>path. Inr (replicate 64 7)) [] (replicate 4627 0) [1, 2, 3] nvm_fresh)
           = map_option (Pair (Code ERR_NONE)) (fips_verify rho A (fips_t1 t) [1, 2, 3] c z h))
        \<and> ((\<nexists>c z h. sig_decodes (replicate 4627 0) c z h) \<longrightarrow>
           map_option snd (crypto_verify_optimized (\<lambda>path. Inr (replicate 64 7)) [] (replicate 4627 0) [1, 2, 3] nvm_fresh) = Some (Code ERR_NONE, False))"
proof -
  have "take 32 (replicate 64 (7 :: byte)) = replicate 32 7" by simp
  then show ?thesis using verify_is_fips204 [OF nvm_fresh_ok, of "[1, 2, 3]" "replicate 4627 0" "\<lambda>path. Inr (replicate 64 7)" "[]" "replicate 64 7", THEN conjunct1] by simp
qed

subsection \<open>The masks of a run\<close>

text \<open>The bytes from which mask \<open>j\<close> of pass \<open>i\<close> is expanded.\<close>

definition mask_seed :: "byte list \<Rightarrow> nat \<Rightarrow> nat \<Rightarrow> byte list" where
  "mask_seed rho i j = rho @ integer_to_bytes (7 * i + j) 2"

lemma mask_seed_inj:
  assumes "i < 814" "j < 7" "i' < 814" "j' < 7" "mask_seed rho i j = mask_seed rho i' j'"
  shows "i = i' \<and> j = j'"
proof -
  have "nonce_bytes (of_nat (7 * i + j)) = nonce_bytes (of_nat (7 * i' + j'))" using assms(5) by (simp only: mask_seed_def nonce_of_nat same_append_eq)
  then have "7 * i + j = 7 * i' + j'" using assms(1-4) by (intro of_nat_16_inj [OF _ _ nonce_bytes_inj]) simp_all
  then show ?thesis using assms(2,4) by presburger
qed

text \<open>
  C9.  No mask is used twice: \<open>sign_loop\<close> is a run of at most 814 passes, and pass \<open>i\<close> leaves in \<open>N_storage.y\<close> the seven masks that
  \<open>ExpandMask\<close> expands for the counter \<open>7 i\<close>; the seeds of all masks that a run can use are different.
\<close>

theorem mask_nonces_fresh:
  assumes "env_ok e" "nvm_ok s"
  shows "\<exists>ss. run e 0 s ss (sign_loop e 0 0 s) \<and> length ss \<le> 814
    \<and> map nv_y ss = map (\<lambda>i. map (\<lambda>j. bit_unpack (H256 (mask_seed (se_rhoPrime e) i j) 640) (2 ^ 19 - 1) (2 ^ 19)) [0..<7]) [0..<length ss]
    \<and> distinct (map (\<lambda>(i, j). mask_seed (se_rhoPrime e) i j) (List.product [0..<814] [0..<7]))"
proof -
  from sign_loop_run [of 0 e s] obtain ss where ss: "run e 0 s ss (sign_loop e 0 0 s)" by auto
  have "map nv_y ss = map (\<lambda>i. expand_mask (se_rhoPrime e) (7 * i)) [0..<length ss]" "length ss \<le> 814"
    using run_masks [OF ss assms] by (simp_all add: mask_fips)
  moreover have "distinct (map (\<lambda>(i, j). mask_seed (se_rhoPrime e) i j) (List.product [0..<814] [0..<7]))"
    using mask_seed_inj by (subst distinct_map) (fastforce simp: distinct_product inj_on_def)
  ultimately show ?thesis using ss by (intro exI [of _ ss]) (simp add: expand_mask_def mask_seed_def)
qed

definition zero_env :: sign_env where
  "zero_env = \<lparr>se_rho = [], se_rhoPrime = [], se_mu = [], se_s1 = replicate 7 (replicate 256 0), se_s2 = replicate 8 (replicate 256 0)\<rparr>"

theorem mask_nonces_fresh_witness:
  "\<exists>ss. run zero_env 0 nvm_fresh ss (sign_loop zero_env 0 0 nvm_fresh) \<and> length ss \<le> 814"
proof -
  have "env_ok zero_env" by (simp add: env_ok_def zero_env_def polyvec_ok_def list_all_iff)
  from mask_nonces_fresh [OF this nvm_fresh_ok] show ?thesis by blast
qed

subsection \<open>The key that signs\<close>




end
