(* ===== verification/Session.thy ===== *)
theory Session
  imports Device_Signing Review Fips204
begin

text \<open>
  Whole signing sessions: the commands of an honest host for one transaction, from the chunks of the transaction to the
  chunks of the signature, and what the device answers in every case.
\<close>

subsection \<open>Every command returns\<close>

text \<open>The key generation for \<open>path\<close> does not return: a seed is derived, and its samplers wait for ever.\<close>

definition keygen_stuck :: "sdk \<Rightarrow> u32 list \<Rightarrow> nvm \<Rightarrow> bool" where
  "keygen_stuck sdk path s \<longleftrightarrow>
     (case os_derive_bip32_no_throw sdk path of Inl err \<Rightarrow> False | Inr raw \<Rightarrow> crypto_sign_keypair (take 32 raw) s = None)"

text \<open>The path in the data of a request: a count, and as many numbers, if the SDK can read them and the path is one of QRL.\<close>

definition request_path :: "sdk \<Rightarrow> buffer \<Rightarrow> u32 list option" where
  "request_path sdk buf =
     (let (ok, n, buf1) = buffer_read_u8 sdk buf;
          (ok1, path, buf2) = buffer_read_bip32_path sdk buf1 (replicate (max_bip32_path sdk) 0) (unat n)
      in if ok \<and> ok1 \<and> is_valid_zond_bip32_path path (unat n) then Some (take (unat n) path) else None)"

lemma address_None: "address_from_bip32_path (os_derive_bip32_no_throw sdk) path s = None \<longleftrightarrow> keygen_stuck sdk path s"
  by (auto simp: address_from_bip32_path_def new_mldsa87_from_seed_def keygen_stuck_def split: sum.splits option.splits)

lemma context_address_None: "context_address sdk d = None \<longleftrightarrow> keygen_stuck sdk (current_path d) (N_storage d)"
  unfolding address_None [symmetric] by (simp add: context_address_def split: option.splits prod.splits sum.splits)

lemma start_request_path:
  assumes "start_request sdk req buf d = (d', True)"
  shows "request_path sdk buf = Some (current_path d') \<and> N_storage d' = N_storage d"
  using assms
  by (auto simp: start_request_def request_path_def current_path_def set_ctx_def ctx_cleared_def Let_def split: prod.splits if_splits)

lemma display_transaction_None:
  "ui_display_transaction_bs_choice sdk b tx d = None \<Longrightarrow> keygen_stuck sdk (current_path d) (N_storage d)"
  by (auto simp: ui_display_transaction_bs_choice_def context_address_None current_path_def Let_def split: if_splits option.splits sum.splits)

lemma public_key_None:
  assumes "handler_get_public_key sdk buf display d = None"
  shows "\<exists>path. request_path sdk buf = Some path \<and> keygen_stuck sdk path (N_storage d)"
proof -
  obtain d1 ok where s: "start_request sdk CONFIRM_ADDRESS buf d = (d1, ok)" by fastforce
  with assms have "context_address sdk d1 = None" ok
    by (auto simp: handler_get_public_key_def Let_def split: if_splits option.splits sum.splits)
  then show ?thesis using start_request_path s by (auto simp: context_address_None)
qed

lemma sign_tx_None:
  assumes "handler_sign_tx sdk buf c1 c2 d = None" "device_ok sdk d" "sdk_ok sdk"
  shows "c1 = 2 \<and> c2 = 0 \<and> keygen_stuck sdk (current_path d) (N_storage d)"
proof -
  obtain d1 w where r: "receive_chunk sdk buf d = (d1, w)" by fastforce
  have "device_ok sdk d1" by (rule receive_chunk_ok [OF r assms(2,3)])
  then have "length (received_tx d1) < 2147483648" by (simp add: received_tx_def device_ok_def gctx_ok_def)
  then have nb: "decode_ledger_tx (received_tx d1) tx_zero \<noteq> Bad" by (rule decode_not_bad)
  have c: "c1 = 2 \<and> c2 = 0" using assms(1) by (auto simp: handler_sign_tx_def Let_def split: if_splits prod.splits option.splits)
  with assms(1) r nb obtain b tx where "ui_display_transaction_bs_choice sdk b tx (hash_tx d1) = None"
    by (auto simp: handler_sign_tx_def hash_tx_frame(1) Let_def split: if_splits prod.splits option.splits dec.splits)
  from display_transaction_None [OF this] have "keygen_stuck sdk (current_path (hash_tx d1)) (N_storage d)"
    using sent_frame(2) [OF r] by (simp add: sent_frame(4))
  moreover have "current_path (hash_tx d1) = current_path d"
    using r by (auto simp: hash_tx_def receive_chunk_def current_path_def set_ctx_def Let_def split: if_splits prod.splits)
  ultimately show ?thesis using c by simp
qed

text \<open>
  C21.  A command returns unless it has to derive a key whose generation does not return: only a request for the public key
  of a path, which must be a valid one and have a stuck key generation, and the last chunk of a transaction, if the key generation for
  the path of the request is stuck, can fail to return; everything else, whatever its bytes, returns.
\<close>

theorem commands_return:
  assumes "sdk_ok sdk" "device_ok sdk d"
  shows "case app_step sdk input d of
      None \<Rightarrow> \<exists>cmd. apdu_parser sdk input = Some cmd \<and> cmd_cla cmd = 0xE0 \<and> cmd_p2 cmd = 0
        \<and> (cmd_ins cmd = 0x05 \<and> (\<exists>path. request_path sdk \<lparr>buf_ptr = cmd_data cmd, buf_size = unat (cmd_lc cmd), buf_offset = 0\<rparr> = Some path
              \<and> keygen_stuck sdk path (N_storage d))
           \<or> cmd_ins cmd = 0x06 \<and> cmd_p1 cmd = 2 \<and> keygen_stuck sdk (current_path d) (N_storage d))
    | Some (d', b) \<Rightarrow> True"
proof (cases "app_step sdk input d")
  case None
  then obtain cmd where cmd: "apdu_parser sdk input = Some cmd" "apdu_dispatcher sdk cmd d = None"
    by (auto simp: app_step_def split: option.splits)
  let ?buf = "\<lparr>buf_ptr = cmd_data cmd, buf_size = unat (cmd_lc cmd), buf_offset = 0\<rparr>"
  from cmd(2) consider "cmd_cla cmd = 0xE0" "cmd_ins cmd = 0x05" "cmd_p2 cmd = 0" "handler_get_public_key sdk ?buf (cmd_p1 cmd \<noteq> 0) d = None"
    | "cmd_cla cmd = 0xE0" "cmd_ins cmd = 0x06" "handler_sign_tx sdk ?buf (cmd_p1 cmd) (cmd_p2 cmd) d = None"
    by (auto simp: apdu_dispatcher_def code_words word_greater_zero_iff Let_def split: if_splits)
  then show ?thesis
  proof cases
    case 1
    with public_key_None None cmd(1) show ?thesis by fastforce
  next
    case 2
    with sign_tx_None [OF 2(3) assms(2,1)] None cmd(1) show ?thesis by auto
  qed
qed auto

theorem commands_return_witness:
  "\<exists>d'. app_step locked_sdk restart_request (app_start locked_sdk nvm_fresh) = Some d'"
proof -
  have ok: "sdk_ok locked_sdk" using sample_sdk_ok by (simp add: sdk_ok_def locked_sdk_def)
  have "\<not> keygen_stuck locked_sdk path s" for path s by (simp add: keygen_stuck_def locked_sdk_def)
  then show ?thesis
    using commands_return [OF ok app_start_ok [OF nvm_fresh_ok], of restart_request]
    by (cases "app_step locked_sdk restart_request (app_start locked_sdk nvm_fresh)") simp_all
qed

subsection \<open>A session\<close>






subsection \<open>Fetching\<close>






subsection \<open>Up to the review\<close>









subsection \<open>From the approval to the signature\<close>














end
