(* ===== verification/Unused.thy ===== *)
theory Unused
  imports Sign
begin

text \<open>
  The functions of \<open>poly.c\<close> and \<open>polyvec.c\<close> that the application links but never calls, and the byte copy of \<open>utils.c\<close>.  They are modelled
  with the arrays they write to, because two of them write to the wrong place: the lemmas state
  where, which is why the other functions do not use them.
\<close>

subsection \<open>Sampling a matrix entry, from \<open>poly.c\<close>\<close>

text \<open>
  The refill loop of \<open>poly_uniform\<close>.  \<open>ptr\<close> is the offset of the pointer in \<open>buf\<close>; \<open>rej_uniform\<close> gets the start of the array \<open>a\<close> in
  every round, so its coefficients replace the first ones.
\<close>

definition move_rest :: "nat \<Rightarrow> byte list \<Rightarrow> byte list" where
  "move_rest bufLen buf = (let off = bufLen mod 3 in fold (\<lambda>i buf. buf[i := buf ! (bufLen - off + i)]) [0..<off] buf)"

partial_function (option) poly_uniform_loop :: "keccak_ctx \<Rightarrow> nat \<Rightarrow> nat \<Rightarrow> byte list \<Rightarrow> nat \<Rightarrow> poly \<Rightarrow> poly option" where
  "poly_uniform_loop ctx bufLen ptr buf ctr a =
     (if ctr < N
      then
        (let off = bufLen mod 3;
             buf = move_rest bufLen buf;
             ptr = ptr + off;
             (blk, ctx) = shake128_squeeze ctx 168;
             buf = write_at ptr blk buf;
             bufLen = 168 + off;
             new = rej_uniform (N - ctr) (take bufLen buf)
         in poly_uniform_loop ctx bufLen ptr buf (ctr + length new) (write_at 0 new a))
      else Some a)"

definition poly_uniform :: "poly \<Rightarrow> byte list \<Rightarrow> 16 word \<Rightarrow> poly option" where
  "poly_uniform a seed nonce =
     (let ctx = shake128_finalize (shake128_absorb (shake128_absorb shake128_init seed) (nonce_bytes nonce));
          (buf, ctx) = shake128_squeeze ctx (840 + 2);
          new = rej_uniform N (take 840 buf)
      in poly_uniform_loop ctx 840 0 buf (length new) (write_at 0 new a))"

text \<open>\<open>poly_vec_matrix_expand\<close> on the matrix as a list of rows; \<open>poly_uniform\<close> has no failing branch.\<close>

definition expand_entry :: "byte list \<Rightarrow> nat \<times> nat \<Rightarrow> polyvec list \<Rightarrow> polyvec list option" where
  "expand_entry rho ij mat =
     (let (i, j) = ij
      in map_option (\<lambda>p. mat[i := (mat ! i)[j := p]]) (poly_uniform (mat ! i ! j) rho (push_bit 8 (of_nat i) + of_nat j)))"

definition poly_vec_matrix_expand :: "byte list \<Rightarrow> polyvec list \<Rightarrow> polyvec list option" where
  "poly_vec_matrix_expand rho mat =
     fold (\<lambda>ij m. Option.bind m (expand_entry rho ij)) (List.product [0..<K] [0..<L]) (Some mat)"

subsection \<open>Packing \<open>w1\<close>, from \<open>polyvec.c\<close>\<close>

text \<open>\<open>mem\<close> is the memory that starts at \<open>r\<close>; the loop adds to the moved pointer.\<close>

definition poly_vec_k_pack_w1 :: "byte list \<Rightarrow> nat \<Rightarrow> polyvec \<Rightarrow> error_code \<times> byte list" where
  "poly_vec_k_pack_w1 mem r_len w1 =
     (if r_len \<noteq> K * POLY_W1_PACKED_BYTES then (ERR_INVALID_LENGTH, mem)
      else (ERR_NONE,
        snd (fold (\<lambda>i (r, mem). let r = r + i * POLY_W1_PACKED_BYTES in (r, write_at r (poly_w1_pack (w1 ! i)) mem)) [0..<K] (0, mem))))"

subsection \<open>Copying bytes, from \<open>utils.c\<close>\<close>

definition copy_array :: "byte list \<Rightarrow> byte list \<Rightarrow> byte list" where
  "copy_array dst src =
     (let len = (if length dst < length src then length dst else length src) in write_at 0 (take len src) dst)"

text \<open>\<open>unpack_sig_volatile\<close> copies the 64 bytes of the challenge; in its model the copy is \<open>take\<close>.\<close>

lemma copy_array_take: "length dst \<le> length src \<Longrightarrow> copy_array dst src = take (length dst) src"
  by (simp add: copy_array_def write_at_def)

subsection \<open>Where they write\<close>

lemma length_rej_uniform: "length (rej_uniform n buf) \<le> n"
  by (induction n buf rule: rej_uniform.induct) (auto simp: Let_def)

lemma length_rej_uniform_buf: "3 * length (rej_uniform n buf) \<le> length buf"
  by (induction n buf rule: rej_uniform.induct) (auto simp: Let_def)

text \<open>A refill never reaches the last coefficient, which stays as it was.\<close>

lemma poly_uniform_loop_stale:
  assumes "poly_uniform_loop ctx bufLen ptr buf ctr a = Some p" "length a = 256" "ctr < 256"
  shows "p ! 255 = a ! 255"
proof -
  have "length a = 256 \<longrightarrow> p ! 255 = a ! 255"
  proof (rule poly_uniform_loop.raw_induct [where P = "\<lambda>ctx bufLen ptr buf ctr a p. length a = 256 \<longrightarrow> p ! 255 = a ! 255", OF _ assms(1)])
    fix f ctx bufLen ptr buf ctr a p
    assume IH: "\<And>ctx bufLen ptr buf ctr a p. f ctx bufLen ptr buf ctr a = Some p \<Longrightarrow> length a = 256 \<longrightarrow> p ! 255 = a ! 255"
      and eq: "(if ctr < 256
        then let off = bufLen mod 3; buf = move_rest bufLen buf; ptr = ptr + off; (blk, ctx) = shake128_squeeze ctx 168;
                 buf = write_at ptr blk buf; bufLen = 168 + off; new = rej_uniform (256 - ctr) (take bufLen buf)
             in f ctx bufLen ptr buf (ctr + length new) (write_at 0 new a)
        else Some a) = Some p"
    show "length a = 256 \<longrightarrow> p ! 255 = a ! 255"
    proof
      assume len: "length a = 256"
      show "p ! 255 = a ! 255"
      proof (cases "ctr < 256")
        case True
        let ?buf = "write_at (ptr + bufLen mod 3) (fst (shake128_squeeze ctx 168)) (move_rest bufLen buf)"
        let ?new = "rej_uniform (256 - ctr) (take (168 + bufLen mod 3) ?buf)"
        have "bufLen mod 3 < 3" by (rule mod_less_divisor) simp
        moreover have "length (take (168 + bufLen mod 3) ?buf) \<le> 168 + bufLen mod 3" by simp
        ultimately have "3 * length ?new \<le> 170"
          using length_rej_uniform_buf [of "256 - ctr" "take (168 + bufLen mod 3) ?buf"] by linarith
        then have "length (write_at 0 ?new a) = 256" "write_at 0 ?new a ! 255 = a ! 255" using len by (simp_all add: write_at_prefix nth_append)
        moreover from eq True have "f (snd (shake128_squeeze ctx 168)) (168 + bufLen mod 3) (ptr + bufLen mod 3) ?buf (ctr + length ?new) (write_at 0 ?new a) = Some p"
          by (simp add: Let_def case_prod_beta)
        ultimately show ?thesis using IH by metis
      next
        case False
        with eq show ?thesis by simp
      qed
    qed
  qed
  then show ?thesis using assms(2) by simp
qed

text \<open>
  If the first 840 bytes of the stream do not fill the polynomial, \<open>poly_uniform\<close> leaves its last coefficient as it found it.
\<close>

lemma poly_uniform_stale:
  assumes "poly_uniform a seed nonce = Some p" "length a = 256"
    "length (rej_uniform N (take 840 (fst (shake128_squeeze (shake128_finalize (shake128_absorb (shake128_absorb shake128_init seed)
       (nonce_bytes nonce))) 842)))) < 256"
  shows "p ! 255 = a ! 255"
proof -
  let ?sq = "shake128_squeeze (shake128_finalize (shake128_absorb (shake128_absorb shake128_init seed) (nonce_bytes nonce))) 842"
  let ?new = "rej_uniform N (take 840 (fst ?sq))"
  have "poly_uniform_loop (snd ?sq) 840 0 (fst ?sq) (length ?new) (write_at 0 ?new a) = Some p"
    using assms(1) by (simp add: poly_uniform_def Let_def case_prod_beta)
  moreover have "length (write_at 0 ?new a) = 256" "write_at 0 ?new a ! 255 = a ! 255"
    using assms(2,3) by (simp_all add: write_at_prefix nth_append)
  ultimately show ?thesis using poly_uniform_loop_stale assms(3) by metis
qed

text \<open>\<open>poly_vec_k_pack_w1\<close> writes the last polynomial 3584 bytes behind the start of an array of 1024 bytes.\<close>

lemma pack_w1_outside:
  assumes "length w1 = 8" "3712 \<le> length mem"
  shows "chunk 3584 128 (snd (poly_vec_k_pack_w1 mem 1024 w1)) = poly_w1_pack (w1 ! 7)"
proof -
  have written: "chunk off (length new) (write_at off new old) = new" if "off \<le> length old" for off and new old :: "byte list"
    using that by (simp add: chunk_def write_at_def)
  let ?w = "\<lambda>off i. write_at off (poly_w1_pack (w1 ! i))"
  let ?m = "?w 2688 6 (?w 1920 5 (?w 1280 4 (?w 768 3 (?w 384 2 (?w 128 1 (?w 0 0 mem))))))"
  have upt: "[0..<8] = [0, 1, 2, 3, 4, 5, 6, 7 :: nat]" by (simp add: upt_rec)
  have "snd (poly_vec_k_pack_w1 mem 1024 w1) = ?w 3584 7 ?m" by (simp add: poly_vec_k_pack_w1_def upt)
  moreover have "3584 \<le> length ?m" using assms(2) by simp
  ultimately show ?thesis using written [of 3584 ?m "poly_w1_pack (w1 ! 7)"] by simp
qed

end
