(* ===== verification/Fips204_Sign.thy ===== *)
theory Fips204_Sign
  imports Fips204
begin

text \<open>
  Signing as FIPS 204 describes it (algorithm 7), and the proof that \<open>sign_attempt\<close> and \<open>crypto_sign_optimized\<close> compute it.  The code
  follows the reference implementation, which never computes \<open>w - c s2\<close>: it subtracts from the low bits of \<open>w\<close>
  instead and makes the hint from them; the passes it accepts are the same.
\<close>

subsection \<open>Small products\<close>

text \<open>A challenge with 60 coefficients 1 or -1 multiplies the norm by at most 60.\<close>

lemma challenge_weight: "ball_inv 256 60 c \<Longrightarrow> (\<Sum>i<256. \<bar>c ! i\<bar>) = 60"
proof -
  assume b: "ball_inv 256 60 c"
  have "\<bar>c ! i\<bar> = (if c ! i \<noteq> 0 then 1 else 0)" if "i < 256" for i
  proof -
    have "c ! i \<in> set c" "set c \<subseteq> {- 1, 0, 1}" using b that by (simp_all add: ball_inv_def)
    then have "c ! i \<in> {- 1, 0, 1}" by blast
    then show ?thesis by auto
  qed
  then have "(\<Sum>i<256. \<bar>c ! i\<bar>) = (\<Sum>i<256. if c ! i \<noteq> 0 then 1 else 0)" by (intro sum.cong) simp_all
  also have "\<dots> = int (card {i. i < 256 \<and> c ! i \<noteq> 0})" by (simp flip: sum.inter_filter add: lessThan_def)
  finally show ?thesis using b by (simp add: ball_inv_def)
qed

lemma nega_mul_bound:
  assumes "ball_inv 256 60 c" "bounded B p" "k < 256"
  shows "\<bar>nega_mul c p ! k\<bar> \<le> 60 * (B - 1)"
proof -
  have p: "\<bar>p ! i\<bar> \<le> B - 1" if "i < 256" for i using bounded_nth [OF assms(2) that] by simp
  have "\<bar>nega_mul c p ! k\<bar> \<le> (\<Sum>i<256. \<bar>if i \<le> k then c ! i * p ! (k - i) else - (c ! i * p ! (256 + k - i))\<bar>)"
    using assms(3) by (simp add: nega_mul_def sum_abs)
  also have "\<dots> \<le> (\<Sum>i<256. \<bar>c ! i\<bar> * (B - 1))"
    using assms(3) p by (intro sum_mono) (auto simp: abs_mult intro!: mult_left_mono)
  also have "\<dots> = 60 * (B - 1)" using challenge_weight [OF assms(1)] by (simp flip: sum_distrib_right)
  finally show ?thesis .
qed

text \<open>The product that the code computes has the coefficients of the exact product.\<close>

lemma cmul_exact:
  assumes "ball_inv 256 60 c" "bounded B p" "B \<le> 8192"
  shows "bounded 4211199 (inv_ntt_to_mont (cmul c p))" "eqml (inv_ntt_to_mont (cmul c p)) (nega_mul c p)"
    "bounded (60 * B) (nega_mul c p)"
proof -
  have c: "bounded 2 c" using assms(1) by (auto simp: ball_inv_def bounded_def list_all_iff)
  have B: "0 < B" using bounded_nth [OF assms(2), of 0] by simp
  show n: "bounded (60 * B) (nega_mul c p)"
  proof (rule boundedI)
    fix k :: nat assume "k < 256"
    from nega_mul_bound [OF assms(1,2) this] show "\<bar>nega_mul c p ! k\<bar> < 60 * B" by simp
  qed simp
  have "B \<le> 8380417" using assms(3) by simp
  note m = cmul_correct [OF c assms(2) this]
  show i: "bounded 4211199 (inv_ntt_to_mont (cmul c p))" by (rule m(3))
  have n': "bounded 4211199 (nega_mul c p)" by (rule bounded_mono [OF n]) (use assms(3) in simp)
  show "eqml (inv_ntt_to_mont (cmul c p)) (nega_mul c p)"
  proof (rule ev_inj [OF i n'])
    fix k :: nat assume k: "k < 256"
    have "eqm (ev (nega_mul c p) k) (ev c k * ev p k)" unfolding ev_def by (rule nega_mul_eval [OF root_256 [OF k]])
    from eqm_trans [OF m(4) [OF k] eqm_sym [OF this]] show "eqm (ev (inv_ntt_to_mont (cmul c p)) k) (ev (nega_mul c p) k)" .
  qed simp
qed

subsection \<open>The checks, coefficient by coefficient\<close>

text \<open>The reductions leave a representative that passes a norm check exactly if the centred one does.\<close>

lemma mod_pm_cong: "eqm x y \<Longrightarrow> mod_pm x 8380417 = mod_pm y 8380417"
  by (simp add: mod_pm_def eqm_mod)

lemma mod_pm_rep:
  assumes "\<bar>x\<bar> < 6283010" "B \<le> 2097407"
  shows "\<bar>mod_pm x 8380417\<bar> < B \<longleftrightarrow> \<bar>x\<bar> < B"
proof -
  consider "\<bar>x\<bar> \<le> 4190208" | "4190208 < x" | "x < - 4190208" by linarith
  then show ?thesis
  proof cases
    case 1
    then show ?thesis by (simp add: mod_pm_small)
  next
    case 2
    then have "mod_pm x 8380417 = x - 8380417" using assms(1) by (intro mod_pm_unique [of _ 1]) simp_all
    with 2 assms show ?thesis by simp
  next
    case 3
    then have "mod_pm x 8380417 = x + 8380417" using assms(1) by (intro mod_pm_unique [of _ "- 1"]) simp_all
    with 3 assms show ?thesis by simp
  qed
qed

text \<open>
  The check on the low bits: \<open>d\<close> is what the code has for \<open>LowBits(w) - e\<close>, and \<open>e\<close> is a coefficient of \<open>c s2\<close>.
\<close>

lemma low_bits_check:
  assumes w: "0 \<le> w" "w < 8380417" and e: "\<bar>e\<bar> \<le> 120" and d: "\<bar>d\<bar> < 6283010" "eqm d (snd (decompose w) - e)"
  defines "r \<equiv> (w - e) mod 8380417"
  shows "\<bar>d\<bar> < 261768 \<longleftrightarrow> \<bar>snd (decompose r)\<bar> < 261768" "\<bar>d\<bar> < 261768 \<Longrightarrow> decompose r = (fst (decompose w), d)"
proof -
  obtain w1 w0 where dw: "decompose w = (w1, w0)" by fastforce
  obtain r1 r0 where dr: "decompose r = (r1, r0)" by fastforce
  have rr: "0 \<le> r" "r < 8380417" by (simp_all add: r_def)
  have w1: "0 \<le> w1" "w1 < 16" and r1: "0 \<le> r1" "r1 < 16"
    using fst_decompose_range [OF w] fst_decompose_range [OF rr] dw dr by simp_all
  have sw: "eqm (w1 * 523776 + w0) w" and sr: "eqm (r1 * 523776 + r0) r" using decompose_split [OF w] decompose_split [OF rr] dw dr by simp_all
  have re: "eqm r (w - e)" by (simp add: r_def eqm_mod)
  show dec: "decompose r = (fst (decompose w), d)" if small: "\<bar>d\<bar> < 261768"
  proof -
    have "eqm (w1 * 523776 + d) (w1 * 523776 + (w0 - e))" using d(2) dw by (intro eqm_add) simp_all
    also have "w1 * 523776 + (w0 - e) = w1 * 523776 + w0 - e" by simp
    also have "eqm \<dots> (w - e)" by (intro eqm_diff sw eqm_refl)
    finally have "(w1 * 523776 + d) mod 8380417 = r" by (simp add: r_def eqm_mod)
    with perturbed_decompose [OF w1, of d] small show ?thesis by (simp add: dw abs_less_iff)
  qed
  show "\<bar>d\<bar> < 261768 \<longleftrightarrow> \<bar>snd (decompose r)\<bar> < 261768"
  proof
    assume small: "\<bar>snd (decompose r)\<bar> < 261768"
    have "eqm (r1 * 523776 + (r0 + e)) (r + e)" using eqm_add [OF sr eqm_refl [of e]] by (simp add: add.assoc)
    also have "eqm (r + e) (w - e + e)" by (intro eqm_add re eqm_refl)
    finally have "(r1 * 523776 + (r0 + e)) mod 8380417 = w" using w by (simp add: eqm_mod)
    moreover have "\<bar>r0 + e\<bar> < 261888" using small e dr by simp
    ultimately have "decompose w = (r1, r0 + e)" using perturbed_decompose [OF r1, of "r0 + e"] by (simp add: abs_less_iff)
    then have "eqm d r0" using d(2) by simp
    moreover have "\<bar>d - r0\<bar> < 8380417" using d(1) small dr by simp
    ultimately have "d = r0" by (rule eqm_small_eq)
    with small dr show "\<bar>d\<bar> < 261768" by simp
  qed (use dec in simp)
qed

text \<open>The hint: the high bits change by adding \<open>h\<close> exactly if \<open>make_hint\<close> says so.\<close>

lemma hint_check:
  assumes "0 \<le> r" "r < 8380417" "decompose r = (w1, d)" "\<bar>d\<bar> < 261768" "\<bar>h\<bar> < 261888" "eqm h' h"
  shows "make_hint (i32 (d + h)) w1 = (if fst (decompose ((r + h') mod 8380417)) \<noteq> fst (decompose r) then 1 else 0)"
proof -
  have w1: "0 \<le> w1" "w1 < 16" using fst_decompose_range [OF assms(1,2)] assms(3) by simp_all
  have a0: "\<bar>d + h\<bar> < 2 * GAMMA2" using assms(4,5) by simp
  have "eqm (w1 * 523776 + d) r" using decompose_split [OF assms(1,2)] assms(3) by simp
  then have "eqm (w1 * 523776 + d + h) (r + h')" by (rule eqm_add) (rule eqm_sym [OF assms(6)])
  then have "(w1 * 523776 + (d + h)) mod 8380417 = (r + h') mod 8380417" by (simp add: eqm_mod add.assoc)
  with perturbed_decompose [OF w1 a0]
  have "fst (decompose ((r + h') mod 8380417)) \<noteq> w1 \<longleftrightarrow> GAMMA2 < d + h \<or> d + h < - GAMMA2 \<or> (d + h = - GAMMA2 \<and> w1 \<noteq> 0)"
    using w1 by (auto split: if_splits)
  moreover have "i32 (d + h) = d + h" using a0 by simp
  moreover have "make_hint (d + h) w1 = (if GAMMA2 < d + h \<or> d + h < - GAMMA2 \<or> (d + h = - GAMMA2 \<and> w1 \<noteq> 0) then 1 else 0)"
    using w1 a0 by (intro make_hint_eq) simp_all
  ultimately show ?thesis using assms(3) by simp
qed

subsection \<open>The parts of a pass\<close>

lemma eqml_rq: "eqml a b \<Longrightarrow> eqml a (rq b)"
  by (simp add: eqml_def rq_def eqm_mod)

lemma reduced_sum:
  assumes "bounded A a" "bounded B b" "A + B \<le> 2143289344"
  shows "bounded 6283010 (map reduce_32 (map2 (\<lambda>x y. i32 (x + y)) a b))" "eqml (map reduce_32 (map2 (\<lambda>x y. i32 (x + y)) a b)) (map2 (+) a b)"
    "bounded 6283010 (map reduce_32 (map2 (\<lambda>x y. i32 (x - y)) a b))" "eqml (map reduce_32 (map2 (\<lambda>x y. i32 (x - y)) a b)) (map2 (-) a b)"
proof -
  have "A + B \<le> 2147483648" using assms(3) by simp
  note s = add_ev [OF assms(1,2) this]
  note red = poly_reduce_correct [unfolded poly_reduce_def]
  show "bounded 6283010 (map reduce_32 (map2 (\<lambda>x y. i32 (x + y)) a b))" "eqml (map reduce_32 (map2 (\<lambda>x y. i32 (x + y)) a b)) (map2 (+) a b)"
    using red [OF bounded_mono [OF s(2) assms(3)]] unfolding s(1) .
  show "bounded 6283010 (map reduce_32 (map2 (\<lambda>x y. i32 (x - y)) a b))" "eqml (map reduce_32 (map2 (\<lambda>x y. i32 (x - y)) a b)) (map2 (-) a b)"
    using red [OF bounded_mono [OF s(5) assms(3)]] unfolding s(4) .
qed

text \<open>The norm check on vectors of reduced rows.\<close>

lemma chk_norm_rows:
  assumes "length v = length v'" "\<And>i. i < length v \<Longrightarrow> bounded 6283010 (v ! i)"
    "\<And>i n. i < length v \<Longrightarrow> n < 256 \<Longrightarrow> \<bar>v ! i ! n\<bar> < B \<longleftrightarrow> \<bar>mod_pm (v' ! i ! n) 8380417\<bar> < B"
    "\<And>i. i < length v \<Longrightarrow> length (v' ! i) = 256" "0 \<le> B" "B \<le> 1047552"
  shows "chk_norm_vec v B = 0 \<longleftrightarrow> norm_less B v'"
proof -
  have "poly_chk_norm (v ! i) B = 0 \<longleftrightarrow> list_all (\<lambda>x. \<bar>mod_pm x 8380417\<bar> < B) (v' ! i)" if i: "i < length v" for i
    using poly_chk_norm_eq [OF bounded_mono [OF assms(2) [OF i]] assms(5)] assms(3) [OF i] assms(4) [OF i] assms(6) bounded_length [OF assms(2) [OF i]]
    by (simp add: list_all_length)
  then show ?thesis unfolding chk_norm_vec_0 norm_less_def list_all_length using assms(1) by auto
qed

text \<open>A key pair, a masking vector and a challenge.\<close>

definition pass_ok :: "sign_env \<Rightarrow> polyvec \<Rightarrow> polyvec \<Rightarrow> polyvec \<Rightarrow> polyvec \<Rightarrow> polyvec \<Rightarrow> poly \<Rightarrow> bool" where
  "pass_ok e s1 s2 t y r cp \<longleftrightarrow> key_ok e s1 s2 t \<and> (\<exists>told. combined_method told (map ntt y) (se_rho e) = Some r)
     \<and> length y = L \<and> list_all (bounded 524289) y \<and> ball_inv 256 60 cp"

lemma pass_okD:
  assumes "pass_ok e s1 s2 t y r cp"
  shows "length s1 = 7" "length s2 = 8" "length y = 7" "length t = 8" "bounded 2 cp" "ball_inv 256 60 cp"
    "j < 7 \<Longrightarrow> bounded 3 (s1 ! j)" "j < 7 \<Longrightarrow> bounded 524289 (y ! j)" "i < 8 \<Longrightarrow> bounded 3 (s2 ! i)" "i < 8 \<Longrightarrow> residues (t ! i)"
    "i < 8 \<Longrightarrow> bounded 4097 (t0_of t ! i)" "se_s1 e = map ntt s1" "key_ok e s1 s2 t" "list_all (bounded 524289) y"
proof -
  have k: "key_ok e s1 s2 t" using assms by (simp add: pass_ok_def)
  then show "key_ok e s1 s2 t" .
  note key = key_rows [OF k]
  show "length s1 = 7" "length s2 = 8" "se_s1 e = map ntt s1" using k by (simp_all add: key_ok_def)
  show "length t = 8" "i < 8 \<Longrightarrow> residues (t ! i)" "j < 7 \<Longrightarrow> bounded 3 (s1 ! j)" "i < 8 \<Longrightarrow> bounded 3 (s2 ! i)" "i < 8 \<Longrightarrow> bounded 4097 (t0_of t ! i)"
    using key by blast+
  show "length y = 7" "ball_inv 256 60 cp" "j < 7 \<Longrightarrow> bounded 524289 (y ! j)" "list_all (bounded 524289) y"
    using assms by (simp_all add: pass_ok_def list_all_length)
  then show "bounded 2 cp" by (auto simp: ball_inv_def bounded_def list_all_iff)
qed

lemma commit_fips:
  assumes "pass_ok e s1 s2 t y r cp"
  shows "commit r = map (fips_az (mat_of (se_rho e)) y) [0..<8]" "high_bits (commit r) = fips_high (map (fips_az (mat_of (se_rho e)) y) [0..<8])"
    "i < 8 \<Longrightarrow> commit r ! i = fips_az (mat_of (se_rho e)) y i"
proof -
  obtain told where r: "combined_method told (map ntt y) (se_rho e) = Some r" using assms by (auto simp: pass_ok_def)
  note p = pass_okD [OF assms]
  note c = commit_row [OF r p(3,14)]
  show eq: "commit r = map (fips_az (mat_of (se_rho e)) y) [0..<8]"
  proof (rule nth_equalityI)
    show "length (commit r) = length (map (fips_az (mat_of (se_rho e)) y) [0..<8])" using c(1) [of 0] by (simp add: commit_def)
    fix i assume "i < length (commit r)"
    then have i: "i < 8" using c(1) [of 0] by (simp add: commit_def)
    have "commit r ! i = fips_az (mat_of (se_rho e)) y i"
      by (rule residues_ev_eq [OF c(2) [OF i] fips_az_ev(1)]) (rule eqm_trans [OF c(3) [OF i] eqm_sym [OF fips_az_ev(2) [OF i]]])
    then show "commit r ! i = map (fips_az (mat_of (se_rho e)) y) [0..<8] ! i" using i by simp
  qed
  then show "i < 8 \<Longrightarrow> commit r ! i = fips_az (mat_of (se_rho e)) y i" by simp
  have "fst (decompose x) = fst (fips_decompose x)" if "x \<in> set (fips_az (mat_of (se_rho e)) y i)" for x i
    using fips_az_ev(1) [of "mat_of (se_rho e)" y i] that by (simp add: residues_def list_all_iff decompose_fips)
  then show "high_bits (commit r) = fips_high (map (fips_az (mat_of (se_rho e)) y) [0..<8])" unfolding eq by (simp add: high_bits_def fips_high_def)
qed

text \<open>The response.\<close>

lemma response_fips:
  assumes "pass_ok e s1 s2 t y r cp"
  defines "z \<equiv> map2 (\<lambda>p s. rq (map2 (+) p (rq_mul cp s))) y s1"
  shows "chk_norm_vec (response e y cp) 524168 = 0 \<longleftrightarrow> norm_less 524168 z"
    "norm_less 524168 z \<Longrightarrow> response e y cp = map (map (\<lambda>x. mod_pm x 8380417)) z" "length (response e y cp) = 7"
proof -
  note p = pass_okD [OF assms(1)]
  show lr: "length (response e y cp) = 7" using p by (simp add: response_def vreduce_def vadd_def pmul_def)
  have lz: "length z = 7" using p by (simp add: z_def)
  have row: "bounded 6283010 (response e y cp ! j)" "eqml (response e y cp ! j) (z ! j)" if j: "j < 7" for j
  proof -
    have e: "response e y cp ! j = map reduce_32 (map2 (\<lambda>x y. i32 (x + y)) (inv_ntt_to_mont (cmul cp (s1 ! j))) (y ! j))"
      using p j by (simp add: response_def vreduce_def vadd_def pmul_map)
    have le: "3 \<le> (8192 :: int)" "4211199 + 524289 \<le> (2143289344 :: int)" by simp_all
    note m = cmul_exact [OF p(6) p(7) [OF j] le(1)]
    note s = reduced_sum [OF m(1) p(8) [OF j] le(2)]
    show "bounded 6283010 (response e y cp ! j)" unfolding e by (rule s(1))
    have "eqml (map2 (+) (inv_ntt_to_mont (cmul cp (s1 ! j))) (y ! j)) (map2 (+) (y ! j) (rq_mul cp (s1 ! j)))"
      using m(2) bounded_length [OF p(8) [OF j]] by (auto simp: eqml_def rq_mul_def rq_def eqm_mod mod_add_right_eq add.commute intro: mod_add_cong)
    from eqml_rq [OF eqml_trans [OF s(2) this]] show "eqml (response e y cp ! j) (z ! j)" using j p by (simp add: e z_def)
  qed
  have bits: "\<bar>response e y cp ! j ! n\<bar> < 524168 \<longleftrightarrow> \<bar>mod_pm (z ! j ! n) 8380417\<bar> < 524168" if "j < 7" "n < 256" for j n
    using mod_pm_rep [OF bounded_nth [OF row(1) [OF that(1)] that(2)], of 524168] mod_pm_cong [OF eqml_nth [OF row(2) [OF that(1)] that(2)]] by simp
  have lzj: "length (z ! j) = 256" if "j < 7" for j using row(2) [OF that] by (simp add: eqml_def)
  show chk: "chk_norm_vec (response e y cp) 524168 = 0 \<longleftrightarrow> norm_less 524168 z"
    by (rule chk_norm_rows) (simp_all add: lr lz row(1) bits lzj)
  assume "norm_less 524168 z"
  show "response e y cp = map (map (\<lambda>x. mod_pm x 8380417)) z"
  proof (rule nth_equalityI)
    fix j assume "j < length (response e y cp)"
    then have j: "j < 7" using lr by simp
    have small: "\<bar>response e y cp ! j ! n\<bar> < 524168" if "n < 256" for n
      using \<open>norm_less 524168 z\<close> lz lzj [OF j] j that bits [OF j that] by (simp add: norm_less_def list_all_length)
    have "response e y cp ! j ! n = mod_pm (z ! j ! n) 8380417" if "n < 256" for n
      using mod_pm_cong [OF eqml_nth [OF row(2) [OF j] that]] small [OF that] by (simp add: mod_pm_small)
    then show "response e y cp ! j = map (map (\<lambda>x. mod_pm x 8380417)) z ! j"
      using j lz lzj [OF j] bounded_length [OF row(1) [OF j]] by (intro nth_equalityI) simp_all
  qed (simp add: lr lz)
qed

text \<open>The low bits, and the hint.\<close>

definition fips_r :: "byte list \<Rightarrow> polyvec \<Rightarrow> polyvec \<Rightarrow> poly \<Rightarrow> polyvec" where
  "fips_r rho s2 y cp = map2 (\<lambda>p s. rq (map2 (-) p (rq_mul cp s))) (map (fips_az (mat_of rho) y) [0..<8]) s2"

lemma fips_r_row:
  assumes "length s2 = 8" "i < 8" "length (s2 ! i) = 256"
  shows "length (fips_r rho s2 y cp) = 8" "residues (fips_r rho s2 y cp ! i)"
    "n < 256 \<Longrightarrow> fips_r rho s2 y cp ! i ! n = (fips_az (mat_of rho) y i ! n - nega_mul cp (s2 ! i) ! n) mod 8380417"
proof -
  show "length (fips_r rho s2 y cp) = 8" using assms(1) by (simp add: fips_r_def)
  have e: "fips_r rho s2 y cp ! i = rq (map2 (-) (fips_az (mat_of rho) y i) (rq_mul cp (s2 ! i)))" using assms by (simp add: fips_r_def)
  show "residues (fips_r rho s2 y cp ! i)" unfolding e by (rule rq_sum_ev(3) [OF fips_az_ev(1) residuesD(1) [OF rq_mul_ev(1)]])
  show "n < 256 \<Longrightarrow> fips_r rho s2 y cp ! i ! n = (fips_az (mat_of rho) y i ! n - nega_mul cp (s2 ! i) ! n) mod 8380417"
    using residuesD(1) [OF fips_az_ev(1)] unfolding e by (simp add: rq_def rq_mul_def mod_diff_right_eq)
qed

lemma low_fips:
  assumes "pass_ok e s1 s2 t y r cp"
  defines "r' \<equiv> fips_r (se_rho e) s2 y cp"
  shows "chk_norm_vec (low_part e r cp) 261768 = 0 \<longleftrightarrow> norm_less 261768 (fips_low r')"
    "i < 8 \<Longrightarrow> n < 256 \<Longrightarrow> \<bar>low_part e r cp ! i ! n\<bar> < 261768 \<Longrightarrow>
       decompose (r' ! i ! n) = (fst (decompose (commit r ! i ! n)), low_part e r cp ! i ! n)"
    "i < 8 \<Longrightarrow> length (low_part e r cp ! i) = 256" "length (low_part e r cp) = 8"
proof -
  note p = pass_okD [OF assms(1)]
  obtain told where c: "combined_method told (map ntt y) (se_rho e) = Some r" using assms(1) by (auto simp: pass_ok_def)
  note parts = accepted_parts [OF p(13) c p(3,14,5)]
  show ll: "length (low_part e r cp) = 8" using parts(5) [of 0] by simp
  have lr: "length r' = 8" using fips_r_row(1) [of s2 0] p(2) bounded_length [OF p(9) [of 0]] by (simp add: r'_def)
  have b: "bounded 6283010 (low_part e r cp ! i)" if "i < 8" for i using parts(3) [OF that] .
  show "i < 8 \<Longrightarrow> length (low_part e r cp ! i) = 256" using bounded_length [OF b] .
  have res: "residues (r' ! i)" if "i < 8" for i unfolding r'_def by (rule fips_r_row(2) [OF p(2) that bounded_length [OF p(9) [OF that]]])
  have R: "r' ! i ! n = (fips_az (mat_of (se_rho e)) y i ! n - nega_mul cp (s2 ! i) ! n) mod 8380417" if "i < 8" "n < 256" for i n
    unfolding r'_def by (rule fips_r_row(3) [OF p(2) that(1) bounded_length [OF p(9) [OF that(1)]] that(2)])
  have chk: "\<bar>low_part e r cp ! i ! n\<bar> < 261768 \<longleftrightarrow> \<bar>snd (decompose (r' ! i ! n))\<bar> < 261768"
    "\<bar>low_part e r cp ! i ! n\<bar> < 261768 \<Longrightarrow> decompose (r' ! i ! n) = (fst (decompose (commit r ! i ! n)), low_part e r cp ! i ! n)"
    if i: "i < 8" and n: "n < 256" for i n
  proof -
    let ?w = "fips_az (mat_of (se_rho e)) y i" and ?e = "nega_mul cp (s2 ! i)"
    let ?lo = "map (\<lambda>a. snd (decompose a)) ?w"
    note w = residuesD [OF fips_az_ev(1) [of "mat_of (se_rho e)" y i]]
    have le: "3 \<le> (8192 :: int)" "261889 + 4211199 \<le> (2143289344 :: int)" by simp_all
    note m = cmul_exact [OF p(6) p(9) [OF i] le(1)]
    note s = reduced_sum [OF decompose_row(2) [OF fips_az_ev(1) [of "mat_of (se_rho e)" y i]] m(1) le(2)]
    have low: "low_part e r cp ! i = map reduce_32 (map2 (\<lambda>x y. i32 (x - y)) ?lo (inv_ntt_to_mont (cmul cp (s2 ! i))))"
      using parts(1) [OF i] commit_fips(3) [OF assms(1) i] by simp
    have li: "length (inv_ntt_to_mont (cmul cp (s2 ! i))) = 256" by (rule bounded_length [OF m(1)])
    have "eqm (low_part e r cp ! i ! n) (snd (decompose (?w ! n)) - inv_ntt_to_mont (cmul cp (s2 ! i)) ! n)"
      using eqml_nth [OF s(4) n] n w(1) li unfolding low by simp
    also have "eqm \<dots> (snd (decompose (?w ! n)) - ?e ! n)" by (intro eqm_diff eqm_refl eqml_nth [OF m(2) n])
    finally have d: "eqm (low_part e r cp ! i ! n) (snd (decompose (?w ! n)) - ?e ! n)" .
    have "\<bar>?e ! n\<bar> \<le> 120" using nega_mul_bound [OF p(6) p(9) [OF i] n] by simp
    note check = low_bits_check [OF w(2,3) [OF n] this bounded_nth [OF b [OF i] n] d, folded R [OF i n]]
    show "\<bar>low_part e r cp ! i ! n\<bar> < 261768 \<longleftrightarrow> \<bar>snd (decompose (r' ! i ! n))\<bar> < 261768" by (rule check(1))
    show "\<bar>low_part e r cp ! i ! n\<bar> < 261768 \<Longrightarrow> decompose (r' ! i ! n) = (fst (decompose (commit r ! i ! n)), low_part e r cp ! i ! n)"
      unfolding commit_fips(3) [OF assms(1) i] by (rule check(2))
  qed
  then show "i < 8 \<Longrightarrow> n < 256 \<Longrightarrow> \<bar>low_part e r cp ! i ! n\<bar> < 261768 \<Longrightarrow>
       decompose (r' ! i ! n) = (fst (decompose (commit r ! i ! n)), low_part e r cp ! i ! n)" by blast
  show "chk_norm_vec (low_part e r cp) 261768 = 0 \<longleftrightarrow> norm_less 261768 (fips_low r')"
  proof (rule chk_norm_rows)
    fix i n assume "i < length (low_part e r cp)" "n < (256 :: nat)"
    then have i: "i < 8" and n: "n < 256" using ll by simp_all
    note rr = residuesD(2,3) [OF res [OF i] n]
    have "fips_low r' ! i ! n = snd (decompose (r' ! i ! n))" using lr i n residuesD(1) [OF res [OF i]] decompose_fips [OF rr] by (simp add: fips_low_def)
    moreover have "mod_pm (snd (decompose (r' ! i ! n))) 8380417 = snd (decompose (r' ! i ! n))"
      using fst_decompose_range(3,4) [OF rr] by (intro mod_pm_small) (simp add: abs_le_iff)
    ultimately show "\<bar>low_part e r cp ! i ! n\<bar> < 261768 \<longleftrightarrow> \<bar>mod_pm (fips_low r' ! i ! n) 8380417\<bar> < 261768" using chk(1) [OF i n] by simp
  qed (use ll lr b residuesD(1) [OF res] in \<open>simp_all add: fips_low_def\<close>)
qed

lemma t0_fips:
  assumes "pass_ok e s1 s2 t y r cp"
  defines "ct0 \<equiv> map (rq_mul cp) (t0_of t)" and "ht \<equiv> t0_part (map ntt (t0_of t)) cp"
  shows "chk_norm_vec ht 261888 = 0 \<longleftrightarrow> norm_less 261888 ct0" "i < 8 \<Longrightarrow> n < 256 \<Longrightarrow> eqm (ct0 ! i ! n) (ht ! i ! n)"
    "i < 8 \<Longrightarrow> bounded 6283010 (ht ! i)" "length ht = 8"
proof -
  note p = pass_okD [OF assms(1)]
  obtain told where c: "combined_method told (map ntt y) (se_rho e) = Some r" using assms(1) by (auto simp: pass_ok_def)
  note parts = accepted_parts [OF p(13) c p(3,14,5), folded ht_def]
  show lh: "length ht = 8" using parts(6) [of 0] by simp
  have lt: "length (t0_of t) = 8" using p(4) by (simp add: t0_of_def)
  show b: "bounded 6283010 (ht ! i)" if "i < 8" for i using parts(4) [OF that] .
  show cong: "eqm (ct0 ! i ! n) (ht ! i ! n)" if i: "i < 8" and n: "n < 256" for i n
  proof -
    have le: "4097 \<le> (8192 :: int)" by simp
    note m = cmul_exact [OF p(6) p(11) [OF i] le]
    have bi: "bounded 2143289344 (inv_ntt_to_mont (cmul cp (t0_of t ! i)))" by (rule bounded_mono [OF m(1)]) simp
    have "eqml (ht ! i) (nega_mul cp (t0_of t ! i))"
      using eqml_trans [OF poly_reduce_correct(2) [OF bi, unfolded poly_reduce_def] m(2)] parts(2) [OF i] by simp
    from eqml_nth [OF eqml_rq [OF this] n] show ?thesis using i lt by (simp add: ct0_def rq_mul_def eqm_sym)
  qed
  show "chk_norm_vec ht 261888 = 0 \<longleftrightarrow> norm_less 261888 ct0"
  proof (rule chk_norm_rows)
    fix i n assume "i < length ht" "n < (256 :: nat)"
    then have i: "i < 8" and n: "n < 256" using lh by simp_all
    show "\<bar>ht ! i ! n\<bar> < 261888 \<longleftrightarrow> \<bar>mod_pm (ct0 ! i ! n) 8380417\<bar> < 261888"
      using mod_pm_rep [OF bounded_nth [OF b [OF i] n], of 261888] mod_pm_cong [OF cong [OF i n]] by simp
  qed (use lh lt b residuesD(1) [OF rq_mul_ev(1)] in \<open>simp_all add: ct0_def\<close>)
qed

lemma hint_fips:
  assumes "pass_ok e s1 s2 t y r cp"
  defines "r' \<equiv> fips_r (se_rho e) s2 y cp" and "ct0 \<equiv> map (rq_mul cp) (t0_of t)"
  assumes d: "chk_norm_vec (low_part e r cp) 261768 = 0" and h: "chk_norm_vec (t0_part (map ntt (t0_of t)) cp) 261888 = 0"
  shows "hint_of e (map ntt (t0_of t)) r cp
    = map2 (map2 (\<lambda>a b. if a \<noteq> b then 1 else 0)) (fips_high (map2 (\<lambda>p q. rq (map2 (+) p q)) r' ct0)) (fips_high r')" (is "?h = ?h'")
proof (rule nth_equalityI)
  let ?ht = "t0_part (map ntt (t0_of t)) cp"
  note p = pass_okD [OF assms(1)] and lo = low_fips [OF assms(1), folded r'_def] and t0 = t0_fips [OF assms(1), folded ct0_def]
  obtain told where c: "combined_method told (map ntt y) (se_rho e) = Some r" using assms(1) by (auto simp: pass_ok_def)
  note parts = accepted_parts [OF p(13) c p(3,14,5)]
  have lr: "length r' = 8" using fips_r_row(1) [of s2 0] p(2) bounded_length [OF p(9) [of 0]] by (simp add: r'_def)
  have res: "residues (r' ! i)" if "i < 8" for i unfolding r'_def by (rule fips_r_row(2) [OF p(2) that bounded_length [OF p(9) [OF that]]])
  have lc: "length ct0 = 8" "length (commit r) = 8" using p(4) by (simp_all add: ct0_def t0_of_def commit_fips(1) [OF assms(1)])
  show "length ?h = length ?h'" using lo(4) t0(4) lr lc by (simp add: hint_of_def vadd_def high_bits_def fips_high_def)
  fix i assume "i < length ?h"
  then have i: "i < 8" using lo(4) t0(4) lc by (simp add: hint_of_def vadd_def high_bits_def)
  have ct: "residues (ct0 ! i)" using i p(4) rq_mul_ev(1) by (simp add: ct0_def t0_of_def)
  have w: "residues (commit r ! i)" using commit_fips(3) [OF assms(1) i] fips_az_ev(1) by simp
  note len = lo(3) [OF i] bounded_length [OF t0(3) [OF i]] residuesD(1) [OF res [OF i]] residuesD(1) [OF ct] residuesD(1) [OF w]
  have di: "bounded 261768 (low_part e r cp ! i)"
    by (rule chk_norm_bounded [OF d _ bounded_mono [OF parts(3) [OF i]]]) (use i lo(4) in simp_all)
  have hi: "bounded 261888 (?ht ! i)"
    by (rule chk_norm_bounded [OF h _ bounded_mono [OF t0(3) [OF i]]]) (use i t0(4) in simp_all)
  show "?h ! i = ?h' ! i"
  proof (rule nth_equalityI)
    show "length (?h ! i) = length (?h' ! i)"
      using i len lo(4) t0(4) lr lc by (simp add: hint_of_def vadd_def high_bits_def fips_high_def rq_def)
    fix n assume "n < length (?h ! i)"
    then have n: "n < 256" using i len lo(4) t0(4) lc by (simp add: hint_of_def vadd_def high_bits_def)
    note rr = residuesD(2,3) [OF res [OF i] n]
    have q: "0 \<le> (r' ! i ! n + ct0 ! i ! n) mod 8380417" "(r' ! i ! n + ct0 ! i ! n) mod 8380417 < 8380417" by simp_all
    have "make_hint (i32 (low_part e r cp ! i ! n + ?ht ! i ! n)) (fst (decompose (commit r ! i ! n)))
        = (if fst (decompose ((r' ! i ! n + ct0 ! i ! n) mod 8380417)) \<noteq> fst (decompose (r' ! i ! n)) then 1 else 0)"
      using bounded_nth [OF di n] bounded_nth [OF hi n] by (intro hint_check [OF rr lo(2) [OF i n]] t0(2) [OF i n]) simp_all
    then show "?h ! i ! n = ?h' ! i ! n"
      using i n len lo(4) t0(4) lr lc decompose_fips [OF rr] decompose_fips [OF q]
      by (simp add: hint_of_def vadd_def high_bits_def fips_high_def rq_def)
  qed
qed

text \<open>The number of ones.\<close>

lemma hint_count_ones: "list_all hint_poly_ok h \<Longrightarrow> length h = 8 \<Longrightarrow> hint_count h = int (ones h)"
proof -
  assume h: "list_all hint_poly_ok h" "length h = 8"
  then have "map (\<lambda>p. length (filter (\<lambda>x. x \<noteq> 0) p)) h = map (length \<circ> row_pos) h"
    by (auto simp: list_all_iff hint_poly_ok_def filter_nonzero_row_pos)
  then have "ones h = sum_list (map (length \<circ> row_pos) h)" unfolding ones_def by (rule arg_cong)
  then show ?thesis using hint_count_fold [OF h(1), of 0] h(2) by (simp add: hint_count_def length_concat)
qed

lemma length_response_hint:
  assumes "length v = 8" "length w = 8" "\<And>i. i < 8 \<Longrightarrow> length (v ! i) = 256 \<and> length (w ! i) = 256"
  shows "list_all hint_poly_ok (map2 (map2 (\<lambda>a b. if a \<noteq> b then 1 else 0)) v w)"
    "length (map2 (map2 (\<lambda>a b. if a \<noteq> b then 1 else (0 :: int))) v w) = 8"
  using assms by (auto simp: list_all_length hint_poly_ok_def)

lemma commit_encode: "w1_bytes (fips_high (map (fips_az A y) [0..<8])) = fips_w1_encode (fips_high (map (fips_az A y) [0..<8]))"
proof (rule w1_encode_eq)
  have "list_all residues (map (fips_az A y) [0..<8])" using fips_az_ev(1) by (simp add: list_all_iff)
  then show "p \<in> set (fips_high (map (fips_az A y) [0..<8])) \<Longrightarrow> length p = 256 \<and> list_all w1_ok p" for p by (rule fips_high_ok)
qed (simp add: fips_high_def)

lemma centred_ok:
  assumes "norm_less 524168 z" "length z = 7" "\<And>j. j < 7 \<Longrightarrow> length (z ! j) = 256"
  shows "z_vec_ok (map (map (\<lambda>x. mod_pm x 8380417)) z)"
  using assms by (auto simp: z_vec_ok_def norm_less_def list_all_length z_ok_def abs_less_iff)
    (smt (verit, best))+

subsection \<open>A pass, and the loop\<close>

text \<open>What a pass hands on: whether it is accepted, and the signature.\<close>

definition outcome :: "(byte list \<times> polyvec \<times> polyvec) option \<Rightarrow> bool \<times> byte list" where
  "outcome res = (case res of None \<Rightarrow> (False, []) | Some (c, z, h) \<Rightarrow> (True, sig_encode c z h))"

lemma attempt_outcome:
  assumes "pass_ok e s1 s2 t y r cp" "nv_t0 s = map ntt (t0_of t)" "length (nv_sig s) = 4627" "poly_challenge_volatile (commit_hash e r) = Some cp"
  shows "(let (s', b) = attempt_result e s y r cp in (b, if b then nv_sig s' else []))
    = outcome (the (fips_sign_pass (mat_of (se_rho e)) s1 s2 (t0_of t) (se_mu e) y))"
proof -
  let ?w = "map (fips_az (mat_of (se_rho e)) y) [0..<8]"
  define z where "z = map2 (\<lambda>p s. rq (map2 (+) p (rq_mul cp s))) y s1"
  define r' where "r' = fips_r (se_rho e) s2 y cp"
  define ct0 where "ct0 = map (rq_mul cp) (t0_of t)"
  define h where "h = map2 (map2 (\<lambda>a b. if a \<noteq> b then 1 else (0 :: int))) (fips_high (map2 (\<lambda>p q. rq (map2 (+) p q)) r' ct0)) (fips_high r')"
  note p = pass_okD [OF assms(1)]
  note Z = response_fips [OF assms(1), folded z_def] and LO = low_fips [OF assms(1), folded r'_def]
    and T0 = t0_fips [OF assms(1), folded ct0_def] and HI = hint_fips [OF assms(1), folded r'_def ct0_def, folded h_def]
  have c: "commit_hash e r = H256 (se_mu e @ fips_w1_encode (fips_high ?w)) 64"
    unfolding commit_hash_def commit_fips(2) [OF assms(1)] shake256_of_H by (simp add: commit_encode)
  have lc: "length (commit_hash e r) = 64" by (simp add: commit_hash_def)
  have lr: "length r' = 8" using fips_r_row(1) [of s2 0] p(2) bounded_length [OF p(9) [of 0]] by (simp add: r'_def)
  have lri: "length (r' ! i) = 256" if "i < 8" for i
    unfolding r'_def by (rule residuesD(1)) (rule fips_r_row(2) [OF p(2) that bounded_length [OF p(9) [OF that]]])
  have lt: "length ct0 = 8" "\<And>i. i < 8 \<Longrightarrow> length (ct0 ! i) = 256" using p(4) residuesD(1) [OF rq_mul_ev(1)] by (simp_all add: ct0_def t0_of_def)
  have hints: "list_all hint_poly_ok h" "length h = 8"
    unfolding h_def by (rule length_response_hint; use lr lri lt in \<open>simp add: fips_high_def rq_def\<close>)+
  note count = hint_count_ones [OF this]
  have lz: "length z = 7" "\<And>j. j < 7 \<Longrightarrow> length (z ! j) = 256"
    using p(1,3) bounded_length [OF p(8)] residuesD(1) [OF rq_mul_ev(1)] by (simp_all add: z_def rq_def)
  have pass: "fips_sign_pass (mat_of (se_rho e)) s1 s2 (t0_of t) (se_mu e) y = Some
      (if norm_less 524168 z \<and> norm_less 261768 (fips_low r') \<and> norm_less 261888 ct0 \<and> ones h \<le> 75
       then Some (commit_hash e r, map (map (\<lambda>x. mod_pm x 8380417)) z, h) else None)"
    using assms(4) unfolding c by (simp add: fips_sign_pass_def challenge_fips Let_def z_def r'_def fips_r_def ct0_def h_def)
  show ?thesis
  proof (cases "norm_less 524168 z \<and> norm_less 261768 (fips_low r') \<and> norm_less 261888 ct0 \<and> ones h \<le> 75")
    case True
    then have chk: "chk_norm_vec (response e y cp) 524168 = 0" "chk_norm_vec (low_part e r cp) 261768 = 0"
      "chk_norm_vec (t0_part (map ntt (t0_of t)) cp) 261888 = 0" using Z(1) LO(1) T0(1) by simp_all
    note H = HI [OF chk(2,3)]
    have "\<not> hint_count h > 75" using True count by simp
    moreover have zz: "response e y cp = map (map (\<lambda>x. mod_pm x 8380417)) z" using Z(2) True by blast
    moreover have "z_vec_ok (response e y cp)" unfolding zz by (rule centred_ok) (use True lz in simp_all)
    moreover have "hint_ok h" using True hints unfolding hint_ok_ones hint_poly_ok_def [abs_def] by simp
    note enc = pack_sig_encode [OF lc length_hashed_sig [OF assms(3)] calculation(3) this]
    ultimately show ?thesis using True chk unfolding zz by (simp add: attempt_result_def Let_def assms(2) H enc [unfolded zz] pass outcome_def zz)
  next
    case False
    then have "chk_norm_vec (response e y cp) 524168 \<noteq> 0 \<or> chk_norm_vec (low_part e r cp) 261768 \<noteq> 0
        \<or> chk_norm_vec (t0_part (map ntt (t0_of t)) cp) 261888 \<noteq> 0
        \<or> (chk_norm_vec (low_part e r cp) 261768 = 0 \<and> chk_norm_vec (t0_part (map ntt (t0_of t)) cp) 261888 = 0 \<and> hint_count h > 75)"
      using Z(1) LO(1) T0(1) count by auto
    moreover have "the (fips_sign_pass (mat_of (se_rho e)) s1 s2 (t0_of t) (se_mu e) y) = None" using False pass by simp
    ultimately show ?thesis using HI by (auto simp: attempt_result_def Let_def assms(2) outcome_def)
  qed
qed

text \<open>The commitment does not depend on the challenge; any will do.\<close>

lemma some_challenge: "ball_inv 256 60 (replicate 60 1 @ replicate 196 0)"
proof -
  have "{k. k < 256 \<and> (replicate 60 1 @ replicate 196 (0 :: int)) ! k \<noteq> 0} = {..<60}"
    by (auto simp: nth_append split: if_splits)
  then show ?thesis by (auto simp: ball_inv_def)
qed

lemma attempt_fips:
  assumes "key_ok e s1 s2 t" "nvm_ok s" "nv_t0 s = map ntt (t0_of t)"
  shows "map_option (\<lambda>(s', b). (b, if b then nv_sig s' else [])) (sign_attempt e nonce s)
    = map_option outcome (fips_sign_pass (mat_of (se_rho e)) s1 s2 (t0_of t) (se_mu e) (poly_vec_l_uniform_gamma1_volatile (se_rhoPrime e) nonce))"
proof -
  let ?y = "poly_vec_l_uniform_gamma1_volatile (se_rhoPrime e) nonce"
  have sig: "length (nv_sig s) = 4627" using assms(2) by (simp add: nvm_ok_def)
  have y: "length ?y = 7" "list_all (bounded 524289) ?y" by (simp_all add: gamma1_volatile list_all_iff poly_uniform_gamma1_range(3))
  from mat_defined_combined [OF key_rows(1) [OF assms(1)]] obtain r where r: "combined_method (nv_w1 s) (map ntt ?y) (se_rho e) = Some r" by blast
  have ok: "pass_ok e s1 s2 t ?y r cp" if "ball_inv 256 60 cp" for cp using assms(1) r y that by (auto simp: pass_ok_def)
  have c: "high_bits (commit r) = fips_high (map (fips_az (mat_of (se_rho e)) ?y) [0..<8])" by (rule commit_fips(2) [OF ok [OF some_challenge]])
  have hash: "commit_hash e r = H256 (se_mu e @ fips_w1_encode (fips_high (map (fips_az (mat_of (se_rho e)) ?y) [0..<8]))) 64"
    unfolding commit_hash_def c shake256_of_H by (simp add: commit_encode)
  show ?thesis
  proof (cases "poly_challenge_volatile (commit_hash e r)")
    case None
    then show ?thesis using r by (simp add: sign_attempt_eq [OF sig] Let_def) (simp add: hash fips_sign_pass_def challenge_fips Let_def)
  next
    case (Some cp)
    have "fips_sign_pass (mat_of (se_rho e)) s1 s2 (t0_of t) (se_mu e) ?y \<noteq> None" using Some by (simp add: hash fips_sign_pass_def challenge_fips Let_def)
    then obtain res where res: "fips_sign_pass (mat_of (se_rho e)) s1 s2 (t0_of t) (se_mu e) ?y = Some res" by blast
    from attempt_outcome [OF ok [OF challenge_inv [OF Some]] assms(3) sig Some] show ?thesis
      using r Some by (simp add: sign_attempt_eq [OF sig] Let_def res split: prod.splits)
  qed
qed

definition loop_outcome :: "(byte list \<times> polyvec \<times> polyvec) option \<Rightarrow> status \<times> byte list" where
  "loop_outcome res = (case res of None \<Rightarrow> (Code ERR_INVALID_SIGNATURE, []) | Some (c, z, h) \<Rightarrow> (Code ERR_NONE, sig_encode c z h))"

lemma loop_fips:
  assumes "key_ok e s1 s2 t" "env_ok e" "nvm_ok s" "nv_t0 s = map ntt (t0_of t)"
  shows "map_option (\<lambda>(s', st). (st, if st = Code ERR_NONE then nv_sig s' else [])) (sign_loop e (of_nat k) a s)
    = map_option loop_outcome (fips_sign_loop (mat_of (se_rho e)) s1 s2 (t0_of t) (se_mu e) (se_rhoPrime e) (7 * k) (814 - a))"
  using assms(3,4)
proof (induction "814 - a" arbitrary: a k s)
  case 0
  then show ?case by (simp add: sign_loop.simps [of e "of_nat k" a] loop_outcome_def)
next
  case (Suc n)
  then have a: "\<not> 814 \<le> a" "814 - a = Suc n" "n = 814 - (a + 1)" by simp_all
  let ?pass = "fips_sign_pass (mat_of (se_rho e)) s1 s2 (t0_of t) (se_mu e) (expand_mask (se_rhoPrime e) (7 * k))"
  note at = attempt_fips [OF assms(1) Suc.prems, of "of_nat k", unfolded mask_fips]
  show ?case
  proof (cases "sign_attempt e (of_nat k) s")
    case None
    with at have "?pass = None" by simp
    then show ?thesis using a None by (simp add: sign_loop.simps [of e "of_nat k" a])
  next
    case (Some x)
    obtain s1' b where x: "x = (s1', b)" by fastforce
    note res = sign_attempt_result [OF Some [unfolded x] assms(2) Suc.prems(1)]
    obtain o' where o: "?pass = Some o'" "outcome o' = (b, if b then nv_sig s1' else [])" using at Some x by (cases ?pass) auto
    show ?thesis
    proof (cases b)
      case True
      with o obtain c z h where "o' = Some (c, z, h)" "nv_sig s1' = sig_encode c z h" by (auto simp: outcome_def split: option.splits)
      then show ?thesis using a Some x True o(1) by (simp add: sign_loop.simps [of e "of_nat k" a] loop_outcome_def)
    next
      case False
      then have "o' = None" using o(2) by (auto simp: outcome_def split: option.splits)
      moreover have "nv_t0 s1' = map ntt (t0_of t)" using res(2) Suc.prems(2) by simp
      from Suc.hyps(1) [OF a(3) res(1) this, of "k + 1"]
      have "map_option (\<lambda>(s', st). (st, if st = Code ERR_NONE then nv_sig s' else [])) (sign_loop e (of_nat k + 1) (a + 1) s1')
          = map_option loop_outcome (fips_sign_loop (mat_of (se_rho e)) s1 s2 (t0_of t) (se_mu e) (se_rhoPrime e) (7 * k + 7) n)"
        unfolding a(3) by (simp add: add.commute)
      ultimately show ?thesis using a(1,2) Some x False o(1) by (simp add: sign_loop.simps [of e "of_nat k" a])
    qed
  qed
qed

lemma crypto_sign_eq:
  assumes "signing_key derive path rho key s1 s2 t" "message \<noteq> []" "nvm_ok s"
  shows "crypto_sign_optimized derive path message rnd s =
    sign_loop (env_of message rnd rho key s1 s2 t) 0 0 (s\<lparr>nv_t1 := t1_of t, nv_pk := pk_of rho t, nv_t0 := map ntt (t0_of t)\<rparr>)"
proof -
  from assms(1) obtain raw rhoPrime where x: "derive path = Inr raw" "expand_seed (take 32 raw) = (rho, rhoPrime, key)"
    "poly_vec_l_uniform_eta rhoPrime 0 = Some s1" "poly_vec_k_uniform_eta rhoPrime 7 = Some s2" "public_t rho (map ntt s1) s2 (nv_t1 s) = Some t"
    using public_t_old [of rho "map ntt s1" s2 "[]" "nv_t1 s"] by (auto simp: signing_key_def)
  have pk: "length rho = 32" "length (nv_pk s) = 2592" using length_expand_seed [OF x(2)] assms(3) by (simp_all add: nvm_ok_def)
  show ?thesis
    using assms(2) x pk
    by (simp add: crypto_sign_optimized_def vec_ntts power2_round_parts pack_pk_of env_of_def mu_of_def poly_vec_k_ntt_volatile_def Let_def)
qed

lemma sign_fips:
  assumes "nvm_ok s" "message \<noteq> []" "derive path = Inr raw"
  shows "map_option (\<lambda>(s', st). (st, if st = Code ERR_NONE then nv_sig s' else [])) (crypto_sign_optimized derive path message rnd s)
    = (case fips_keygen device_A (take 32 raw) of None \<Rightarrow> None
       | Some k \<Rightarrow> map_option loop_outcome (fips_sign k message rnd))"
proof (cases "fips_keygen device_A (take 32 raw)")
  case None
  have "crypto_sign_optimized derive path message rnd s = None"
  proof (rule ccontr)
    assume "crypto_sign_optimized derive path message rnd s \<noteq> None"
    then obtain s' st where "crypto_sign_optimized derive path message rnd s = Some (s', st)" by auto
    then obtain rho key s1 s2 t where "signing_key derive path rho key s1 s2 t"
      using assms by (cases rule: crypto_sign_cases) auto
    then have "fips_keygen device_A (take 32 raw) = Some (rho, key, mat_of rho, s1, s2, t)"
      using assms(3) unfolding keygen_iff [where told = "[]"] by (auto simp: signing_key_def)
    with None show False by simp
  qed
  with None show ?thesis by simp
next
  case (Some x)
  obtain rho key A s1 s2 t where x: "x = (rho, key, A, s1, s2, t)" by (cases x)
  note k = keygenD [OF Some [unfolded x]]
  have sk: "signing_key derive path rho key s1 s2 t" by (rule k(1) [of derive path raw, OF assms(3) refl])
  note ok = signing_key_ok [OF sk]
  let ?e = "env_of message rnd rho key s1 s2 t" and ?s = "s\<lparr>nv_t1 := t1_of t, nv_pk := pk_of rho t, nv_t0 := map ntt (t0_of t)\<rparr>"
  have "map_option (\<lambda>(s', st). (st, if st = Code ERR_NONE then nv_sig s' else [])) (sign_loop ?e (of_nat 0) 0 ?s)
    = map_option loop_outcome (fips_sign_loop (mat_of (se_rho ?e)) s1 s2 (t0_of t) (se_mu ?e) (se_rhoPrime ?e) 0 (814 - 0))"
    using loop_fips [OF ok(1,2) keyed_storage_ok(1) [OF assms(1) ok(3,4)], where k = 0 and a = 0] by simp
  moreover have "fips_sign_loop (mat_of (se_rho ?e)) s1 s2 (t0_of t) (se_mu ?e) (se_rhoPrime ?e) 0 814 = fips_sign x message rnd"
    by (simp add: fips_sign_def x env_of_def Let_def k(3,4,7) mu_fips shake256_of_H)
  ultimately show ?thesis using Some x by (simp add: crypto_sign_eq [OF sk assms(2,1)])
qed

text \<open>
  C1.  \<open>crypto_sign_optimized\<close> is the signing algorithm of \<open>Fips204_Spec\<close> (FIPS 204, algorithm 7, hedged, with the context string of the application
  and at most 814 passes), which is written from the standard, its encodings bit by bit and its samplers on the SHAKE streams: for every
  seed, message, random input and storage it returns the encoded signature of that algorithm, gives up exactly if all passes are
  rejected, and returns exactly if the samplers do.  The matrix is \<open>ExpandA\<close>, with the exception stated for the key generation: the code
  skips two bytes of the stream of an entry that rejects more than 24 of its first 280 candidates.
\<close>

theorem sign_is_fips204:
  assumes "nvm_ok s" "message \<noteq> []" "derive path = Inr raw"
  shows "map_option (\<lambda>(s', st). (st, if st = Code ERR_NONE then nv_sig s' else [])) (crypto_sign_optimized derive path message rnd s)
      = (case fips_keygen device_A (take 32 raw) of None \<Rightarrow> None
         | Some k \<Rightarrow> map_option loop_outcome (fips_sign k message rnd))
    \<and> (if enough_candidates (fst (fips_expand_seed (take 32 raw))) then fips_keygen device_A (take 32 raw) = fips_keygen expand_A (take 32 raw) else True)"
  using sign_fips [of s message derive path raw, OF assms] keygen_standard by simp

theorem sign_is_fips204_witness:
  "map_option (\<lambda>(s', st). (st, if st = Code ERR_NONE then nv_sig s' else []))
      (crypto_sign_optimized (\<lambda>path. Inr (replicate 64 7)) [] [1, 2, 3] (replicate 32 9) nvm_fresh)
    = (case fips_keygen device_A (replicate 32 7) of None \<Rightarrow> None
       | Some k \<Rightarrow> map_option loop_outcome (fips_sign k [1, 2, 3] (replicate 32 9)))"
proof -
  have "take 32 (replicate 64 (7 :: byte)) = replicate 32 7" by simp
  then show ?thesis using sign_is_fips204 [OF nvm_fresh_ok, of "[1, 2, 3]" "\<lambda>path. Inr (replicate 64 7)" "[]" "replicate 64 7" "replicate 32 9", THEN conjunct1] by simp
qed

end
