(* ===== verification/Tx_Buffer.thy ===== *)
theory Tx_Buffer
  imports Tx_Format
begin

text \<open>
  The formatters of \<open>ui/tx_format.c\<close> with the buffers they write to: every write is at its position in the buffer of
  the caller, the strings end with NUL, and the memory behind the declared length is part of the model.  They
  refine the functions of \<open>Tx_Format\<close> and never write outside the declared length.  The harness of
  \<open>fuzzing/fuzz_tx_format.c\<close> is modelled with its assertions.
\<close>

subsection \<open>The formatters on buffers\<close>

abbreviation (input) NUL :: char where "NUL \<equiv> CHR 0x00"

text \<open>The string in a buffer, \<open>strlen\<close> characters.\<close>

definition cstr :: "string \<Rightarrow> string" where
  "cstr buf = takeWhile (\<lambda>c. c \<noteq> NUL) buf"

text \<open>The do-while loop on \<open>temp\<close>, \<open>index\<close> and \<open>result\<close>; \<open>None\<close> is \<open>index == 0\<close>.\<close>

fun decimal_writes :: "byte list \<Rightarrow> nat \<Rightarrow> string \<Rightarrow> (nat \<times> string) option" where
  "decimal_writes temp index result =
     (let (temp', remainder) = div10 0 temp
      in if index = 0 then None
         else
           (let index' = index - 1; result = result[index' := digit remainder]
            in if list_all (\<lambda>b. b = 0) temp' then Some (index', result) else decimal_writes temp' index' result))"

declare decimal_writes.simps [simp del]

text \<open>\<open>out\<close> is the memory that starts at the output buffer; \<open>result\<close> is not read before it is written.\<close>

definition uint8_array_to_decimal_buf :: "byte list \<Rightarrow> string \<Rightarrow> nat \<Rightarrow> bool \<times> string" where
  "uint8_array_to_decimal_buf bytes out out_len =
     (if out_len = 0 \<or> length bytes > TX_FORMAT_MAX_INTEGER_BYTES then (False, out)
      else case decimal_writes bytes TX_FORMAT_MAX_DECIMAL_DIGITS (replicate (TX_FORMAT_MAX_DECIMAL_DIGITS + 1) NUL) of
        None \<Rightarrow> (False, out)
      | Some (index, result) \<Rightarrow>
          let bytes_needed = TX_FORMAT_MAX_DECIMAL_DIGITS + 1 - index
          in if bytes_needed > out_len then (False, out)
             else (True, write_at 0 (chunk index bytes_needed result) out))"

text \<open>The loop that replaces trailing zeros by NUL.\<close>

fun trim_zeros :: "nat \<Rightarrow> string \<Rightarrow> nat \<times> string" where
  "trim_zeros 0 out = (0, out)"
| "trim_zeros (Suc p) out = (if out ! p = CHR ''0'' then trim_zeros p (out[p := NUL]) else (Suc p, out))"

definition format_with_decimals_buf :: "string \<Rightarrow> nat \<Rightarrow> string \<Rightarrow> nat \<Rightarrow> bool \<times> string" where
  "format_with_decimals_buf raw decimals out out_len =
     (let len = length raw
      in if out_len = 0 then (False, out)
         else if decimals = 0 then (if len + 1 > out_len then (False, out) else (True, write_at 0 (raw @ [NUL]) out))
         else
           (let leading = (if len < decimals then decimals - len else 0);
                needed = (if len > decimals then len - decimals else 1) + 1 + leading
                         + (if len > decimals then decimals else len) + 1
            in if needed > out_len then (False, out)
               else
                 (let (pos, out) =
                    (if len \<le> decimals
                     then (let out = out[0 := CHR ''0'']; out = out[1 := CHR ''.''];
                               out = write_at 2 (replicate leading (CHR ''0'')) out
                           in (2 + leading + len, write_at (2 + leading) raw out))
                     else (let integer_len = len - decimals;
                               out = write_at 0 (take integer_len raw) out;
                               out = out[integer_len := CHR ''.'']
                           in (integer_len + 1 + decimals, write_at (integer_len + 1) (take decimals (drop integer_len raw)) out)));
                      out = out[pos := NUL];
                      (pos, out) = trim_zeros pos out
                  in if pos > 0 \<and> out ! (pos - 1) = CHR ''.'' then (True, out[pos - 1 := NUL]) else (True, out))))"

definition format_qrl_amount_buf :: "byte list \<Rightarrow> string \<Rightarrow> nat \<Rightarrow> bool \<times> string" where
  "format_qrl_amount_buf amount out out_len =
     (let (ok, decimal) = uint8_array_to_decimal_buf amount (replicate (TX_FORMAT_MAX_DECIMAL_DIGITS + 1) NUL) (TX_FORMAT_MAX_DECIMAL_DIGITS + 1)
      in if ok then format_with_decimals_buf (cstr decimal) 18 out out_len else (False, out))"

text \<open>The new contents of the memory at \<open>out\<close> and of \<open>*out_len\<close>.\<close>

definition multiply_uint8_arrays_buf :: "byte list \<Rightarrow> byte list \<Rightarrow> byte list \<Rightarrow> nat \<Rightarrow> bool \<times> byte list \<times> nat" where
  "multiply_uint8_arrays_buf a b out out_len =
     (case multiply_uint8_arrays a b out_len of
        None \<Rightarrow> (False, out, out_len)
      | Some p \<Rightarrow> (True, write_at 0 p out, length p))"

subsection \<open>The fuzzing harness\<close>

abbreviation (input) REDZONE :: nat where "REDZONE \<equiv> 32"

definition redzone_intact :: "'a \<Rightarrow> 'a list \<Rightarrow> nat \<Rightarrow> nat \<Rightarrow> bool" where
  "redzone_intact guard buf declared sz = list_all (\<lambda>i. buf ! i = guard) [declared..<sz]"

text \<open>\<open>GUARD\<close> as a character and as a byte.\<close>

abbreviation (input) guard_char :: char where "guard_char \<equiv> CHR 0xA5"

text \<open>
  \<open>LLVMFuzzerTestOneInput\<close>: \<open>True\<close> if no assertion fails.  \<open>formatter_checks\<close> is a call of a formatter on a guarded
  buffer with the assertions after it.
\<close>

definition formatter_checks :: "(string \<Rightarrow> nat \<Rightarrow> bool \<times> string) \<Rightarrow> nat \<Rightarrow> bool" where
  "formatter_checks f declared =
     (let (ok, out) = f (replicate (declared + REDZONE) guard_char) declared
      in (if ok then length (cstr out) + 1 \<le> declared else True) \<and> redzone_intact guard_char out declared (declared + REDZONE))"

definition fuzz_tx_format :: "byte list \<Rightarrow> bool" where
  "fuzz_tx_format data =
     (let size = length data
      in if size < 2 then True
         else
           (let split = unat (data ! 0) mod size;
                a = chunk 1 split data;
                b = chunk (1 + split) (size - 1 - split) data;
                (ok, product, product_len) =
                  multiply_uint8_arrays_buf a b (replicate (TX_FORMAT_MAX_INTEGER_BYTES + REDZONE) 0xA5) TX_FORMAT_MAX_INTEGER_BYTES
            in formatter_checks (uint8_array_to_decimal_buf a) TX_FORMAT_MAX_AMOUNT_LEN
               \<and> formatter_checks (format_qrl_amount_buf a) TX_FORMAT_MAX_AMOUNT_LEN
               \<and> formatter_checks (format_qrl_amount_buf a) 8
               \<and> (if ok
                  then product_len \<le> TX_FORMAT_MAX_INTEGER_BYTES
                    \<and> formatter_checks (format_qrl_amount_buf (take product_len product)) TX_FORMAT_MAX_AMOUNT_LEN
                  else True)
               \<and> redzone_intact 0xA5 product TX_FORMAT_MAX_INTEGER_BYTES (TX_FORMAT_MAX_INTEGER_BYTES + REDZONE)))"

subsection \<open>Refinement\<close>

lemma decimal_writes_refines:
  assumes "drop index result = acc @ [NUL]" "index + length acc + 1 = length result"
  shows "case decimal_loop temp index acc of
      None \<Rightarrow> decimal_writes temp index result = None
    | Some s \<Rightarrow> \<exists>result'. decimal_writes temp index result = Some (length result - length s - 1, result')
        \<and> drop (length result - length s - 1) result' = s @ [NUL] \<and> length result' = length result \<and> length s < length result"
  using assms
proof (induction temp index result arbitrary: acc rule: decimal_writes.induct)
  case (1 temp index result)
  obtain temp' r where d: "div10 0 temp = (temp', r)" by fastforce
  show ?case
  proof (cases "index = 0")
    case True
    with d show ?thesis by (simp add: decimal_writes.simps [of temp] decimal_loop.simps [of temp])
  next
    case False
    let ?result = "result[index - 1 := digit r]"
    have dr: "drop (index - 1) ?result = (digit r # acc) @ [NUL]"
      using False "1.prems" by (simp add: drop_update_swap Cons_nth_drop_Suc [symmetric] Suc_diff_Suc nth_drop)
    have len: "index - 1 + length (digit r # acc) + 1 = length ?result" using False "1.prems"(2) by simp
    show ?thesis
    proof (cases "list_all (\<lambda>b. b = 0) temp'")
      case True
      have ix: "length result - length (digit r # acc) - 1 = index - 1" using len by simp
      have "decimal_loop temp index acc = Some (digit r # acc)" using True False d by (simp add: decimal_loop.simps [of temp])
      moreover have "decimal_writes temp index result = Some (index - 1, ?result)"
        using True False d by (simp add: decimal_writes.simps [of temp] Let_def)
      moreover have "length (digit r # acc) < length result" using len by simp
      ultimately show ?thesis using dr ix by (simp del: list.size)
    next
      case zero: False
      have eqs: "decimal_writes temp index result = decimal_writes temp' (index - 1) ?result"
        "decimal_loop temp index acc = decimal_loop temp' (index - 1) (digit r # acc)"
        using False zero d by (simp_all add: decimal_writes.simps [of temp] decimal_loop.simps [of temp] Let_def)
      show ?thesis unfolding eqs
        by (rule "1.IH" [OF d [symmetric] refl False refl refl zero dr len, unfolded length_list_update])
    qed
  qed
qed

lemma decimal_buf_eq:
  "uint8_array_to_decimal_buf bytes out out_len =
     (case uint8_array_to_decimal bytes out_len of None \<Rightarrow> (False, out) | Some s \<Rightarrow> (True, write_at 0 (s @ [NUL]) out))"
proof -
  let ?r = "replicate 98 NUL"
  have "drop 97 ?r = [] @ [NUL]" "97 + length ([] :: string) + 1 = length ?r" by (simp_all add: drop_replicate)
  from decimal_writes_refines [OF this, of bytes, unfolded length_replicate]
  have r: "case decimal_loop bytes 97 [] of None \<Rightarrow> decimal_writes bytes 97 ?r = None
    | Some s \<Rightarrow> \<exists>result'. decimal_writes bytes 97 ?r = Some (98 - length s - 1, result')
        \<and> drop (98 - length s - 1) result' = s @ [NUL] \<and> length result' = 98 \<and> length s < 98" .
  show ?thesis
  proof (cases "decimal_loop bytes 97 []")
    case None
    with r show ?thesis by (simp add: uint8_array_to_decimal_buf_def uint8_array_to_decimal_def)
  next
    case (Some s)
    with r obtain result' where w: "decimal_writes bytes 97 ?r = Some (98 - length s - 1, result')"
      "drop (98 - length s - 1) result' = s @ [NUL]" "length result' = 98" "length s < 98" by auto
    have c: "chunk (98 - length s - 1) (98 - (98 - length s - 1)) result' = s @ [NUL]" using w by (simp add: chunk_def)
    show ?thesis using Some w(1,4) c by (simp add: uint8_array_to_decimal_buf_def uint8_array_to_decimal_def Let_def)
  qed
qed

text \<open>Trimming zeros.\<close>

lemma strip_zeros_snoc: "strip_zeros (s @ [c]) = (if c = CHR ''0'' then strip_zeros s else s @ [c])"
  by (simp add: strip_zeros_def)

lemma trim_zeros_eq:
  assumes "length t + n \<le> length out" "0 < n"
  shows "trim_zeros (length t) (write_at 0 (t @ replicate n NUL) out) =
    (length (strip_zeros t), write_at 0 (strip_zeros t @ replicate (length t + n - length (strip_zeros t)) NUL) out)"
  using assms
proof (induction t arbitrary: n rule: rev_induct)
  case Nil
  then show ?case by (simp add: strip_zeros_def)
next
  case (snoc c t)
  let ?w = "write_at 0 ((t @ [c]) @ replicate n NUL) out"
  have at: "?w ! length t = c" by (simp add: write_at_prefix nth_append)
  have up: "?w[length t := NUL] = write_at 0 (t @ replicate (Suc n) NUL) out"
    by (simp add: write_at_prefix list_update_append)
  show ?case
  proof (cases "c = CHR ''0''")
    case True
    then show ?thesis using snoc.IH [of "Suc n"] snoc.prems at up by (simp add: strip_zeros_snoc)
  next
    case False
    then show ?thesis using at by (simp add: strip_zeros_snoc)
  qed
qed

text \<open>What follows the placement of the digits, and its result.\<close>

definition finish :: "nat \<Rightarrow> string \<Rightarrow> bool \<times> string" where
  "finish pos out =
     (let out = out[pos := NUL]; (pos, out) = trim_zeros pos out
      in if pos > 0 \<and> out ! (pos - 1) = CHR ''.'' then (True, out[pos - 1 := NUL]) else (True, out))"

lemma finish_eq:
  assumes "length t + 1 \<le> out_len" "out_len \<le> length out"
  shows "\<exists>m. 0 < m \<and> length (strip_point (strip_zeros t)) + m \<le> out_len
    \<and> finish (length t) (write_at 0 t out) = (True, write_at 0 (strip_point (strip_zeros t) @ replicate m NUL) out)"
proof -
  let ?z = "strip_zeros t" and ?m = "length t + 1 - length (strip_zeros t)"
  have le: "length ?z \<le> length t" using strip_zeros_split [of t] by (metis length_append le_add1)
  have "(write_at 0 t out)[length t := NUL] = write_at 0 (t @ replicate 1 NUL) out" using assms by (simp add: write_then_update)
  then have tr: "trim_zeros (length t) ((write_at 0 t out)[length t := NUL]) = (length ?z, write_at 0 (?z @ replicate ?m NUL) out)"
    using trim_zeros_eq [of t 1 out] assms by simp
  show ?thesis
  proof (cases "?z \<noteq> [] \<and> last ?z = CHR ''.''")
    case True
    then obtain w where w: "?z = w @ [CHR ''.'']" by (metis append_butlast_last_id)
    have "(write_at 0 (?z @ replicate ?m NUL) out)[length ?z - 1 := NUL] = write_at 0 (w @ replicate (Suc ?m) NUL) out"
      using w by (simp add: write_at_prefix list_update_append)
    moreover have "(write_at 0 (?z @ replicate ?m NUL) out) ! (length ?z - 1) = CHR ''.''" using w by (simp add: write_at_prefix nth_append)
    moreover have "strip_point ?z = w" using w by (simp add: strip_point_def)
    ultimately show ?thesis using tr w le assms(1) by (intro exI [of _ "Suc ?m"]) (simp add: finish_def)
  next
    case False
    then have p: "strip_point ?z = ?z" by (auto simp: strip_point_def)
    have "(write_at 0 (?z @ replicate ?m NUL) out) ! (length ?z - 1) = last ?z" if "?z \<noteq> []"
      using that by (simp add: write_at_prefix nth_append last_conv_nth)
    then have "finish (length t) (write_at 0 t out) = (True, write_at 0 (?z @ replicate ?m NUL) out)" using False tr by (auto simp: finish_def)
    then show ?thesis unfolding p using le assms(1) by (intro exI [of _ ?m]) simp
  qed
qed

lemma format_buf_finish:
  assumes "out_len \<le> length out" "0 < k" "0 < out_len"
  shows "format_with_decimals_buf raw k out out_len =
    (if length raw \<le> k
     then (if 2 + (k - length raw) + length raw + 1 > out_len then (False, out)
       else (let t = ''0.'' @ replicate (k - length raw) (CHR ''0'') @ raw in finish (length t) (write_at 0 t out)))
     else (if length raw + 2 > out_len then (False, out)
       else (let t = take (length raw - k) raw @ ''.'' @ take k (drop (length raw - k) raw) in finish (length t) (write_at 0 t out))))"
proof (cases "length raw \<le> k")
  case True
  let ?z = "replicate (k - length raw) (CHR ''0'')"
  show ?thesis
  proof (cases "2 + (k - length raw) + length raw + 1 > out_len")
    case fits: False
    have lead: "(if length raw < k then k - length raw else 0) = k - length raw" using True by simp
    have "2 \<le> length out" using fits assms(1) by simp
    then have "(out[0 := CHR ''0''])[1 := CHR ''.''] = write_at 0 ''0.'' out"
      by (cases out; cases "tl out") (simp_all add: write_at_def)
    moreover have "write_at 2 ?z (write_at 0 ''0.'' out) = write_at 0 (''0.'' @ ?z) out"
      using write_then_write [of "''0.''" ?z out] fits assms(1) by (simp add: numeral_2_eq_2)
    moreover have "write_at (2 + (k - length raw)) raw (write_at 0 (''0.'' @ ?z) out) = write_at 0 (''0.'' @ ?z @ raw) out"
      using write_then_write [of "''0.'' @ ?z" raw out] fits assms(1) by simp
    ultimately show ?thesis using True fits assms(2,3) lead
      by (simp add: format_with_decimals_buf_def finish_def Let_def)
  qed (use True assms(2,3) in \<open>auto simp: format_with_decimals_buf_def Let_def\<close>)
next
  case False
  let ?i = "take (length raw - k) raw" and ?f = "take k (drop (length raw - k) raw)"
  show ?thesis
  proof (cases "length raw + 2 > out_len")
    case fits: False
    have "(write_at 0 ?i out)[length raw - k := CHR ''.''] = write_at 0 (?i @ ''.'') out"
      using write_then_update [of ?i out "CHR ''.''"] fits assms(1) by simp
    moreover have "write_at (length raw - k + 1) ?f (write_at 0 (?i @ ''.'') out) = write_at 0 (?i @ ''.'' @ ?f) out"
      using write_then_write [of "?i @ ''.''" ?f out] fits False assms(1) by simp
    ultimately show ?thesis using False fits assms(2,3)
      by (simp add: format_with_decimals_buf_def finish_def Let_def)
  qed (use False assms(2,3) in \<open>auto simp: format_with_decimals_buf_def Let_def\<close>)
qed

lemma format_buf_eq:
  assumes "out_len \<le> length out" "0 < k"
  shows "case format_with_decimals raw k out_len of
      None \<Rightarrow> format_with_decimals_buf raw k out out_len = (False, out)
    | Some s \<Rightarrow> \<exists>m. 0 < m \<and> length s + m \<le> out_len \<and> format_with_decimals_buf raw k out out_len = (True, write_at 0 (s @ replicate m NUL) out)"
proof (cases "out_len = 0")
  case True
  then show ?thesis by (simp add: format_with_decimals_def format_with_decimals_buf_def)
next
  case False
  then have pos: "0 < out_len" by simp
  let ?t = "''0.'' @ replicate (k - length raw) (CHR ''0'') @ raw"
    and ?u = "take (length raw - k) raw @ ''.'' @ take k (drop (length raw - k) raw)"
  consider (short) "length raw \<le> k" "2 + (k - length raw) + length raw + 1 \<le> out_len" | (long) "\<not> length raw \<le> k" "length raw + 2 \<le> out_len"
    | (no) "if length raw \<le> k then 2 + (k - length raw) + length raw + 1 > out_len else length raw + 2 > out_len" by (cases "length raw \<le> k") (simp_all add: not_less, linarith+)
  then show ?thesis
  proof cases
    case short
    have lead: "(if length raw < k then k - length raw else 0) = k - length raw" using short by simp
    have "format_with_decimals raw k out_len = Some (strip_point (strip_zeros ?t))"
      using short assms(2) pos lead by (simp add: format_with_decimals_def Let_def)
    moreover have "format_with_decimals_buf raw k out out_len = finish (length ?t) (write_at 0 ?t out)"
      using format_buf_finish [OF assms pos, of raw] short by (simp add: Let_def)
    ultimately show ?thesis using finish_eq [of ?t out_len out] short assms(1) by simp
  next
    case long
    have "format_with_decimals raw k out_len = Some (strip_point (strip_zeros ?u))"
      using long assms(2) pos by (simp add: format_with_decimals_def Let_def)
    moreover have "format_with_decimals_buf raw k out out_len = finish (length ?u) (write_at 0 ?u out)"
      using format_buf_finish [OF assms pos, of raw] long by (simp add: Let_def)
    ultimately show ?thesis using finish_eq [of ?u out_len out] long assms(1) by simp
  next
    case no
    then have "format_with_decimals raw k out_len = None" using assms(2) pos by (auto simp: format_with_decimals_def Let_def split: if_splits)
    moreover have "format_with_decimals_buf raw k out out_len = (False, out)"
      using format_buf_finish [OF assms pos, of raw] no by (auto split: if_splits)
    ultimately show ?thesis by simp
  qed
qed

text \<open>No digit is NUL.\<close>

lemma digit_not_nul: "r < 10 \<Longrightarrow> digit r \<noteq> NUL"
proof
  assume "r < 10" "digit r = NUL"
  then have "of_char NUL = 48 + r" using of_char_digit by metis
  then show False by simp
qed

lemma dec_str_no_nul: "NUL \<notin> set (dec_str n)"
proof (induction n rule: dec_str.induct)
  case (1 n)
  have "NUL \<noteq> digit (n mod 10)" "n < 10 \<Longrightarrow> NUL \<noteq> digit n" using digit_not_nul [of n] digit_not_nul [of "n mod 10"] by auto
  with 1 show ?case by (subst dec_str.simps) simp
qed

lemma to_decimal_no_nul:
  assumes "uint8_array_to_decimal bytes n = Some s"
  shows "NUL \<notin> set s"
proof -
  have "length bytes \<le> 40"
  proof (rule ccontr)
    assume "\<not> length bytes \<le> 40"
    with assms show False by (simp add: uint8_array_to_decimal_def)
  qed
  from to_decimal_eq [OF this, of n] assms have "s = dec_str (be_nat bytes)" by (simp split: if_splits)
  then show ?thesis using dec_str_no_nul by simp
qed

lemma format_no_nul:
  assumes "format_with_decimals raw k n = Some s" "NUL \<notin> set raw"
  shows "NUL \<notin> set s"
proof -
  have zeros: "set (strip_zeros t) \<subseteq> set t" for t by (rule strip_zeros_split [of t]) (metis Un_iff set_append subsetI)
  have strip: "set (strip_point (strip_zeros t)) \<subseteq> set t" for t
    using zeros [of t] by (auto simp: strip_point_def dest: in_set_butlastD)
  let ?t = "''0.'' @ replicate (k - length raw) (CHR ''0'') @ raw"
    and ?u = "take (length raw - k) raw @ ''.'' @ take k (drop (length raw - k) raw)"
  have lead: "(if length raw < k then k - length raw else 0) = k - length raw" by simp
  have sub: "set (take m raw) \<subseteq> set raw" "set (take m (drop l raw)) \<subseteq> set raw" for m l
    by (meson in_set_takeD in_set_dropD subsetI)+
  have "NUL \<notin> set ?t" "NUL \<notin> set ?u" using assms(2) sub by (auto dest: in_set_dropD simp del: take_append drop_append)
  moreover have "s = raw \<or> s = strip_point (strip_zeros ?t) \<or> s = strip_point (strip_zeros ?u)"
    using assms(1) unfolding format_with_decimals_def Let_def lead by (simp only: split: if_splits) simp_all
  ultimately show ?thesis using assms(2) strip [of ?t] strip [of ?u] by blast
qed

text \<open>A formatter on a buffer refines one on strings: it writes its text and at least one NUL within the declared length.\<close>

definition writes :: "(string \<Rightarrow> nat \<Rightarrow> bool \<times> string) \<Rightarrow> (nat \<Rightarrow> string option) \<Rightarrow> string \<Rightarrow> nat \<Rightarrow> bool" where
  "writes f g out out_len \<longleftrightarrow>
     (case g out_len of
        None \<Rightarrow> f out out_len = (False, out)
      | Some s \<Rightarrow> \<exists>m. 0 < m \<and> length s + m \<le> out_len \<and> NUL \<notin> set s \<and> f out out_len = (True, write_at 0 (s @ replicate m NUL) out))"

lemma decimal_writes_ok: "writes (uint8_array_to_decimal_buf bytes) (uint8_array_to_decimal bytes) out out_len"
  using to_decimal_no_nul [of bytes out_len]
  by (auto simp: writes_def decimal_buf_eq uint8_array_to_decimal_def split: option.splits if_splits intro: exI [of _ 1])

lemma cstr_written: "NUL \<notin> set s \<Longrightarrow> 0 < m \<Longrightarrow> cstr (write_at 0 (s @ replicate m NUL) out) = s"
  by (cases m) (auto simp: cstr_def write_at_prefix takeWhile_append intro: takeWhile_eq_all_conv [THEN iffD2])

lemma amount_writes_ok:
  assumes "out_len \<le> length out"
  shows "writes (format_qrl_amount_buf amount) (format_qrl_amount amount) out out_len"
proof (cases "uint8_array_to_decimal amount 98")
  case None
  then show ?thesis by (simp add: writes_def format_qrl_amount_def format_qrl_amount_buf_def decimal_buf_eq)
next
  case (Some raw)
  note nul = to_decimal_no_nul [OF Some]
  have "cstr (write_at 0 (raw @ [NUL]) (replicate 98 NUL)) = raw" using cstr_written [OF nul, of 1] by simp
  then have "format_qrl_amount_buf amount out out_len = format_with_decimals_buf raw 18 out out_len"
    using Some by (simp add: format_qrl_amount_buf_def decimal_buf_eq)
  moreover have "format_qrl_amount amount out_len = format_with_decimals raw 18 out_len" using Some by (simp add: format_qrl_amount_def)
  ultimately show ?thesis
    using format_buf_eq [OF assms, of 18 raw] format_no_nul [of raw 18 out_len, OF _ nul] by (auto simp: writes_def split: option.splits)
qed

text \<open>A write within the declared length keeps the memory behind it.\<close>

lemma written_frame:
  assumes "length xs \<le> out_len" "out_len \<le> length out"
  shows "length (write_at 0 xs out) = length out" "drop out_len (write_at 0 xs out) = drop out_len out"
    "\<And>i. out_len \<le> i \<Longrightarrow> i < length out \<Longrightarrow> write_at 0 xs out ! i = out ! i"
proof -
  show "length (write_at 0 xs out) = length out" using assms by simp
  show "drop out_len (write_at 0 xs out) = drop out_len out" using assms by (simp add: write_at_prefix)
  show "\<And>i. out_len \<le> i \<Longrightarrow> i < length out \<Longrightarrow> write_at 0 xs out ! i = out ! i" using assms by (simp add: write_at_prefix nth_append)
qed

lemma multiply_fits: "multiply_uint8_arrays a b n = Some p \<Longrightarrow> length p \<le> n"
  using multiply_product [of a b n] by (cases "length a + length b \<le> 40") (auto simp: multiply_uint8_arrays_def)

text \<open>
  C19.  The formatters never write outside the buffer they are given: for memory that is at least as long as the declared
  length, a call either fails and writes nothing, or leaves exactly the text of \<open>Tx_Format\<close> with its NUL
  within the declared length, and the memory behind is unchanged; the product never exceeds \<open>*out_len\<close> bytes.
\<close>

theorem formatters_stay_in_bounds:
  assumes "out_len \<le> length out" "out_len \<le> length mem"
  shows "(case uint8_array_to_decimal bytes out_len of
        None \<Rightarrow> uint8_array_to_decimal_buf bytes out out_len = (False, out)
      | Some s \<Rightarrow> \<exists>out'. uint8_array_to_decimal_buf bytes out out_len = (True, out') \<and> cstr out' = s \<and> length s < out_len
          \<and> length out' = length out \<and> drop out_len out' = drop out_len out)
    \<and> (case format_qrl_amount bytes out_len of
        None \<Rightarrow> format_qrl_amount_buf bytes out out_len = (False, out)
      | Some s \<Rightarrow> \<exists>out'. format_qrl_amount_buf bytes out out_len = (True, out') \<and> cstr out' = s \<and> length s < out_len
          \<and> length out' = length out \<and> drop out_len out' = drop out_len out)
    \<and> (case multiply_uint8_arrays bytes bytes' out_len of
        None \<Rightarrow> multiply_uint8_arrays_buf bytes bytes' mem out_len = (False, mem, out_len)
      | Some p \<Rightarrow> \<exists>mem'. multiply_uint8_arrays_buf bytes bytes' mem out_len = (True, mem', length p) \<and> take (length p) mem' = p
          \<and> length p \<le> out_len \<and> length mem' = length mem \<and> drop out_len mem' = drop out_len mem)"
proof -
  have strings: "case g out_len of None \<Rightarrow> f out out_len = (False, out)
      | Some s \<Rightarrow> \<exists>out'. f out out_len = (True, out') \<and> cstr out' = s \<and> length s < out_len
          \<and> length out' = length out \<and> drop out_len out' = drop out_len out" if "writes f g out out_len" for f g
  proof (cases "g out_len")
    case (Some s)
    with that obtain m where m: "0 < m" "length s + m \<le> out_len" "NUL \<notin> set s" "f out out_len = (True, write_at 0 (s @ replicate m NUL) out)"
      by (auto simp: writes_def)
    then have len: "length (s @ replicate m NUL) \<le> out_len" by simp
    with m Some show ?thesis using written_frame [OF len assms(1)] cstr_written [OF m(3,1), of out] by simp
  qed (use that in \<open>simp add: writes_def\<close>)
  have "case multiply_uint8_arrays bytes bytes' out_len of
        None \<Rightarrow> multiply_uint8_arrays_buf bytes bytes' mem out_len = (False, mem, out_len)
      | Some p \<Rightarrow> \<exists>mem'. multiply_uint8_arrays_buf bytes bytes' mem out_len = (True, mem', length p) \<and> take (length p) mem' = p
          \<and> length p \<le> out_len \<and> length mem' = length mem \<and> drop out_len mem' = drop out_len mem"
  proof (cases "multiply_uint8_arrays bytes bytes' out_len")
    case (Some p)
    with written_frame [OF multiply_fits [OF Some] assms(2)] multiply_fits [OF Some] show ?thesis
      by (simp add: multiply_uint8_arrays_buf_def) (simp add: write_at_prefix)
  qed (simp add: multiply_uint8_arrays_buf_def)
  then show ?thesis using strings [OF decimal_writes_ok] strings [OF amount_writes_ok [OF assms(1)]] by blast
qed

theorem formatters_stay_in_bounds_witness:
  "\<exists>out'. format_qrl_amount_buf [1, 0] (replicate 132 guard_char) 100 = (True, out') \<and> parse_amount (cstr out') = 256
     \<and> drop 100 out' = drop 100 (replicate 132 guard_char)"
proof -
  have "\<exists>s. format_qrl_amount [1, 0] 100 = Some s \<and> parse_amount s = be_nat [1, 0]" by (rule format_amount_exact) simp_all
  then show ?thesis
    using formatters_stay_in_bounds [of 100 "replicate 132 guard_char" "replicate 132 0" "[1, 0]" "[]"] by (auto simp: be_nat_def)
qed

subsection \<open>The harness finds nothing\<close>

lemma formatter_checks_ok:
  assumes "writes f g (replicate (n + 32) guard_char) n"
  shows "formatter_checks f n"
proof (cases "g n")
  case None
  then show ?thesis using assms by (simp add: writes_def formatter_checks_def redzone_intact_def list_all_iff)
next
  case (Some s)
  with assms obtain m where m: "0 < m" "length s + m \<le> n" "NUL \<notin> set s"
    "f (replicate (n + 32) guard_char) n = (True, write_at 0 (s @ replicate m NUL) (replicate (n + 32) guard_char))"
    by (auto simp: writes_def)
  then have len: "length (s @ replicate m NUL) \<le> n" "n \<le> length (replicate (n + 32) guard_char)" by simp_all
  show ?thesis
    using m written_frame(3) [OF len] cstr_written [OF m(3,1)] by (simp add: formatter_checks_def redzone_intact_def list_all_iff)
qed

text \<open>
  C20.  The fuzzing harness for the formatters never reports a failure: none of its assertions fails, on any input.
\<close>

theorem fuzz_tx_format_passes: "fuzz_tx_format data"
proof -
  have checks: "formatter_checks (uint8_array_to_decimal_buf a) 100" "formatter_checks (format_qrl_amount_buf a) n" for a n
    by (rule formatter_checks_ok [OF decimal_writes_ok] formatter_checks_ok [OF amount_writes_ok]; simp)+
  have mult: "(ok \<longrightarrow> n \<le> 40) \<and> redzone_intact 0xA5 product 40 72"
    if "multiply_uint8_arrays_buf a b (replicate 72 0xA5) 40 = (ok, product, n)" for a b ok product n
  proof (cases "multiply_uint8_arrays a b 40")
    case None
    with that show ?thesis by (auto simp: multiply_uint8_arrays_buf_def redzone_intact_def list_all_iff)
  next
    case (Some p)
    have "40 \<le> length (replicate 72 (0xA5 :: byte))" by simp
    from written_frame(3) [OF multiply_fits [OF Some] this] multiply_fits [OF Some] Some that show ?thesis
      by (auto simp: multiply_uint8_arrays_buf_def redzone_intact_def list_all_iff)
  qed
  show ?thesis using checks by (auto simp: fuzz_tx_format_def Let_def dest!: mult)
qed

end
