(* ===== verification/Review_Buffer.thy ===== *)
theory Review_Buffer
  imports Review Tx_Buffer Device_Safety
begin

text \<open>
  The static buffers of \<open>ui/nbgl_display_transaction.c\<close>.  A review does not hold texts: \<open>pairs\<close> points to buffers that every review
  reuses, some of them without clearing.  Here the function that starts a review works on these buffers; whatever an earlier
  review has left in them, the texts read through the pointers are those of \<open>Device\<close>.
\<close>

subsection \<open>The buffers\<close>

text \<open>The buffer a \<open>value\<close> points to.\<close>

datatype text_buf = FROM_ADDRESS | AMOUNT | TO_ADDRESS | MAX_FEES | CHAIN_ID | NONCE | GAS_LIMIT | GAS_TIP_CAP | TX_HASH

text \<open>The static data of the file, \<open>pairList.nbPairs\<close> included; an entry of \<open>pairs\<close> that no review has written is \<open>None\<close>.\<close>

record review_mem =
  g_from_address :: string
  g_amount :: string
  g_to_address :: string
  g_max_fees :: string
  g_chain_id :: string
  g_nonce :: string
  g_gas_limit :: string
  g_gas_tip_cap :: string
  g_tx_hash :: string
  tag_pairs :: "(string \<times> text_buf) option list"
  nbPairs :: nat

fun text_of :: "review_mem \<Rightarrow> text_buf \<Rightarrow> string" where
  "text_of m FROM_ADDRESS = cstr (g_from_address m)"
| "text_of m AMOUNT = cstr (g_amount m)"
| "text_of m TO_ADDRESS = cstr (g_to_address m)"
| "text_of m MAX_FEES = cstr (g_max_fees m)"
| "text_of m CHAIN_ID = cstr (g_chain_id m)"
| "text_of m NONCE = cstr (g_nonce m)"
| "text_of m GAS_LIMIT = cstr (g_gas_limit m)"
| "text_of m GAS_TIP_CAP = cstr (g_gas_tip_cap m)"
| "text_of m TX_HASH = cstr (g_tx_hash m)"

text \<open>What the SDK draws: the first \<open>nbPairs\<close> entries, each text up to its NUL.\<close>

definition shown :: "review_mem \<Rightarrow> (string \<times> string) list" where
  "shown m = List.map_filter (map_option (\<lambda>(item, b). (item, text_of m b))) (take (nbPairs m) (tag_pairs m))"

text \<open>The declared sizes.\<close>

definition mem_ok :: "review_mem \<Rightarrow> bool" where
  "mem_ok m \<longleftrightarrow>
     length (g_from_address m) = 1 + ADDRESS_SIZE * 2 + 1 \<and> length (g_amount m) = TX_FORMAT_MAX_AMOUNT_LEN + 5 \<and>
     length (g_to_address m) = 1 + ADDRESS_SIZE * 2 + 1 \<and> length (g_max_fees m) = TX_FORMAT_MAX_AMOUNT_LEN + 5 \<and>
     length (g_chain_id m) = TX_FORMAT_MAX_DECIMAL_DIGITS + 1 \<and> length (g_nonce m) = 21 \<and> length (g_gas_limit m) = 21 \<and>
     length (g_gas_tip_cap m) = TX_FORMAT_MAX_AMOUNT_LEN + 5 \<and> length (g_tx_hash m) = 65 \<and> length (tag_pairs m) = 9"

subsection \<open>Writers\<close>

definition memset0 :: "string \<Rightarrow> string" where
  "memset0 buf = replicate (length buf) NUL"

text \<open>A write to one element.  Outside the array it makes the list longer, so that a function which keeps the sizes has made none.\<close>

definition put :: "nat \<Rightarrow> 'a \<Rightarrow> 'a list \<Rightarrow> 'a list" where
  "put i x out = write_at i [x] out"

text \<open>\<open>format_checksummed_address\<close> with its writes: the digits, the letters in upper case, the prefix and the NUL.\<close>

definition format_checksummed_address_buf :: "byte list \<Rightarrow> string \<Rightarrow> nat \<Rightarrow> bool \<times> string" where
  "format_checksummed_address_buf addr out out_len =
     (if out_len < 1 + 2 * ADDRESS_SIZE + 1 then (False, out)
      else
        (let out = fold (\<lambda>i out. put (1 + (2 * i + 1)) (hexc ! unat (addr ! i AND 0x0F))
                                  (put (1 + 2 * i) (hexc ! unat (drop_bit 4 (addr ! i))) out)) [0..<ADDRESS_SIZE] out;
             msk = shake256_of [map of_char (chunk 1 (2 * ADDRESS_SIZE) out)] ADDRESS_SIZE;
             out = fold (\<lambda>i out. put (1 + i) (checksum_char msk i (out ! (1 + i))) out) [0..<2 * ADDRESS_SIZE] out;
             out = put 0 (CHR ''Q'') out;
             out = put (1 + 2 * ADDRESS_SIZE) NUL out
         in (True, out)))"

text \<open>\<open>snprintf(out, sizeof(out), "QRL %s", amount)\<close>.\<close>

definition snprintf_qrl :: "string \<Rightarrow> string \<Rightarrow> string" where
  "snprintf_qrl amount out = write_at 0 (take (length out - 1) (''QRL '' @ cstr amount) @ [NUL]) out"

definition bytes_to_lower_hex_buf :: "byte list \<Rightarrow> nat \<Rightarrow> string \<Rightarrow> string" where
  "bytes_to_lower_hex_buf bytes len out =
     (let out = fold (\<lambda>i out. put (2 * i + 1) (hexc ! unat (bytes ! i AND 0x0F))
                               (put (2 * i) (hexc ! unat (drop_bit 4 (bytes ! i))) out)) [0..<len] out
      in put (2 * len) NUL out)"

text \<open>\<open>ADD_PAIR\<close>; the second component is \<open>count\<close>.\<close>

definition add_pair :: "string \<Rightarrow> text_buf \<Rightarrow> review_mem \<times> nat \<Rightarrow> review_mem \<times> nat" where
  "add_pair label text = (\<lambda>(m, count). (m\<lparr>tag_pairs := put count (Some (label, text)) (tag_pairs m)\<rparr>, count + 1))"

subsection \<open>Starting a review\<close>

text \<open>
  The part of \<open>ui_display_transaction_bs_choice\<close> from the first \<open>memset\<close> to \<open>pairList.pairs\<close>: the status word of the first step that
  fails, if any, and the buffers.  The local \<open>amount\<close> serves the value and the tip; of \<open>fee_product\<close> only the product is read.
\<close>

definition add_pairs :: "byte list \<Rightarrow> nvm \<Rightarrow> zond_tx \<Rightarrow> review_mem \<Rightarrow> 16 word option \<times> review_mem" where
  "add_pairs hash s tx m =
     (let (m, count) =
        add_pair ''Max fees'' MAX_FEES (add_pair ''Priority fee / gas'' GAS_TIP_CAP (add_pair ''Gas limit'' GAS_LIMIT
          (add_pair ''Chain ID'' CHAIN_ID (add_pair ''To'' TO_ADDRESS (add_pair ''Amount'' AMOUNT (add_pair ''From'' FROM_ADDRESS (m, 0)))))));
          (ok, m, count) =
            (if display_nonce s \<noteq> 0
             then (let (ok, out) = uint8_array_to_decimal_buf (take (unat (nonce_len tx)) (nonce tx)) (g_nonce m) 21;
                       m = m\<lparr>g_nonce := out\<rparr>
                   in if \<not> ok then (False, m, count) else (let (m, count) = add_pair ''Nonce'' NONCE (m, count) in (True, m, count)))
             else (True, m, count))
      in if \<not> ok then (Some SW_DISPLAY_AMOUNT_FAIL, m)
         else
           (let (m, count) =
              (if display_tx_hash s \<noteq> 0
               then add_pair ''Transaction hash'' TX_HASH (m\<lparr>g_tx_hash := bytes_to_lower_hex_buf hash 32 (g_tx_hash m)\<rparr>, count)
               else (m, count))
            in (None, m\<lparr>nbPairs := count\<rparr>)))"

definition format_review :: "byte list \<Rightarrow> byte list \<Rightarrow> nvm \<Rightarrow> zond_tx \<Rightarrow> review_mem \<Rightarrow> 16 word option \<times> review_mem" where
  "format_review from hash s tx m =
     (let (ok, out) = format_checksummed_address_buf from (memset0 (g_from_address m)) (1 + ADDRESS_SIZE * 2 + 1);
          m = m\<lparr>g_from_address := out\<rparr>
      in if \<not> ok then (Some SW_DISPLAY_ADDRESS_FAIL, m) else
      let (ok, amount) = format_qrl_amount_buf (take (unat (value_len tx)) (tx_value tx)) (replicate TX_FORMAT_MAX_AMOUNT_LEN NUL) TX_FORMAT_MAX_AMOUNT_LEN
      in if \<not> ok then (Some SW_DISPLAY_AMOUNT_FAIL, m) else
      let m = m\<lparr>g_amount := snprintf_qrl amount (memset0 (g_amount m))\<rparr>;
          (ok, out) = format_checksummed_address_buf (to_addr tx) (memset0 (g_to_address m)) (1 + ADDRESS_SIZE * 2 + 1);
          m = m\<lparr>g_to_address := out\<rparr>
      in if \<not> ok then (Some SW_DISPLAY_ADDRESS_FAIL, m) else
      let (ok, fee_product, fee_product_len) = multiply_uint8_arrays_buf (take (unat (gas_fee_cap_len tx)) (gas_fee_cap tx))
            (take (unat (gas_len tx)) (gas tx)) (replicate TX_FORMAT_MAX_INTEGER_BYTES 0) TX_FORMAT_MAX_INTEGER_BYTES
      in if \<not> ok then (Some SW_DISPLAY_AMOUNT_FAIL, m) else
      let (ok, max_fees) = format_qrl_amount_buf (take fee_product_len fee_product) (replicate TX_FORMAT_MAX_AMOUNT_LEN NUL) TX_FORMAT_MAX_AMOUNT_LEN
      in if \<not> ok then (Some SW_DISPLAY_AMOUNT_FAIL, m) else
      let m = m\<lparr>g_max_fees := snprintf_qrl max_fees (memset0 (g_max_fees m))\<rparr>;
          (ok, out) = uint8_array_to_decimal_buf (take (unat (chain_id_len tx)) (chain_id tx)) (g_chain_id m) (TX_FORMAT_MAX_DECIMAL_DIGITS + 1);
          m = m\<lparr>g_chain_id := out\<rparr>
      in if \<not> ok then (Some SW_DISPLAY_AMOUNT_FAIL, m) else
      let (ok, out) = uint8_array_to_decimal_buf (take (unat (gas_len tx)) (gas tx)) (g_gas_limit m) 21;
          m = m\<lparr>g_gas_limit := out\<rparr>
      in if \<not> ok then (Some SW_DISPLAY_AMOUNT_FAIL, m) else
      let (ok, amount) = format_qrl_amount_buf (take (unat (gas_tip_cap_len tx)) (gas_tip_cap tx)) amount TX_FORMAT_MAX_AMOUNT_LEN
      in if \<not> ok then (Some SW_DISPLAY_AMOUNT_FAIL, m) else
      add_pairs hash s tx (m\<lparr>g_gas_tip_cap := snprintf_qrl amount (g_gas_tip_cap m)\<rparr>))"

definition ui_display_transaction_bs_choice_mem ::
  "sdk \<Rightarrow> bool \<Rightarrow> zond_tx \<Rightarrow> device \<Rightarrow> review_mem \<Rightarrow> (device \<times> int \<times> review_mem) option" where
  "ui_display_transaction_bs_choice_mem sdk is_blind_signed tx d m =
     (if req_type (G_context d) \<noteq> CONFIRM_TRANSACTION \<or> state (G_context d) \<noteq> STATE_PARSED
      then (let (d, ret) = io_send_sw sdk SW_BAD_STATE (set_ctx (\<lambda>c. c\<lparr>state := STATE_NONE\<rparr>) d) in Some (d, ret, m))
      else
        (let d = d\<lparr>screen := Spinner ''Getting address''\<rparr>
         in case context_address sdk d of
              None \<Rightarrow> None
            | Some (d, Inl err) \<Rightarrow> (let (d, ret) = io_send_sw sdk SW_DISPLAY_ADDRESS_FAIL d in Some (d, ret, m))
            | Some (d, Inr from) \<Rightarrow>
                (case format_review from (m_hash (tx_info (G_context d))) (N_storage d) tx m of
                   (Some w, m) \<Rightarrow> (let (d, ret) = io_send_sw sdk w d in Some (d, ret, m))
                 | (None, m) \<Rightarrow> Some (d\<lparr>screen := Review_transaction is_blind_signed (shown m)\<rparr>, 0, m))))"

subsection \<open>What the writers write\<close>

lemma write_at_snoc: "off + length xs < length out \<Longrightarrow> put (off + length xs) c (write_at off xs out) = write_at off (xs @ [c]) out"
  by (simp add: put_def write_at_def)

lemma put_inside: "i < length out \<Longrightarrow> put i c out = out[i := c]"
  by (simp add: put_def write_at_def upd_conv_take_nth_drop)

lemma fold_digits:
  "off + 2 * n \<le> length out \<Longrightarrow>
    fold (\<lambda>i out. put (off + (2 * i + 1)) (g i) (put (off + 2 * i) (f i) out)) [0..<n] out = write_at off (concat (map (\<lambda>i. [f i, g i]) [0..<n])) out"
proof (induction n)
  case (Suc n)
  let ?xs = "concat (map (\<lambda>i. [f i, g i]) [0..<n])"
  have len: "length ?xs = 2 * n" by (induction n) simp_all
  have "put (off + 2 * n) (f n) (write_at off ?xs out) = write_at off (?xs @ [f n]) out"
    using write_at_snoc [of off ?xs out "f n"] len Suc.prems by simp
  moreover have "put (off + (2 * n + 1)) (g n) (write_at off (?xs @ [f n]) out) = write_at off ((?xs @ [f n]) @ [g n]) out"
    using write_at_snoc [of off "?xs @ [f n]" out "g n"] len Suc.prems by simp
  ultimately show ?case using Suc by simp
qed (simp add: write_at_def)

lemma fold_letters:
  fixes body out :: string
  assumes "length body + 1 \<le> length out" "n \<le> length body"
  shows "fold (\<lambda>i out. put (1 + i) (f i (out ! (1 + i))) out) [0..<n] (write_at 1 body out)
    = write_at 1 (map (\<lambda>i. f i (body ! i)) [0..<n] @ drop n body) out"
  using assms(2)
proof (induction n)
  case (Suc n)
  let ?xs = "map (\<lambda>i. f i (body ! i)) [0..<n]"
  have split: "drop n body = body ! n # drop (Suc n) body" using Suc.prems by (simp add: Cons_nth_drop_Suc)
  have nth: "write_at 1 (?xs @ drop n body) out ! (1 + n) = body ! n"
    using assms(1) unfolding split by (simp add: write_at_def nth_append)
  have "put (1 + n) c (write_at 1 (?xs @ drop n body) out) = write_at 1 ((?xs @ [c]) @ drop (Suc n) body) out" for c
    using assms(1) unfolding split by (simp add: put_def write_at_def)
  with Suc nth show ?case by simp
qed simp

lemma address_buf_eq:
  assumes "length addr = 64" "length out = 130"
  shows "format_checksummed_address_buf addr out 130 = (True, write_at 0 (address_text addr @ [NUL]) out)"
proof -
  have body: "concat (map (\<lambda>i. [hexc ! unat (drop_bit 4 (addr ! i)), hexc ! unat (addr ! i AND 0x0F)]) [0..<64]) = hex_body addr"
  proof -
    have "map (\<lambda>i. [hexc ! unat (drop_bit 4 (addr ! i)), hexc ! unat (addr ! i AND 0x0F)]) [0..<64]
        = map (\<lambda>b. [hexc ! unat (drop_bit 4 b), hexc ! unat (b AND 0x0F)]) addr"
      by (rule nth_equalityI) (simp_all add: assms(1))
    then show ?thesis by (simp only: hex_body_def)
  qed
  have len: "length (hex_body addr) = 128" using assms(1) by (simp add: hex_body_def length_concat comp_def sum_list_triv)
  let ?msk = "shake256_of [map of_char (hex_body addr)] 64"
  let ?t = "map (\<lambda>i. checksum_char ?msk i (hex_body addr ! i)) [0..<128]"
  have full: "address_text addr = CHR ''Q'' # ?t" by (simp add: address_text_def format_checksummed_address_def Let_def)
  have "put 0 (CHR ''Q'') (write_at 1 ?t out) = write_at 0 (CHR ''Q'' # ?t) out"
    using assms(2) by (cases out) (simp_all add: put_def write_at_def)
  moreover have "put 129 NUL (write_at 0 (CHR ''Q'' # ?t) out) = write_at 0 ((CHR ''Q'' # ?t) @ [NUL]) out"
    using write_at_snoc [of 0 "CHR ''Q'' # ?t" out NUL] assms(2) by simp
  moreover have "chunk 1 128 (write_at 1 (hex_body addr) out) = hex_body addr"
    using len assms(2) by (simp add: chunk_def write_at_def)
  moreover have "fold (\<lambda>i out. put (1 + i) (checksum_char ?msk i (out ! (1 + i))) out) [0..<128] (write_at 1 (hex_body addr) out) = write_at 1 ?t out"
    using fold_letters [of "hex_body addr" out 128] len assms(2) by simp
  ultimately show ?thesis
    using fold_digits [of 1 64 out] assms(2) by (simp add: format_checksummed_address_buf_def Let_def body full)
qed

lemma letter_not_nul: "list_all (\<lambda>k. hexc ! k \<noteq> NUL \<and> (97 \<le> (of_char (hexc ! k) :: nat) \<longrightarrow> char_of (of_char (hexc ! k) - 32 :: nat) \<noteq> NUL)) [0..<16]"
  by code_simp

lemma nibble_less: "unat (drop_bit 4 b) < 16" "unat (b AND 0x0F) < 16" for b :: byte
proof -
  have "b AND 0x0F = take_bit 4 b" by (simp add: take_bit_eq_mask mask_eq_exp_minus_1)
  then show "unat (b AND 0x0F) < 16" by (simp add: take_bit_eq_mod unat_mod)
  show "unat (drop_bit 4 b) < 16" using unat_byte_less [of b] by (simp add: drop_bit_eq_div unat_div)
qed

lemma hex_digits: "c \<in> set (hex_body bytes) \<Longrightarrow> \<exists>k<16. c = hexc ! k"
  using nibble_less by (auto simp: hex_body_def)

lemma address_text_no_nul: "length addr = 64 \<Longrightarrow> NUL \<notin> set (address_text addr)"
proof -
  assume "length addr = 64"
  then have len: "length (hex_body addr) = 128" by (simp add: hex_body_def length_concat comp_def sum_list_triv)
  have "checksum_char msk i c \<noteq> NUL" if "c \<in> set (hex_body addr)" for msk i c
    using hex_digits [OF that] letter_not_nul by (auto simp: list_all_iff checksum_char_def)
  then have "checksum_char msk i (hex_body addr ! i) \<noteq> NUL" if "i < 128" for msk i using nth_mem [of i "hex_body addr"] len that by metis
  then show ?thesis by (auto simp: address_text_def format_checksummed_address_def Let_def) metis
qed

lemma hex_text_no_nul: "NUL \<notin> set (bytes_to_lower_hex bytes)"
proof -
  have "bytes_to_lower_hex bytes = hex_body bytes" by (simp add: bytes_to_lower_hex_def hex_body_def)
  moreover have "hexc ! k \<noteq> NUL" if "k < 16" for k using letter_not_nul that by (simp add: list_all_iff)
  ultimately show ?thesis using hex_digits [of NUL bytes] by metis
qed

text \<open>A buffer that holds a text, within its size.\<close>

definition holds :: "string \<Rightarrow> nat \<Rightarrow> string \<Rightarrow> bool" where
  "holds out n s \<longleftrightarrow> length out = n \<and> cstr out = s"

lemma holds_written: "NUL \<notin> set s \<Longrightarrow> length s < length out \<Longrightarrow> holds (write_at 0 (s @ [NUL]) out) (length out) s"
  using cstr_written [of s 1 out] by (simp add: holds_def)

lemma address_buf_holds:
  assumes "length addr = 64" "length out = 130"
  shows "\<exists>out'. format_checksummed_address_buf addr out 130 = (True, out') \<and> holds out' 130 (address_text addr)"
proof -
  have "length (address_text addr) = 129" by (simp add: address_text_def format_checksummed_address_def Let_def)
  then show ?thesis using holds_written [OF address_text_no_nul [OF assms(1)], of out] assms by (simp add: address_buf_eq)
qed

lemma writes_holds:
  assumes "writes f g out n" "length out = n" "g n = Some s"
  shows "\<exists>out'. f out n = (True, out') \<and> holds out' n s"
proof -
  from assms obtain m where m: "0 < m" "length s + m \<le> n" "NUL \<notin> set s" "f out n = (True, write_at 0 (s @ replicate m NUL) out)"
    by (auto simp: writes_def)
  then show ?thesis using cstr_written [OF m(3,1), of out] assms(2) by (simp add: holds_def)
qed

lemmas amount_buf_holds = writes_holds [OF amount_writes_ok]
lemmas decimal_buf_holds = writes_holds [OF decimal_writes_ok]

lemma cstr_no_nul: "NUL \<notin> set (cstr s)"
  by (auto simp: cstr_def dest: set_takeWhileD)

lemma snprintf_holds:
  assumes "length out = 105" "holds amount n s"
  shows "holds (snprintf_qrl amount out) 105 (qrl_text s)"
proof -
  have "NUL \<notin> set (qrl_text s)" using cstr_no_nul [of amount] assms(2) by (auto simp: qrl_text_def holds_def dest: in_set_takeD)
  moreover have "length (qrl_text s) < length out" using assms(1) by (simp add: qrl_text_def)
  ultimately show ?thesis using holds_written [of "qrl_text s" out] assms by (simp add: snprintf_qrl_def qrl_text_def holds_def)
qed

lemma hash_buf_holds:
  assumes "length hash = 32" "length out = 65"
  shows "holds (bytes_to_lower_hex_buf hash 32 out) 65 (bytes_to_lower_hex (take 32 hash))"
proof -
  let ?t = "concat (map (\<lambda>i. [hexc ! unat (drop_bit 4 (hash ! i)), hexc ! unat (hash ! i AND 0x0F)]) [0..<32])"
  have "map (\<lambda>i. [hexc ! unat (drop_bit 4 (hash ! i)), hexc ! unat (hash ! i AND 0x0F)]) [0..<32]
      = map (\<lambda>b. [hexc ! unat (drop_bit 4 b), hexc ! unat (b AND 0x0F)]) (take 32 hash)"
    by (rule nth_equalityI) (simp_all add: assms(1))
  then have t: "?t = bytes_to_lower_hex (take 32 hash)" by (simp only: bytes_to_lower_hex_def)
  have len: "length ?t = 64" by (simp add: length_concat comp_def sum_list_triv)
  have "bytes_to_lower_hex_buf hash 32 out = write_at 0 (?t @ [NUL]) out"
    using fold_digits [of 0 32 out] write_at_snoc [of 0 ?t out NUL] len assms(2) by (simp add: bytes_to_lower_hex_buf_def Let_def)
  then show ?thesis using holds_written [OF hex_text_no_nul, of "take 32 hash" out] len assms(2) t by simp
qed

subsection \<open>The texts on the screen\<close>

lemma pairs_shown:
  assumes "mem_ok m" "length hash = 32"
    "display_nonce s \<noteq> 0 \<Longrightarrow> uint8_array_to_decimal (take (unat (nonce_len tx)) (nonce tx)) 21 = Some nonce_text"
  shows "\<exists>m'. add_pairs hash s tx m = (None, m') \<and> mem_ok m' \<and> shown m' =
    [(''From'', text_of m FROM_ADDRESS), (''Amount'', text_of m AMOUNT), (''To'', text_of m TO_ADDRESS), (''Chain ID'', text_of m CHAIN_ID),
     (''Gas limit'', text_of m GAS_LIMIT), (''Priority fee / gas'', text_of m GAS_TIP_CAP), (''Max fees'', text_of m MAX_FEES)]
    @ (if display_nonce s \<noteq> 0 then [(''Nonce'', nonce_text)] else [])
    @ (if display_tx_hash s \<noteq> 0 then [(''Transaction hash'', bytes_to_lower_hex (take 32 hash))] else [])"
proof -
  have "length (tag_pairs m) = 9" using assms(1) by (simp add: mem_ok_def)
  then obtain x0 x1 x2 x3 x4 x5 x6 x7 x8 where entries: "tag_pairs m = [x0, x1, x2, x3, x4, x5, x6, x7, x8]"
    by (auto simp: length_Suc_conv numeral_eq_Suc)
  have hash: "holds (bytes_to_lower_hex_buf hash 32 (g_tx_hash m)) 65 (bytes_to_lower_hex (take 32 hash))"
    by (rule hash_buf_holds [OF assms(2)]) (use assms(1) in \<open>simp add: mem_ok_def\<close>)
  show ?thesis
  proof (cases "display_nonce s \<noteq> 0")
    case True
    have "length (g_nonce m) = 21" using assms(1) by (simp add: mem_ok_def)
    from decimal_buf_holds [OF this assms(3) [OF True]] obtain out where
      out: "uint8_array_to_decimal_buf (take (unat (nonce_len tx)) (nonce tx)) (g_nonce m) 21 = (True, out)" "holds out 21 nonce_text" by blast
    with True hash assms(1) entries show ?thesis
      by (simp add: add_pairs_def add_pair_def put_def write_at_def Let_def shown_def map_filter_simps mem_ok_def holds_def)
  next
    case False
    with hash assms(1) entries show ?thesis
      by (simp add: add_pairs_def add_pair_def put_def write_at_def Let_def shown_def map_filter_simps mem_ok_def holds_def)
  qed
qed

text \<open>The state of the buffers before the entries are added.\<close>

definition written :: "string \<Rightarrow> string \<Rightarrow> string \<Rightarrow> string \<Rightarrow> string \<Rightarrow> string \<Rightarrow> string \<Rightarrow> review_mem \<Rightarrow> review_mem" where
  "written sndr amount rcpt fees chain limit tip m =
     m\<lparr>g_from_address := sndr, g_amount := amount, g_to_address := rcpt, g_max_fees := fees, g_chain_id := chain, g_gas_limit := limit,
       g_gas_tip_cap := tip\<rparr>"

lemma format_review_written:
  assumes "mem_ok m" "tx_wf tx" "length sender = 64"
  obtains sndr amount rcpt fees chain limit tip where
    "format_review sender hash s tx m = add_pairs hash s tx (written sndr amount rcpt fees chain limit tip m)"
    "holds sndr 130 (address_text sender)" "holds amount 105 (qrl_amount (field_num (tx_value tx) (value_len tx)))"
    "holds rcpt 130 (address_text (to_addr tx))"
    "holds fees 105 (qrl_amount (field_num (gas_fee_cap tx) (gas_fee_cap_len tx) * field_num (gas tx) (gas_len tx)))"
    "holds chain 98 (dec_str (field_num (chain_id tx) (chain_id_len tx)))" "holds limit 21 (dec_str (field_num (gas tx) (gas_len tx)))"
    "holds tip 105 (qrl_amount (field_num (gas_tip_cap tx) (gas_tip_cap_len tx)))"
proof -
  from assms(2) have le: "unat (value_len tx) \<le> 32" "unat (gas_fee_cap_len tx) \<le> 32" "unat (gas_len tx) \<le> 8" "unat (chain_id_len tx) \<le> 32"
    "unat (gas_tip_cap_len tx) \<le> 32" and to_len: "length (to_addr tx) = 64"
    by (simp_all add: tx_wf_def)
  have sz: "length (memset0 (g_from_address m)) = 130" "length (memset0 (g_to_address m)) = 130" "length (memset0 (g_amount m)) = 105"
    "length (memset0 (g_max_fees m)) = 105" "length (g_chain_id m) = 98" "length (g_gas_limit m) = 21" "length (g_gas_tip_cap m) = 105"
    "length (replicate 100 NUL) = 100"
    using assms(1) by (simp_all add: mem_ok_def memset0_def)
  from address_buf_holds [OF assms(3) sz(1)] obtain sndr where
    sender_buf: "format_checksummed_address_buf sender (memset0 (g_from_address m)) 130 = (True, sndr)" "holds sndr 130 (address_text sender)" by blast
  from address_buf_holds [OF to_len sz(2)] obtain rcpt where
    rcpt_buf: "format_checksummed_address_buf (to_addr tx) (memset0 (g_to_address m)) 130 = (True, rcpt)" "holds rcpt 130 (address_text (to_addr tx))" by blast
  from amount_shown [OF le(1)] obtain v where v: "format_qrl_amount (take (unat (value_len tx)) (tx_value tx)) 100 = Some v"
    "qrl_text v = qrl_amount (field_num (tx_value tx) (value_len tx))" by blast
  from amount_buf_holds [OF _ sz(8) v(1)] obtain amount where
    amount: "format_qrl_amount_buf (take (unat (value_len tx)) (tx_value tx)) (replicate 100 NUL) 100 = (True, amount)" "holds amount 100 v" by auto
  from amount_shown [OF le(5)] obtain t where t: "format_qrl_amount (take (unat (gas_tip_cap_len tx)) (gas_tip_cap tx)) 100 = Some t"
    "qrl_text t = qrl_amount (field_num (gas_tip_cap tx) (gas_tip_cap_len tx))" by blast
  have amount_len: "length amount = 100" using amount(2) by (simp add: holds_def)
  from amount_buf_holds [OF _ amount_len t(1)] obtain tip where
    tip: "format_qrl_amount_buf (take (unat (gas_tip_cap_len tx)) (gas_tip_cap tx)) amount 100 = (True, tip)" "holds tip 100 t" using amount_len by auto
  from product_shown [OF le(2,3)] obtain p f where
    p: "multiply_uint8_arrays (take (unat (gas_fee_cap_len tx)) (gas_fee_cap tx)) (take (unat (gas_len tx)) (gas tx)) 40 = Some p"
    and f: "format_qrl_amount p 100 = Some f" "qrl_text f = qrl_amount (field_num (gas_fee_cap tx) (gas_fee_cap_len tx) * field_num (gas tx) (gas_len tx))" .
  from amount_buf_holds [OF _ sz(8) f(1)] obtain fees where
    fees: "format_qrl_amount_buf p (replicate 100 NUL) 100 = (True, fees)" "holds fees 100 f" by auto
  from decimal_buf_holds [OF sz(5) number_shown [OF le(4)]] obtain chain where
    chain: "uint8_array_to_decimal_buf (take (unat (chain_id_len tx)) (chain_id tx)) (g_chain_id m) 98 = (True, chain)"
    "holds chain 98 (dec_str (field_num (chain_id tx) (chain_id_len tx)))" by blast
  from decimal_buf_holds [OF sz(6) small_number_shown [OF le(3)]] obtain limit where
    limit: "uint8_array_to_decimal_buf (take (unat (gas_len tx)) (gas tx)) (g_gas_limit m) 21 = (True, limit)"
    "holds limit 21 (dec_str (field_num (gas tx) (gas_len tx)))" by blast
  show thesis
  proof (rule that)
    show "format_review sender hash s tx m = add_pairs hash s tx (written sndr (snprintf_qrl amount (memset0 (g_amount m))) rcpt
        (snprintf_qrl fees (memset0 (g_max_fees m))) chain limit (snprintf_qrl tip (g_gas_tip_cap m)) m)"
      using sender_buf(1) rcpt_buf(1) amount(1) tip(1) fees(1) chain(1) limit(1) p
      by (simp add: format_review_def Let_def multiply_uint8_arrays_buf_def write_at_prefix written_def)
  qed (use sender_buf(2) rcpt_buf(2) chain(2) limit(2) snprintf_holds [OF sz(3) amount(2)] snprintf_holds [OF sz(4) fees(2)]
    snprintf_holds [OF sz(7) tip(2)] v(2) t(2) f(2) in simp_all)
qed

lemma format_review_expected:
  assumes "mem_ok m" "tx_wf tx" "length sender = 64" "length hash = 32"
  shows "\<exists>m'. format_review sender hash s tx m = (None, m') \<and> mem_ok m' \<and> shown m' = expected_pairs sender hash s tx"
proof -
  from format_review_written [OF assms(1-3), of hash s] obtain sndr amount rcpt fees chain limit tip where
    eq: "format_review sender hash s tx m = add_pairs hash s tx (written sndr amount rcpt fees chain limit tip m)" and
    texts: "holds sndr 130 (address_text sender)" "holds amount 105 (qrl_amount (field_num (tx_value tx) (value_len tx)))"
    "holds rcpt 130 (address_text (to_addr tx))"
    "holds fees 105 (qrl_amount (field_num (gas_fee_cap tx) (gas_fee_cap_len tx) * field_num (gas tx) (gas_len tx)))"
    "holds chain 98 (dec_str (field_num (chain_id tx) (chain_id_len tx)))" "holds limit 21 (dec_str (field_num (gas tx) (gas_len tx)))"
    "holds tip 105 (qrl_amount (field_num (gas_tip_cap tx) (gas_tip_cap_len tx)))" .
  let ?m = "written sndr amount rcpt fees chain limit tip m"
  have ok: "mem_ok ?m" using assms(1) texts by (simp add: mem_ok_def written_def holds_def)
  have "unat (nonce_len tx) \<le> 8" using assms(2) by (simp add: tx_wf_def)
  from pairs_shown [OF ok assms(4) small_number_shown [OF this, of "nonce tx"], of s] texts show ?thesis
    by (simp add: eq expected_pairs_def written_def holds_def)
qed

lemma answer_keeps_screen: "io_send_sw sdk w d = (d', ret) \<Longrightarrow> screen d' = screen d"
  by (auto simp: io_send_sw_def io_send_response_pointer_def Let_def split: if_splits)

lemma address_keeps_spinner:
  "context_address sdk (d\<lparr>screen := Spinner ''Getting address''\<rparr>) = Some (d', x) \<Longrightarrow> screen d' = Spinner ''Getting address''"
  by (auto simp: context_address_def set_ctx_def split: option.splits sum.splits)

lemma context_address_sizes:
  assumes "context_address sdk d = Some (d', Inr a)" "device_ok sdk d"
  shows "length a = 64" "length (m_hash (tx_info (G_context d'))) = 32"
proof -
  show "length (m_hash (tx_info (G_context d'))) = 32"
    using context_address_ok [OF assms] by (simp add: device_ok_def gctx_ok_def)
  show "length a = 64"
    using assms(1) by (auto simp: context_address_def address_from_bip32_path_def split: sum.splits option.splits)
qed

text \<open>
  C13.  The static buffers refine the texts of \<open>Device\<close>: for a decoded transaction and whatever an earlier review has left in
  the buffers, \<open>ui_display_transaction_bs_choice\<close> on the buffers returns the same value, sends the same responses and shows the same
  screen as the function that returns texts, and no write leaves its array, since all sizes are kept.  Either the texts of the review
  are those read through \<open>pairs\<close>, or the request is refused, the screen is the old one or the spinner, and the buffers are
  unchanged: a refused request does not change the texts under a review that is on the screen.
\<close>

theorem review_buffers_refine:
  assumes "mem_ok m" "tx_wf tx" "device_ok sdk d"
  shows "case ui_display_transaction_bs_choice sdk blind tx d of
      None \<Rightarrow> ui_display_transaction_bs_choice_mem sdk blind tx d m = None
    | Some (d', ret) \<Rightarrow> \<exists>m'. ui_display_transaction_bs_choice_mem sdk blind tx d m = Some (d', ret, m') \<and> mem_ok m'
        \<and> (screen d' = Review_transaction blind (shown m') \<or> m' = m \<and> screen d' \<in> {screen d, Spinner ''Getting address''})"
proof (cases "req_type (G_context d) \<noteq> CONFIRM_TRANSACTION \<or> state (G_context d) \<noteq> STATE_PARSED")
  case True
  with assms(1) show ?thesis
    by (auto simp: ui_display_transaction_bs_choice_def ui_display_transaction_bs_choice_mem_def set_ctx_def
        dest: answer_keeps_screen split: prod.splits)
next
  case False
  let ?d = "d\<lparr>screen := Spinner ''Getting address''\<rparr>"
  have ok: "device_ok sdk ?d" using assms(3) by (simp add: device_ok_def)
  show ?thesis
  proof (cases "context_address sdk ?d")
    case None
    with False show ?thesis by (simp add: ui_display_transaction_bs_choice_def ui_display_transaction_bs_choice_mem_def Let_def)
  next
    case (Some r)
    then obtain d1 x where r: "context_address sdk ?d = Some (d1, x)" by (cases r) auto
    show ?thesis
    proof (cases x)
      case (Inl err)
      with False r assms(1) address_keeps_spinner [OF r] show ?thesis
        by (auto simp: ui_display_transaction_bs_choice_def ui_display_transaction_bs_choice_mem_def Let_def
            dest: answer_keeps_screen split: prod.splits)
    next
      case (Inr a)
      note sizes = context_address_sizes [OF r [unfolded Inr] ok]
      from format_review_expected [OF assms(1,2) sizes, of "N_storage d1"] obtain m' where
        "format_review a (m_hash (tx_info (G_context d1))) (N_storage d1) tx m = (None, m')" "mem_ok m'"
        "shown m' = expected_pairs a (m_hash (tx_info (G_context d1))) (N_storage d1) tx" by blast
      with False r Inr show ?thesis
        by (simp add: ui_display_transaction_bs_choice_def ui_display_transaction_bs_choice_mem_def Let_def
            review_pairs_expected [OF assms(2)])
    qed
  qed
qed

text \<open>The buffers as the loader clears them.\<close>

definition static_zero :: review_mem where
  "static_zero = \<lparr>g_from_address = replicate 130 NUL, g_amount = replicate 105 NUL, g_to_address = replicate 130 NUL,
     g_max_fees = replicate 105 NUL, g_chain_id = replicate 98 NUL, g_nonce = replicate 21 NUL, g_gas_limit = replicate 21 NUL,
     g_gas_tip_cap = replicate 105 NUL, g_tx_hash = replicate 65 NUL, tag_pairs = replicate 9 None, nbPairs = 0\<rparr>"

text \<open>A device that is about to review, and buffers full of an earlier text without a NUL.\<close>

definition parsed_device :: device where
  "parsed_device = set_ctx (\<lambda>c. c\<lparr>req_type := CONFIRM_TRANSACTION, state := STATE_PARSED\<rparr>) (app_start sample_sdk nvm_fresh)"

definition stale_mem :: review_mem where
  "stale_mem = static_zero\<lparr>g_chain_id := replicate 98 (CHR ''9''), g_gas_limit := replicate 21 (CHR ''9''),
     g_gas_tip_cap := replicate 105 (CHR ''9''), nbPairs := 9\<rparr>"

theorem review_buffers_refine_witness:
  "case ui_display_transaction_bs_choice sample_sdk True (store_tx sample_tx tx_zero) parsed_device of
      None \<Rightarrow> ui_display_transaction_bs_choice_mem sample_sdk True (store_tx sample_tx tx_zero) parsed_device stale_mem = None
    | Some (d', ret) \<Rightarrow> \<exists>m'. ui_display_transaction_bs_choice_mem sample_sdk True (store_tx sample_tx tx_zero) parsed_device stale_mem
          = Some (d', ret, m') \<and> mem_ok m' \<and> (screen d' = Review_transaction True (shown m') \<or> m' = stale_mem \<and> screen d' \<in> {screen parsed_device, Spinner ''Getting address''})"
proof (rule review_buffers_refine)
  show "mem_ok stale_mem" by (simp add: mem_ok_def static_zero_def stale_mem_def)
  show "tx_wf (store_tx sample_tx tx_zero)" by (simp add: store_tx_def sample_tx_def tx_zero_def tx_wf_def overlay_def)
  show "device_ok sample_sdk parsed_device"
    by (simp add: parsed_device_def set_ctx_def app_start_def ui_menu_main_def device_ok_def gctx_ok_def ctx_cleared_def wipe_ok nvm_fresh_ok)
qed

end
