(* ===== verification/Keccak_Bits.thy ===== *)
theory Keccak_Bits
  imports Keccak
begin

text \<open>
  The permutation of \<open>keccakf.c\<close> on lists of bits.  A lane is the list of its 64 bits, the lowest first; the steps of a round become
  list operations that the simplifier evaluates without any arithmetic, so a digest of a short message is computed in the kernel
  in seconds.  The known-answer tests of \<open>Unit_Tests\<close> use this; nothing is assumed, the bit functions are proved
  equal to those of \<open>Keccak\<close>.
\<close>

subsection \<open>Lanes as lists of bits\<close>

definition lane :: "bool list \<Rightarrow> u64" where
  "lane bs = horner_sum of_bool 2 bs"

definition bit_lanes :: "bool list list \<Rightarrow> bool" where
  "bit_lanes S \<longleftrightarrow> length S = 25 \<and> (\<forall>bs \<in> set S. length bs = 64)"

definition bxor :: "bool list \<Rightarrow> bool list \<Rightarrow> bool list" where
  "bxor as bs = map2 (\<noteq>) as bs"

definition bchi :: "bool list \<Rightarrow> bool list \<Rightarrow> bool list \<Rightarrow> bool list" where
  "bchi as bs cs = map2 (\<lambda>a (b, c). a \<noteq> (\<not> b \<and> c)) as (zip bs cs)"

definition brot :: "nat \<Rightarrow> bool list \<Rightarrow> bool list" where
  "brot n bs = drop (64 - n) bs @ take (64 - n) bs"

lemma length_bxor: "length as = 64 \<Longrightarrow> length bs = 64 \<Longrightarrow> length (bxor as bs) = 64"
  by (simp add: bxor_def)

lemma length_brot: "length bs = 64 \<Longrightarrow> length (brot n bs) = 64"
  by (simp add: brot_def)

lemma bit_lane: "length bs = 64 \<Longrightarrow> bit (lane bs) i \<longleftrightarrow> i < 64 \<and> bs ! i"
  by (auto simp: lane_def bit_horner_sum_bit_word_iff)

lemma lane_bxor: "length as = 64 \<Longrightarrow> length bs = 64 \<Longrightarrow> lane (bxor as bs) = lane as XOR lane bs"
  by (rule bit_word_eqI) (simp add: bit_lane length_bxor bit_xor_iff bxor_def)

lemma lane_bchi:
  "length as = 64 \<Longrightarrow> length bs = 64 \<Longrightarrow> length cs = 64 \<Longrightarrow> lane (bchi as bs cs) = lane as XOR (NOT (lane bs) AND lane cs)"
  by (rule bit_word_eqI) (simp add: bit_lane bit_xor_iff bit_and_iff bit_not_iff bchi_def)

lemma lane_brot:
  assumes "length bs = 64" "n < 64"
  shows "lane (brot n bs) = rol64 (lane bs) n"
proof (rule bit_word_eqI)
  fix k assume "k < LENGTH(64)"
  then have k: "k < 64" by simp
  have "k + (64 - n) = (k - n) + 64" if "n \<le> k" using that assms k by simp
  then have "(k + (64 - n)) mod 64 = k - n" if "n \<le> k" using that k by (simp only: mod_add_self2) simp
  moreover have "(k + (64 - n)) mod 64 = 64 - n + k" if "\<not> n \<le> k" using that k assms by simp
  moreover have "k - n < 64" "\<not> n \<le> k \<Longrightarrow> 64 + k - n < 64" using k assms by simp_all
  ultimately show "bit (lane (brot n bs)) k = bit (rol64 (lane bs) n) k"
    using k assms unfolding rol64_rotl [OF assms(2)]
    by (cases "n \<le> k") (simp_all add: bit_lane length_brot brot_def nth_append bit_word_rotl_iff)
qed

lemma brot_add: "length bs = 64 \<Longrightarrow> m + n \<le> 64 \<Longrightarrow> brot m (brot n bs) = brot (m + n) bs"
  by (rule nth_equalityI) (auto simp: brot_def nth_append add.commute)

subsection \<open>The round on bits\<close>

definition bit_C :: "bool list list \<Rightarrow> bool list list" where
  "bit_C s = map (\<lambda>x. bxor (bxor (bxor (bxor (s ! x) (s ! (x + 5))) (s ! (x + 10))) (s ! (x + 15))) (s ! (x + 20))) [0..<5]"

definition bit_D :: "bool list list \<Rightarrow> bool list list" where
  "bit_D C = map (\<lambda>x. bxor (C ! ((x + 4) mod 5)) (brot 1 (C ! ((x + 1) mod 5)))) [0..<5]"

definition bit_theta :: "bool list list \<Rightarrow> bool list list \<Rightarrow> bool list list" where
  "bit_theta s D = map (\<lambda>i. bxor (s ! i) (D ! (i mod 5))) [0..<25]"

definition bit_B :: "bool list list \<Rightarrow> bool list list" where
  "bit_B s =
     map (\<lambda>i. let j = (i mod 5 + 3 * (i div 5)) mod 5 + 5 * (i mod 5) in brot (rot_offsets ! j) (s ! j)) [0..<25]"

definition bit_chi :: "bool list list \<Rightarrow> bool list list" where
  "bit_chi B =
     map (\<lambda>i. bchi (B ! i) (B ! ((i + 1) mod 5 + 5 * (i div 5))) (B ! ((i + 2) mod 5 + 5 * (i div 5)))) [0..<25]"

text \<open>A round constant has ones only at the positions \<open>2^j - 1\<close>; the table holds the seven bits of each.\<close>

definition const_bits :: "bool list \<Rightarrow> bool list" where
  "const_bits cs = map (\<lambda>i. list_ex (\<lambda>j. i = 2 ^ j - 1 \<and> cs ! j) [0..<7]) [0..<64]"

definition bit_iota :: "bool list \<Rightarrow> bool list list \<Rightarrow> bool list list" where
  "bit_iota cs s = s[0 := bxor (s ! 0) (const_bits cs)]"

definition bit_round :: "bool list \<Rightarrow> bool list list \<Rightarrow> bool list list" where
  "bit_round cs s = bit_iota cs (bit_chi (bit_B (bit_theta s (bit_D (bit_C s)))))"

definition bit_RC :: "bool list list" where
  "bit_RC = map (\<lambda>r. map (\<lambda>j. bit (RC ! r) (2 ^ j - 1)) [0..<7]) [0..<24]"

definition bit_keccakf :: "bool list list \<Rightarrow> bool list list" where
  "bit_keccakf s = fold bit_round bit_RC s"

subsection \<open>The bits and the words agree\<close>

lemma bit_lanes_nth: "bit_lanes S \<Longrightarrow> i < 25 \<Longrightarrow> length (S ! i) = 64"
  by (simp add: bit_lanes_def)

lemma bit_lanes_map: "(\<And>i. i < 25 \<Longrightarrow> length (f i) = 64) \<Longrightarrow> bit_lanes (map f [0..<25])"
  by (auto simp: bit_lanes_def)

lemma index5: "(i + 3 * j) mod 5 + 5 * (k mod 5) < (25 :: nat)"
  using mod_less_divisor [of 5 "i + 3 * j"] mod_less_divisor [of 5 k] by linarith

lemma index_row: "i < 25 \<Longrightarrow> k mod 5 + 5 * (i div 5) < (25 :: nat)"
  using mod_less_divisor [of 5 k] div_less_iff_less_mult [of 5 i 5] by linarith

lemma bit_C_lane:
  assumes "bit_lanes S"
  shows "map lane (bit_C S) = round_C (map lane S)" "length (bit_C S) = 5" "\<And>i. i < 5 \<Longrightarrow> length (bit_C S ! i) = 64"
proof -
  have n: "length S = 25" "\<And>i. i < 25 \<Longrightarrow> length (S ! i) = 64" using assms bit_lanes_nth by (auto simp: bit_lanes_def)
  show "map lane (bit_C S) = round_C (map lane S)"
    by (rule nth_equalityI) (simp_all add: bit_C_def round_C_def n lane_bxor length_bxor xor.assoc)
qed (use bit_lanes_nth [OF assms] in \<open>simp_all add: bit_C_def length_bxor\<close>)

lemma bit_D_lane:
  assumes "length C = 5" "\<And>i. i < 5 \<Longrightarrow> length (C ! i) = 64"
  shows "map lane (bit_D C) = round_D (map lane C)" "length (bit_D C) = 5" "\<And>i. i < 5 \<Longrightarrow> length (bit_D C ! i) = 64"
proof -
  show "map lane (bit_D C) = round_D (map lane C)"
    by (rule nth_equalityI) (simp_all add: bit_D_def round_D_def assms lane_bxor lane_brot length_brot)
qed (simp_all add: bit_D_def length_bxor length_brot assms)

lemma bit_theta_lane:
  assumes "bit_lanes S"
  shows "map lane (bit_theta S (bit_D (bit_C S))) = round_theta (map lane S)" "bit_lanes (bit_theta S (bit_D (bit_C S)))"
proof -
  note C = bit_C_lane [OF assms]
  note D = bit_D_lane [OF C(2,3)]
  have n: "length S = 25" "\<And>i. i < 25 \<Longrightarrow> length (S ! i) = 64" using assms bit_lanes_nth by (auto simp: bit_lanes_def)
  have "lane (bit_D (bit_C S) ! (i mod 5)) = round_D (round_C (map lane S)) ! (i mod 5)" for i
    using D(1,2) C(1) by (metis mod5_less nth_map)
  then show "map lane (bit_theta S (bit_D (bit_C S))) = round_theta (map lane S)"
    by (intro nth_equalityI) (simp_all add: bit_theta_def round_theta_def Let_def n D(3) lane_bxor)
  show "bit_lanes (bit_theta S (bit_D (bit_C S)))"
    unfolding bit_theta_def by (rule bit_lanes_map) (simp add: length_bxor n D(3))
qed

lemma bit_B_lane:
  assumes "bit_lanes S"
  shows "map lane (bit_B S) = round_B (map lane S)" "bit_lanes (bit_B S)"
proof -
  have n: "length S = 25" "\<And>i. i < 25 \<Longrightarrow> length (S ! i) = 64" using assms bit_lanes_nth by (auto simp: bit_lanes_def)
  show "map lane (bit_B S) = round_B (map lane S)"
    unfolding round_B_eq by (rule nth_equalityI) (simp_all add: bit_B_def Let_def n index5 lane_brot rot_offsets_less)
  show "bit_lanes (bit_B S)"
    unfolding bit_B_def Let_def by (rule bit_lanes_map) (simp add: length_brot n index5)
qed

lemma bit_chi_lane:
  assumes "bit_lanes S"
  shows "map lane (bit_chi S) = round_chi (map lane S)" "bit_lanes (bit_chi S)"
proof -
  have n: "length S = 25" "\<And>i. i < 25 \<Longrightarrow> length (S ! i) = 64" using assms bit_lanes_nth by (auto simp: bit_lanes_def)
  show "map lane (bit_chi S) = round_chi (map lane S)"
    by (rule nth_equalityI) (simp_all add: bit_chi_def round_chi_def n index_row lane_bchi)
  show "bit_lanes (bit_chi S)"
    unfolding bit_chi_def by (rule bit_lanes_map) (simp add: bchi_def n index_row)
qed

lemma RC_mask: "c \<in> set RC \<Longrightarrow> c AND 0x800000008000808B = c"
  by (auto simp: RC_def)

lemma mask_bits: "i < 64 \<Longrightarrow> bit (0x800000008000808B :: u64) i \<Longrightarrow> i \<in> {0, 1, 3, 7, 15, 31, 63}"
proof -
  have "\<forall>i \<in> set [0..<64]. bit (0x800000008000808B :: u64) i \<longrightarrow> i \<in> {0, 1, 3, 7, 15, 31, 63}"
    by (simp add: upt_rec)
  then show "i < 64 \<Longrightarrow> bit (0x800000008000808B :: u64) i \<Longrightarrow> i \<in> {0, 1, 3, 7, 15, 31, 63}" by simp
qed

lemma const_lane:
  assumes "r < 24"
  shows "lane (const_bits (bit_RC ! r)) = RC ! r"
proof (rule bit_word_eqI)
  fix i assume "i < LENGTH(64)"
  then have i: "i < 64" by simp
  have "RC ! r \<in> set RC" using assms by (intro nth_mem) (simp add: RC_def)
  then have mem: "i \<in> {0, 1, 3, 7, 15, 31, 63}" if "bit (RC ! r) i" using that RC_mask mask_bits [OF i] by (metis bit_and_iff)
  have ones: "{0, 1, 3, 7, 15, 31, 63} = set (map (\<lambda>j. 2 ^ j - 1 :: nat) [0..<7])" by (simp add: upt_rec)
  have pos: "\<exists>j<7. i = 2 ^ j - 1" if "bit (RC ! r) i" using mem [OF that] unfolding ones by auto
  have table: "bit_RC ! r ! j \<longleftrightarrow> bit (RC ! r) (2 ^ j - 1)" if "j < 7" for j using that assms by (simp add: bit_RC_def)
  have "bit (lane (const_bits (bit_RC ! r))) i \<longleftrightarrow> (\<exists>j<7. i = 2 ^ j - 1 \<and> bit_RC ! r ! j)"
    using i by (auto simp: bit_lane const_bits_def list_ex_iff)
  also have "\<dots> \<longleftrightarrow> bit (RC ! r) i" using pos table by blast
  finally show "bit (lane (const_bits (bit_RC ! r))) i = bit (RC ! r) i" .
qed

lemma bit_round_lane:
  assumes "bit_lanes S" "r < 24"
  shows "map lane (bit_round (bit_RC ! r) S) = keccak_round r (map lane S) \<and> bit_lanes (bit_round (bit_RC ! r) S)"
proof -
  let ?t = "bit_theta S (bit_D (bit_C S))" and ?c = "const_bits (bit_RC ! r)"
  note t = bit_theta_lane [OF assms(1)]
  note b = bit_B_lane [OF t(2)]
  note c = bit_chi_lane [OF b(2)]
  have len: "length (bit_chi (bit_B ?t)) = 25" "length (bit_chi (bit_B ?t) ! 0) = 64" "length ?c = 64"
    using c(2) bit_lanes_nth [OF c(2)] by (simp_all add: bit_lanes_def const_bits_def)
  have "map lane (bit_iota (bit_RC ! r) (bit_chi (bit_B ?t)))
      = (map lane (bit_chi (bit_B ?t)))[0 := lane (bit_chi (bit_B ?t) ! 0) XOR RC ! r]"
    using len by (simp add: bit_iota_def map_update lane_bxor const_lane [OF assms(2)])
  also have "\<dots> = keccak_round r (map lane S)"
    using len(1) by (simp add: keccak_round_def Let_def t(1) [symmetric] b(1) [symmetric] c(1) [symmetric])
  finally show ?thesis
    using c(2) len by (auto simp: bit_round_def bit_lanes_def bit_iota_def length_bxor dest!: set_update_subset_insert [THEN subsetD])
qed

lemma bit_keccakf_lane:
  assumes "bit_lanes S"
  shows "map lane (bit_keccakf S) = keccakf (map lane S) \<and> bit_lanes (bit_keccakf S)"
proof -
  have "map lane (fold bit_round (map (\<lambda>r. bit_RC ! r) rs) S) = fold keccak_round rs (map lane S)
      \<and> bit_lanes (fold bit_round (map (\<lambda>r. bit_RC ! r) rs) S)" if "set rs \<subseteq> {..<24}" for rs
    using assms that
  proof (induction rs arbitrary: S)
    case (Cons r rs)
    then show ?case using bit_round_lane [of S r] by simp
  qed simp
  moreover have "bit_RC = map (\<lambda>r. bit_RC ! r) [0..<24]" by (rule nth_equalityI) (simp_all add: bit_RC_def)
  ultimately show ?thesis unfolding bit_keccakf_def keccakf_def by (metis (no_types, lifting) atLeast0LessThan order_refl set_upt)
qed

subsection \<open>Digests of short messages\<close>

definition byte_bits :: "byte \<Rightarrow> bool list" where
  "byte_bits b = map (bit b) [0..<8]"

text \<open>The lanes of a run of bytes, and the bytes of a run of bits.\<close>

fun lanes8 :: "byte list \<Rightarrow> bool list list" where
  "lanes8 (a # b # c # d # e # f # g # h # bs) =
     (byte_bits a @ byte_bits b @ byte_bits c @ byte_bits d @ byte_bits e @ byte_bits f @ byte_bits g @ byte_bits h) # lanes8 bs"
| "lanes8 _ = []"

fun groups8 :: "bool list \<Rightarrow> bool list list" where
  "groups8 (a # b # c # d # e # f # g # h # bs) = [a, b, c, d, e, f, g, h] # groups8 bs"
| "groups8 _ = []"

lemma length_byte_bits [simp]: "length (byte_bits b) = 8"
  by (simp add: byte_bits_def)

lemma nth_byte_bits: "i < 8 \<Longrightarrow> byte_bits b ! i = bit b i"
  by (simp add: byte_bits_def)

lemma bit_le64: "length bs \<le> 8 \<Longrightarrow> bit (le64 bs) i \<longleftrightarrow> i < 8 * length bs \<and> bit (bs ! (i div 8)) (i mod 8)"
proof (induction bs arbitrary: i)
  case (Cons b bs)
  show ?case
  proof (cases "i < 8")
    case False
    have "i div 8 = Suc ((i - 8) div 8)" "i mod 8 = (i - 8) mod 8" using False by (simp_all add: le_div_geq le_mod_geq)
    moreover have "\<not> bit b i" using False bit_imp_le_length [of b i] by auto
    moreover have "bit (le64 (b # bs)) i \<longleftrightarrow> (i < 64 \<and> bit b i) \<noteq> (i < 64 \<and> bit (le64 bs) (i - 8))"
      using False by (simp add: bit_xor_iff bit_push_bit_iff bit_ucast_iff)
    moreover have "bit (le64 bs) (i - 8) \<longleftrightarrow> i - 8 < 8 * length bs \<and> bit (bs ! ((i - 8) div 8)) ((i - 8) mod 8)"
      using Cons by simp
    ultimately show ?thesis using False Cons.prems by auto
  qed (auto simp: bit_xor_iff bit_push_bit_iff bit_ucast_iff)
qed simp

lemma nth_concat_bits: "i < 8 * length bs \<Longrightarrow> concat (map byte_bits bs) ! i = bit (bs ! (i div 8)) (i mod 8)"
proof (induction bs arbitrary: i)
  case (Cons b bs)
  then show ?case by (cases "i < 8") (simp_all add: nth_append nth_byte_bits le_div_geq le_mod_geq)
qed simp

lemma length_concat_bits: "length (concat (map byte_bits bs)) = 8 * length bs"
  by (induction bs) simp_all

lemma le64_lane: "length bs = 8 \<Longrightarrow> le64 bs = lane (concat (map byte_bits bs))"
  by (rule bit_word_eqI) (simp add: bit_le64 bit_lane length_concat_bits nth_concat_bits)

lemma chunk_Suc8: "chunk (8 * Suc j) 8 (a # b # c # d # e # f # g # h # bs) = chunk (8 * j) 8 bs"
proof -
  have "drop (8 * Suc j) (a # b # c # d # e # f # g # h # bs) = drop (8 * j) (drop 8 (a # b # c # d # e # f # g # h # bs))"
    unfolding drop_drop by (simp add: add.commute)
  then show ?thesis by (simp add: chunk_def)
qed

lemma chunk_0: "chunk 0 8 (a # b # c # d # e # f # g # h # bs) = [a, b, c, d, e, f, g, h]"
  by (simp add: chunk_def)

lemma lanes8_nth: "length Q = 8 * n \<Longrightarrow> length (lanes8 Q) = n \<and> (\<forall>j<n. lanes8 Q ! j = concat (map byte_bits (chunk (8 * j) 8 Q)))"
proof (induction Q arbitrary: n rule: lanes8.induct)
  case (1 a b c d e f g h bs)
  then obtain m where m: "n = Suc m" "length bs = 8 * m" by (cases n) auto
  show ?case
  proof (intro conjI allI impI)
    fix j assume "j < n"
    with 1(1) [OF m(2)] m show "lanes8 (a # b # c # d # e # f # g # h # bs) ! j
        = concat (map byte_bits (chunk (8 * j) 8 (a # b # c # d # e # f # g # h # bs)))"
      by (cases j) (simp_all add: chunk_Suc8 chunk_0 del: mult_Suc_right)
  qed (use 1(1) [OF m(2)] m in simp)
qed simp_all

lemma groups8_nth: "length bs = 8 * n \<Longrightarrow> length (groups8 bs) = n \<and> (\<forall>k<n. groups8 bs ! k = chunk (8 * k) 8 bs)"
proof (induction bs arbitrary: n rule: groups8.induct)
  case (1 a b c d e f g h bs)
  then obtain m where m: "n = Suc m" "length bs = 8 * m" by (cases n) auto
  show ?case
  proof (intro conjI allI impI)
    fix j assume "j < n"
    with 1(1) [OF m(2)] m show "groups8 (a # b # c # d # e # f # g # h # bs) ! j = chunk (8 * j) 8 (a # b # c # d # e # f # g # h # bs)"
      by (cases j) (simp_all add: chunk_Suc8 chunk_0 del: mult_Suc_right)
  qed (use 1(1) [OF m(2)] m in simp)
qed simp_all

text \<open>A block of up to 200 bytes, XORed into the zero state.\<close>

lemma first_block:
  assumes "length P = 8 * n" "n \<le> 25"
  shows "xor_block (replicate 25 0) P = map lane (lanes8 (P @ replicate (200 - 8 * n) 0))"
    "bit_lanes (lanes8 (P @ replicate (200 - 8 * n) 0))"
proof -
  let ?Q = "P @ replicate (200 - 8 * n) 0"
  have len: "length ?Q = 8 * 25" using assms by simp
  note lanes = lanes8_nth [OF len]
  have Q: "lanes8 ?Q ! j = concat (map byte_bits (chunk (8 * j) 8 ?Q))" "length (chunk (8 * j) 8 ?Q) = 8" if "j < 25" for j
    using lanes that len by auto
  have pad: "le64 (chunk (8 * j) 8 P) = le64 (chunk (8 * j) 8 ?Q)" if "j < 25" for j
  proof (cases "j < n")
    case True
    then have "8 * j + 8 \<le> 8 * n" by simp
    then show ?thesis using assms(1) by (simp add: chunk_def)
  next
    case False
    then have "chunk (8 * j) 8 P = []" "chunk (8 * j) 8 ?Q = replicate 8 0"
      using assms that by (simp_all add: chunk_def)
    then show ?thesis by (simp add: numeral_eq_Suc)
  qed
  show "xor_block (replicate 25 0) P = map lane (lanes8 ?Q)"
    using lanes by (intro nth_equalityI) (simp_all add: xor_block_def pad le64_lane [OF Q(2)] Q(1))
  show "bit_lanes (lanes8 ?Q)"
    using lanes Q by (auto simp: bit_lanes_def in_set_conv_nth length_concat_bits)
qed

lemma lane_bytes_bits: "length bs = 64 \<Longrightarrow> k < 8 \<Longrightarrow> byte_bits (lane_bytes (lane bs) ! k) = chunk (8 * k) 8 bs"
  by (rule nth_equalityI) (simp_all add: nth_byte_bits lane_bytes_def bit_ucast_iff bit_drop_bit_eq bit_lane)

lemma state_bytes_bits:
  assumes "bit_lanes S"
  shows "map byte_bits (state_bytes (map lane S)) = groups8 (concat S)"
proof -
  have S: "length S = 25" "\<And>j. j < 25 \<Longrightarrow> length (S ! j) = 64" using assms bit_lanes_nth by (auto simp: bit_lanes_def)
  have S': "S = map (\<lambda>j. S ! j) [0..<25]" by (rule nth_equalityI) (simp_all add: S)
  have len: "length (concat (map (\<lambda>j. S ! j) [0..<25])) = 25 * 64" by (rule length_concat_map_const) (rule S(2))
  then have groups: "length (groups8 (concat S)) = 200 \<and> (\<forall>k<200. groups8 (concat S) ! k = chunk (8 * k) 8 (concat S))"
    by (intro groups8_nth) (simp flip: S')
  show ?thesis
  proof (rule nth_equalityI)
    fix i assume "i < length (map byte_bits (state_bytes (map lane S)))"
    then have i: "i < 200" "i div 8 < 25" "i mod 8 < 8" by simp_all
    have "byte_bits (state_bytes (map lane S) ! i) = chunk (8 * (i mod 8)) 8 (S ! (i div 8))"
      using i lane_bytes_bits [OF S(2) [OF i(2)] i(3)] by (simp add: state_bytes_def nth_concat_map_const [where n = 8] S)
    also have "\<dots> = chunk (8 * i) 8 (concat S)"
    proof (rule nth_equalityI)
      fix k assume "k < length (chunk (8 * (i mod 8)) 8 (S ! (i div 8)))"
      then have k: "k < 8" by simp
      have pos: "(8 * i + k) div 64 = i div 8" "(8 * i + k) mod 64 = 8 * (i mod 8) + k"
      proof -
        have "8 * i + k = 8 * (i mod 8) + k + 64 * (i div 8)" "8 * (i mod 8) + k < 64"
          using k i(3) div_mult_mod_eq [of i 8] by linarith+
        then show "(8 * i + k) div 64 = i div 8" "(8 * i + k) mod 64 = 8 * (i mod 8) + k" by (simp_all only: div_mult_self2 mod_mult_self2 div_less mod_less)
      qed
      have "8 * i + k < 25 * 64" using i(1) k by simp
      then have "concat (map (\<lambda>j. S ! j) [0..<25]) ! (8 * i + k) = S ! (i div 8) ! (8 * (i mod 8) + k)"
        using nth_concat_map_const [of 25 "\<lambda>j. S ! j" 64 "8 * i + k", OF S(2)] pos by simp
      then show "chunk (8 * (i mod 8)) 8 (S ! (i div 8)) ! k = chunk (8 * i) 8 (concat S) ! k"
        using k i S len by (simp flip: S')
    qed (use i S len in \<open>simp flip: S'\<close>)
    finally show "map byte_bits (state_bytes (map lane S)) ! i = groups8 (concat S) ! i" using i groups by simp
  qed (use groups in simp)
qed

text \<open>A message that fits one block, and at most one block of output.\<close>

theorem short_digest_bits:
  assumes "length m + 1 < rate" "rate = 8 * r" "r < 25" "n \<le> rate"
  shows "map byte_bits (spec_sponge rate sfx m n)
    = take n (groups8 (concat (bit_keccakf (lanes8 ((m @ [sfx] @ replicate (rate - length m - 2) 0 @ [0x80]) @ replicate (200 - rate) 0)))))"
proof -
  let ?P = "m @ [sfx] @ replicate (rate - length m - 2) 0 @ [0x80]"
  have P: "pad_block rate sfx m = ?P" "length ?P = 8 * r" using assms by (simp_all add: pad_block_short)
  note block = first_block [OF P(2)]
  let ?S = "bit_keccakf (lanes8 (?P @ replicate (200 - rate) 0))"
  have "spec_absorb rate sfx (replicate 25 0) m = keccakf (xor_block (replicate 25 0) ?P)"
    using assms P(1) by (subst spec_absorb.simps) simp
  then have S: "spec_absorb rate sfx (replicate 25 0) m = map lane ?S" "bit_lanes ?S"
    using bit_keccakf_lane block assms(2,3) by (metis less_imp_le)+
  have "spec_squeeze rate st n = take n (state_bytes st)" for st
    using assms spec_squeeze.simps [of rate st n] spec_squeeze.simps [of rate _ 0] by (cases "n < rate") auto
  then show ?thesis using S by (simp add: spec_sponge_def state_bytes_bits [symmetric] take_map)
qed

subsection \<open>Evaluation\<close>

text \<open>
  Equations for explicit lists, which together evaluate \<open>bit_keccakf\<close> by rewriting: one list of 64 variables is a lane, one of 25 a state.
\<close>

lemma bxor_eval:
  "bxor [] [] = []" "bxor (True # as) (b # bs) = (\<not> b) # bxor as bs" "bxor (False # as) (b # bs) = b # bxor as bs"
  by (simp_all add: bxor_def)

lemma bchi_eval:
  "bchi [] [] [] = []" "bchi (a # as) (True # bs) (c # cs) = a # bchi as bs cs" "bchi (a # as) (b # bs) (False # cs) = a # bchi as bs cs"
  "bchi (a # as) (False # bs) (True # cs) = (\<not> a) # bchi as bs cs"
  by (simp_all add: bchi_def)

definition is_lane :: "bool list \<Rightarrow> bool" where
  "is_lane bs \<longleftrightarrow> length bs = 64"

lemma is_lane_eval: "is_lane [b0, b1, b2, b3, b4, b5, b6, b7, b8, b9, b10, b11, b12, b13, b14, b15, b16, b17, b18, b19, b20, b21, b22, b23,
    b24, b25, b26, b27, b28, b29, b30, b31, b32, b33, b34, b35, b36, b37, b38, b39, b40, b41, b42, b43, b44, b45,
    b46, b47, b48, b49, b50, b51, b52, b53, b54, b55, b56, b57, b58, b59, b60, b61, b62, b63]"
  by (simp add: is_lane_def)

lemma brot_eval:
  "brot 1 [b0, b1, b2, b3, b4, b5, b6, b7, b8, b9, b10, b11, b12, b13, b14, b15, b16, b17, b18, b19, b20, b21, b22, b23,
    b24, b25, b26, b27, b28, b29, b30, b31, b32, b33, b34, b35, b36, b37, b38, b39, b40, b41, b42, b43, b44, b45,
    b46, b47, b48, b49, b50, b51, b52, b53, b54, b55, b56, b57, b58, b59, b60, b61, b62, b63] =
   [b63, b0, b1, b2, b3, b4, b5, b6, b7, b8, b9, b10, b11, b12, b13, b14, b15, b16, b17, b18, b19, b20, b21, b22,
    b23, b24, b25, b26, b27, b28, b29, b30, b31, b32, b33, b34, b35, b36, b37, b38, b39, b40, b41, b42, b43, b44,
    b45, b46, b47, b48, b49, b50, b51, b52, b53, b54, b55, b56, b57, b58, b59, b60, b61, b62]"
  "brot 2 [b0, b1, b2, b3, b4, b5, b6, b7, b8, b9, b10, b11, b12, b13, b14, b15, b16, b17, b18, b19, b20, b21, b22, b23,
    b24, b25, b26, b27, b28, b29, b30, b31, b32, b33, b34, b35, b36, b37, b38, b39, b40, b41, b42, b43, b44, b45,
    b46, b47, b48, b49, b50, b51, b52, b53, b54, b55, b56, b57, b58, b59, b60, b61, b62, b63] =
   [b62, b63, b0, b1, b2, b3, b4, b5, b6, b7, b8, b9, b10, b11, b12, b13, b14, b15, b16, b17, b18, b19, b20, b21,
    b22, b23, b24, b25, b26, b27, b28, b29, b30, b31, b32, b33, b34, b35, b36, b37, b38, b39, b40, b41, b42, b43,
    b44, b45, b46, b47, b48, b49, b50, b51, b52, b53, b54, b55, b56, b57, b58, b59, b60, b61]"
  "brot 4 [b0, b1, b2, b3, b4, b5, b6, b7, b8, b9, b10, b11, b12, b13, b14, b15, b16, b17, b18, b19, b20, b21, b22, b23,
    b24, b25, b26, b27, b28, b29, b30, b31, b32, b33, b34, b35, b36, b37, b38, b39, b40, b41, b42, b43, b44, b45,
    b46, b47, b48, b49, b50, b51, b52, b53, b54, b55, b56, b57, b58, b59, b60, b61, b62, b63] =
   [b60, b61, b62, b63, b0, b1, b2, b3, b4, b5, b6, b7, b8, b9, b10, b11, b12, b13, b14, b15, b16, b17, b18, b19,
    b20, b21, b22, b23, b24, b25, b26, b27, b28, b29, b30, b31, b32, b33, b34, b35, b36, b37, b38, b39, b40, b41,
    b42, b43, b44, b45, b46, b47, b48, b49, b50, b51, b52, b53, b54, b55, b56, b57, b58, b59]"
  "brot 8 [b0, b1, b2, b3, b4, b5, b6, b7, b8, b9, b10, b11, b12, b13, b14, b15, b16, b17, b18, b19, b20, b21, b22, b23,
    b24, b25, b26, b27, b28, b29, b30, b31, b32, b33, b34, b35, b36, b37, b38, b39, b40, b41, b42, b43, b44, b45,
    b46, b47, b48, b49, b50, b51, b52, b53, b54, b55, b56, b57, b58, b59, b60, b61, b62, b63] =
   [b56, b57, b58, b59, b60, b61, b62, b63, b0, b1, b2, b3, b4, b5, b6, b7, b8, b9, b10, b11, b12, b13, b14, b15,
    b16, b17, b18, b19, b20, b21, b22, b23, b24, b25, b26, b27, b28, b29, b30, b31, b32, b33, b34, b35, b36, b37,
    b38, b39, b40, b41, b42, b43, b44, b45, b46, b47, b48, b49, b50, b51, b52, b53, b54, b55]"
  "brot 16 [b0, b1, b2, b3, b4, b5, b6, b7, b8, b9, b10, b11, b12, b13, b14, b15, b16, b17, b18, b19, b20, b21, b22, b23,
    b24, b25, b26, b27, b28, b29, b30, b31, b32, b33, b34, b35, b36, b37, b38, b39, b40, b41, b42, b43, b44, b45,
    b46, b47, b48, b49, b50, b51, b52, b53, b54, b55, b56, b57, b58, b59, b60, b61, b62, b63] =
   [b48, b49, b50, b51, b52, b53, b54, b55, b56, b57, b58, b59, b60, b61, b62, b63, b0, b1, b2, b3, b4, b5, b6, b7,
    b8, b9, b10, b11, b12, b13, b14, b15, b16, b17, b18, b19, b20, b21, b22, b23, b24, b25, b26, b27, b28, b29, b30,
    b31, b32, b33, b34, b35, b36, b37, b38, b39, b40, b41, b42, b43, b44, b45, b46, b47]"
  "brot 32 [b0, b1, b2, b3, b4, b5, b6, b7, b8, b9, b10, b11, b12, b13, b14, b15, b16, b17, b18, b19, b20, b21, b22, b23,
    b24, b25, b26, b27, b28, b29, b30, b31, b32, b33, b34, b35, b36, b37, b38, b39, b40, b41, b42, b43, b44, b45,
    b46, b47, b48, b49, b50, b51, b52, b53, b54, b55, b56, b57, b58, b59, b60, b61, b62, b63] =
   [b32, b33, b34, b35, b36, b37, b38, b39, b40, b41, b42, b43, b44, b45, b46, b47, b48, b49, b50, b51, b52, b53,
    b54, b55, b56, b57, b58, b59, b60, b61, b62, b63, b0, b1, b2, b3, b4, b5, b6, b7, b8, b9, b10, b11, b12, b13,
    b14, b15, b16, b17, b18, b19, b20, b21, b22, b23, b24, b25, b26, b27, b28, b29, b30, b31]"
  by (simp_all add: brot_def)

lemma brot_split:
  assumes "is_lane bs"
  shows
    "brot 0 bs = bs" "brot 3 bs = brot 2 (brot 1 bs)" "brot 6 bs = brot 4 (brot 2 bs)"
    "brot 10 bs = brot 8 (brot 2 bs)" "brot 14 bs = brot 8 (brot 4 (brot 2 bs))"
    "brot 15 bs = brot 8 (brot 4 (brot 2 (brot 1 bs)))" "brot 18 bs = brot 16 (brot 2 bs)"
    "brot 20 bs = brot 16 (brot 4 bs)" "brot 21 bs = brot 16 (brot 4 (brot 1 bs))"
    "brot 25 bs = brot 16 (brot 8 (brot 1 bs))" "brot 27 bs = brot 16 (brot 8 (brot 2 (brot 1 bs)))"
    "brot 28 bs = brot 16 (brot 8 (brot 4 bs))" "brot 36 bs = brot 32 (brot 4 bs)"
    "brot 39 bs = brot 32 (brot 4 (brot 2 (brot 1 bs)))" "brot 41 bs = brot 32 (brot 8 (brot 1 bs))"
    "brot 43 bs = brot 32 (brot 8 (brot 2 (brot 1 bs)))" "brot 44 bs = brot 32 (brot 8 (brot 4 bs))"
    "brot 45 bs = brot 32 (brot 8 (brot 4 (brot 1 bs)))"
    "brot 55 bs = brot 32 (brot 16 (brot 4 (brot 2 (brot 1 bs))))" "brot 56 bs = brot 32 (brot 16 (brot 8 bs))"
    "brot 61 bs = brot 32 (brot 16 (brot 8 (brot 4 (brot 1 bs))))"
    "brot 62 bs = brot 32 (brot 16 (brot 8 (brot 4 (brot 2 bs))))"
  using assms by (simp_all add: is_lane_def length_brot brot_add) (simp add: brot_def)

lemma bit_C_eval: "bit_C
   [a0, a1, a2, a3, a4, a5, a6, a7, a8, a9, a10, a11, a12, a13, a14, a15, a16, a17, a18, a19, a20, a21, a22, a23, a24] =
   [bxor (bxor (bxor (bxor a0 a5) a10) a15) a20, bxor (bxor (bxor (bxor a1 a6) a11) a16) a21,
    bxor (bxor (bxor (bxor a2 a7) a12) a17) a22, bxor (bxor (bxor (bxor a3 a8) a13) a18) a23,
    bxor (bxor (bxor (bxor a4 a9) a14) a19) a24]"
  by (simp add: bit_C_def upt_rec)

lemma bit_D_eval: "bit_D [c0, c1, c2, c3, c4] =
   [bxor c4 (brot 1 c1), bxor c0 (brot 1 c2), bxor c1 (brot 1 c3), bxor c2 (brot 1 c4), bxor c3 (brot 1 c0)]"
  by (simp add: bit_D_def upt_rec)

lemma bit_theta_eval: "bit_theta
   [a0, a1, a2, a3, a4, a5, a6, a7, a8, a9, a10, a11, a12, a13, a14, a15, a16, a17, a18, a19, a20, a21, a22, a23, a24]
   [d0, d1, d2, d3, d4] =
   [bxor a0 d0, bxor a1 d1, bxor a2 d2, bxor a3 d3, bxor a4 d4, bxor a5 d0, bxor a6 d1, bxor a7 d2, bxor a8 d3,
    bxor a9 d4, bxor a10 d0, bxor a11 d1, bxor a12 d2, bxor a13 d3, bxor a14 d4, bxor a15 d0, bxor a16 d1,
    bxor a17 d2, bxor a18 d3, bxor a19 d4, bxor a20 d0, bxor a21 d1, bxor a22 d2, bxor a23 d3, bxor a24 d4]"
  by (simp add: bit_theta_def upt_rec)

lemma bit_B_eval: "bit_B
   [a0, a1, a2, a3, a4, a5, a6, a7, a8, a9, a10, a11, a12, a13, a14, a15, a16, a17, a18, a19, a20, a21, a22, a23, a24] =
   [brot 0 a0, brot 44 a6, brot 43 a12, brot 21 a18, brot 14 a24, brot 28 a3, brot 20 a9, brot 3 a10, brot 45 a16,
    brot 61 a22, brot 1 a1, brot 6 a7, brot 25 a13, brot 8 a19, brot 18 a20, brot 27 a4, brot 36 a5, brot 10 a11,
    brot 15 a17, brot 56 a23, brot 62 a2, brot 55 a8, brot 39 a14, brot 41 a15, brot 2 a21]"
  by (simp add: bit_B_def Let_def upt_rec rot_offsets_def)

lemma bit_chi_eval: "bit_chi
   [a0, a1, a2, a3, a4, a5, a6, a7, a8, a9, a10, a11, a12, a13, a14, a15, a16, a17, a18, a19, a20, a21, a22, a23, a24] =
   [bchi a0 a1 a2, bchi a1 a2 a3, bchi a2 a3 a4, bchi a3 a4 a0, bchi a4 a0 a1, bchi a5 a6 a7, bchi a6 a7 a8,
    bchi a7 a8 a9, bchi a8 a9 a5, bchi a9 a5 a6, bchi a10 a11 a12, bchi a11 a12 a13, bchi a12 a13 a14,
    bchi a13 a14 a10, bchi a14 a10 a11, bchi a15 a16 a17, bchi a16 a17 a18, bchi a17 a18 a19, bchi a18 a19 a15,
    bchi a19 a15 a16, bchi a20 a21 a22, bchi a21 a22 a23, bchi a22 a23 a24, bchi a23 a24 a20, bchi a24 a20 a21]"
  by (simp add: bit_chi_def upt_rec)

lemma upt_64: "[0..<64] =
   [0, 1, 2, 3, 4, 5, 6, 7, 8, 9, 10, 11, 12, 13, 14, 15, 16, 17, 18, 19, 20, 21, 22, 23, 24, 25, 26, 27, 28, 29,
    30, 31, 32, 33, 34, 35, 36, 37, 38, 39, 40, 41, 42, 43, 44, 45, 46, 47, 48, 49, 50, 51, 52, 53, 54, 55, 56,
    57, 58, 59, 60, 61, 62, 63]"
  by (simp add: upt_rec)

lemma const_bits_eval: "const_bits [c0, c1, c2, c3, c4, c5, c6] =
   [c0, c1, False, c2, False, False, False, c3, False, False, False, False, False, False, False, c4, False, False,
    False, False, False, False, False, False, False, False, False, False, False, False, False, c5, False, False,
    False, False, False, False, False, False, False, False, False, False, False, False, False, False, False, False,
    False, False, False, False, False, False, False, False, False, False, False, False, False, c6]"
  unfolding const_bits_def upt_64 by (simp add: upt_rec)

lemma bit_iota_eval: "bit_iota cs (a # as) = bxor a (const_bits cs) # as"
  by (simp add: bit_iota_def)

lemma bit_RC_eval: "bit_RC =
   [[True, False, False, False, False, False, False], [False, True, False, True, True, False, False],
    [False, True, True, True, True, False, True], [False, False, False, False, True, True, True],
    [True, True, True, True, True, False, False], [True, False, False, False, False, True, False],
    [True, False, False, True, True, True, True], [True, False, True, False, True, False, True],
    [False, True, True, True, False, False, False], [False, False, True, True, False, False, False],
    [True, False, True, False, True, True, False], [False, True, True, False, False, True, False],
    [True, True, True, True, True, True, False], [True, True, True, True, False, False, True],
    [True, False, True, True, True, False, True], [True, True, False, False, True, False, True],
    [False, True, False, False, True, False, True], [False, False, False, True, False, False, True],
    [False, True, True, False, True, False, False], [False, True, True, False, False, True, True],
    [True, False, False, True, True, True, True], [False, False, False, True, True, False, True],
    [True, False, False, False, False, True, False], [False, False, True, False, True, True, True]]"
  by (simp add: bit_RC_def RC_def upt_rec)

lemma bit_keccakf_eval: "bit_keccakf s = fold bit_round bit_RC s"
  by (fact bit_keccakf_def)

lemmas keccak_eval = bit_keccakf_eval fold_simps bit_RC_eval bit_round_def bit_C_eval bit_D_eval bit_theta_eval bit_B_eval bit_chi_eval
  bit_iota_eval const_bits_eval brot_split brot_eval is_lane_eval bxor_eval bchi_eval not_True_eq_False not_False_eq_True

end
