(* ===== verification/Unit_Tests.thy ===== *)
theory Unit_Tests
  imports Keccak_Bits Device
begin

text \<open>
  The unit tests of \<open>unit-tests/\<close>, with their inputs and expected outputs, run on the model.  They check the model against
  the same known answers as the C code.
\<close>

subsection \<open>Texts of digests\<close>

definition nib :: "bool list \<Rightarrow> char" where
  "nib bs = hexc ! horner_sum of_bool 2 bs"

definition byte_hex :: "bool list \<Rightarrow> string" where
  "byte_hex bs = [nib (drop 4 bs), nib (take 4 bs)]"

lemma nib_eval:
  "nib [False, False, False, False] = CHR ''0''" "nib [True, False, False, False] = CHR ''1''"
  "nib [False, True, False, False] = CHR ''2''" "nib [True, True, False, False] = CHR ''3''"
  "nib [False, False, True, False] = CHR ''4''" "nib [True, False, True, False] = CHR ''5''"
  "nib [False, True, True, False] = CHR ''6''" "nib [True, True, True, False] = CHR ''7''"
  "nib [False, False, False, True] = CHR ''8''" "nib [True, False, False, True] = CHR ''9''"
  "nib [False, True, False, True] = CHR ''a''" "nib [True, True, False, True] = CHR ''b''"
  "nib [False, False, True, True] = CHR ''c''" "nib [True, False, True, True] = CHR ''d''"
  "nib [False, True, True, True] = CHR ''e''" "nib [True, True, True, True] = CHR ''f''"
  by (simp_all add: nib_def hexc_def)

lemma byte_hex_bits: "[hexc ! unat (drop_bit 4 b), hexc ! unat (b AND 0x0F)] = byte_hex (byte_bits b)" for b :: byte
proof -
  have in8: "k < 8" if "bit b k" for k using bit_imp_le_length [OF that] by simp
  have "unat (drop_bit 4 b) = horner_sum of_bool 2 (drop 4 (byte_bits b))"
  proof (rule bit_eqI)
    fix n show "bit (unat (drop_bit 4 b)) n = bit (horner_sum of_bool 2 (drop 4 (byte_bits b)) :: nat) n"
      by (cases "n < 4") (auto simp: bit_unsigned_iff bit_drop_bit_eq bit_horner_sum_bit_iff nth_byte_bits dest: in8)
  qed
  moreover have "b AND 0x0F = take_bit 4 b" by (simp add: take_bit_eq_mask mask_eq_exp_minus_1)
  then have "unat (b AND 0x0F) = horner_sum of_bool 2 (take 4 (byte_bits b))"
    by (intro bit_eqI) (auto simp: bit_unsigned_iff bit_take_bit_iff bit_horner_sum_bit_iff nth_byte_bits dest: in8)
  ultimately show ?thesis by (simp add: byte_hex_def nib_def)
qed

lemma hex_bits: "bytes_to_lower_hex bytes = concat (map byte_hex (map byte_bits bytes))"
  by (simp add: bytes_to_lower_hex_def byte_hex_bits comp_def)

lemma byte_bits_horner: "length bs = 8 \<Longrightarrow> byte_bits (horner_sum of_bool 2 bs) = bs"
  by (rule nth_equalityI) (simp_all add: nth_byte_bits bit_horner_sum_bit_word_iff)

text \<open>The bits of a character, and the lanes of a block of bytes given by their bits.\<close>

definition char_bits :: "char \<Rightarrow> bool list" where
  "char_bits c = byte_bits (of_char c)"

fun octets :: "bool list list \<Rightarrow> bool list list" where
  "octets (a # b # c # d # e # f # g # h # bs) = (a @ b @ c @ d @ e @ f @ g @ h) # octets bs"
| "octets _ = []"

lemma char_bits_eval: "char_bits (Char b0 b1 b2 b3 b4 b5 b6 b7) = [b0, b1, b2, b3, b4, b5, b6, b7]"
  by (simp add: char_bits_def of_char_def byte_bits_horner del: horner_sum_simps)

lemma byte_bits_eval:
  "byte_bits 0 = [False, False, False, False, False, False, False, False]"
  "byte_bits 1 = [True, False, False, False, False, False, False, False]"
  "byte_bits 0x1F = [True, True, True, True, True, False, False, False]"
  "byte_bits 0x80 = [False, False, False, False, False, False, False, True]"
  by (simp_all add: byte_bits_def upt_rec)

lemma lanes8_octets: "lanes8 bs = octets (map byte_bits bs)"
  by (induction bs rule: lanes8.induct) simp_all

lemma map_char_bits: "map byte_bits (map of_char msg) = map char_bits msg"
  by (simp add: char_bits_def)

lemma replicate_numeral: "replicate (numeral k) x = x # replicate (pred_numeral k) x"
  by (simp add: numeral_eq_Suc)

subsection \<open>\<open>test_hash_kat.c\<close>\<close>

definition assert_hex_equal :: "byte list \<Rightarrow> string \<Rightarrow> nat \<Rightarrow> bool" where
  "assert_hex_equal got expect_hex len \<longleftrightarrow> len \<le> 200 \<and> bytes_to_lower_hex (take len got) = expect_hex"

definition shake128_of :: "string \<Rightarrow> nat \<Rightarrow> byte list" where
  "shake128_of msg outlen = fst (shake128_squeeze (shake128_finalize (shake128_absorb shake128_init (map of_char msg))) outlen)"

definition test_shake256_of :: "string \<Rightarrow> nat \<Rightarrow> byte list" where
  "test_shake256_of msg outlen = fst (shake256_squeeze (shake256_finalize (shake256_absorb shake256_init (map of_char msg))) outlen)"

definition keccak256_of :: "string \<Rightarrow> byte list" where
  "keccak256_of msg = fst (keccak256_squeeze (keccak256_finalize (keccak256_absorb keccak256_init (map of_char msg))))"

definition test_keccak256_kat :: bool where
  "test_keccak256_kat \<longleftrightarrow>
     assert_hex_equal (keccak256_of '''') ''c5d2460186f7233c927e7db2dcc703c0e500b653ca82273b7bfad8045d85a470'' 32 \<and>
     assert_hex_equal (keccak256_of ''abc'') ''4e03657aea45a94fc7d47ba826c8d667c0d1e6e33a64a036ec44f58fa12d6c45'' 32 \<and>
     assert_hex_equal (keccak256_of ''The quick brown fox jumps over the lazy dog'')
       ''4d741b6f1eb29cb2a9b9911c82f56fa8d73b04959d3d9d222895df6c0b28aa15'' 32"

definition test_shake128_kat :: bool where
  "test_shake128_kat \<longleftrightarrow>
     assert_hex_equal (shake128_of '''' 32) ''7f9c2ba4e88f827d616045507605853ed73b8093f6efbc88eb1a6eacfa66ef26'' 32 \<and>
     assert_hex_equal (shake128_of ''abc'' 32) ''5881092dd818bf5cf8a3ddb793fbcba74097d5c526a6d35f97b83351940f2cc8'' 32 \<and>
     assert_hex_equal (shake128_of ''abc'' 168)
       (''5881092dd818bf5cf8a3ddb793fbcba74097d5c526a6d35f97b83351940f2cc844c50af32acd3f2cdd0665687'' @
        ''06f509bc1bdde58295dae3f891a9a0fca5783789a41f8611214ce612394df286a62d1a2252aa94db9c538956c'' @
        ''717dc2bed4f232a0294c857c730aa16067ac1062f1201fb0d377cfb9cde4c63599b27f3462bba4a0ed296c801'' @
        ''f9ff7f57302bb3076ee145f97a32ae68e76ab66c48d51675bd49acc29082f5647584e'') 168"

definition test_shake256_kat :: bool where
  "test_shake256_kat \<longleftrightarrow>
     assert_hex_equal (test_shake256_of '''' 32) ''46b9dd2b0ba88d13233b3feb743eeb243fcd52ea62b81b82b50c27646ed5762f'' 32 \<and>
     assert_hex_equal (test_shake256_of ''abc'' 32) ''483366601360a8771c6863080cc4114d8db44530f8f1e1ee4f94ea37e78b5739'' 32 \<and>
     assert_hex_equal (test_shake256_of ''abc'' 136)
       (''483366601360a8771c6863080cc4114d8db44530f8f1e1ee4f94ea37e78b5739d5a15bef186a5386c75744c05'' @
        ''27e1faa9f8726e462a12a4feb06bd8801e751e41385141204f329979fd3047a13c5657724ada64d2470157b3c'' @
        ''dc288620944d78dbcddbd912993f0913f164fb2ce95131a2d09a3e6d51cbfc622720d7a75c6334e8a2d7ec71a'' @
        ''7cc29'') 136"

definition test_incremental_absorb_matches_single :: bool where
  "test_incremental_absorb_matches_single \<longleftrightarrow>
     (let one = test_shake256_of ''The quick brown fox jumps over the lazy dog'' 32;
          ctx = shake256_init;
          ctx = shake256_absorb ctx (map of_char ''The quick brown '');
          ctx = shake256_absorb ctx (map of_char ''fox jumps over '');
          ctx = shake256_absorb ctx (map of_char ''the lazy dog'');
          ctx = shake256_finalize ctx;
          many = fst (shake256_squeeze ctx 32)
      in one = many)"

text \<open>The digests as evaluations on bits.\<close>

lemma keccak256_hex:
  "length msg < 135 \<Longrightarrow> bytes_to_lower_hex (keccak256_of msg) = concat (map byte_hex (take 32 (groups8 (concat (bit_keccakf
     (octets (map char_bits msg @ byte_bits 1 # replicate (134 - length msg) (byte_bits 0) @ byte_bits 0x80 # replicate 64 (byte_bits 0))))))))"
  unfolding hex_bits keccak256_of_def keccak256_squeeze_32 kc256.digest_spec
  by (subst short_digest_bits [where r = 17]) (simp_all add: lanes8_octets map_replicate char_bits_def [abs_def] comp_def)

lemma shake128_hex:
  "length msg < 167 \<Longrightarrow> n \<le> 168 \<Longrightarrow> bytes_to_lower_hex (shake128_of msg n) = concat (map byte_hex (take n (groups8 (concat (bit_keccakf
     (octets (map char_bits msg @ byte_bits 0x1F # replicate (166 - length msg) (byte_bits 0) @ byte_bits 0x80 # replicate 32 (byte_bits 0))))))))"
  unfolding hex_bits shake128_of_def sh128.digest_spec by (subst short_digest_bits [where r = 21]) (simp_all add: lanes8_octets map_replicate char_bits_def [abs_def] comp_def)

lemma shake256_hex:
  "length msg < 135 \<Longrightarrow> n \<le> 136 \<Longrightarrow> bytes_to_lower_hex (test_shake256_of msg n) = concat (map byte_hex (take n (groups8 (concat (bit_keccakf
     (octets (map char_bits msg @ byte_bits 0x1F # replicate (134 - length msg) (byte_bits 0) @ byte_bits 0x80 # replicate 64 (byte_bits 0))))))))"
  unfolding hex_bits test_shake256_of_def sh256.digest_spec by (subst short_digest_bits [where r = 17]) (simp_all add: lanes8_octets map_replicate char_bits_def [abs_def] comp_def)

lemma keccak256_length: "length (keccak256_of msg) = 32"
  by (simp add: keccak256_of_def keccak256_squeeze_def)

lemma shake_length: "length (shake128_of msg n) = n" "length (test_shake256_of msg n) = n"
  by (simp_all add: shake128_of_def test_shake256_of_def sh128.length_squeeze sh256.length_squeeze)

lemma hex_assertions:
  "bytes_to_lower_hex (keccak256_of msg) = expect \<Longrightarrow> assert_hex_equal (keccak256_of msg) expect 32"
  "bytes_to_lower_hex (shake128_of msg n) = expect \<Longrightarrow> n \<le> 200 \<Longrightarrow> assert_hex_equal (shake128_of msg n) expect n"
  "bytes_to_lower_hex (test_shake256_of msg n) = expect \<Longrightarrow> n \<le> 200 \<Longrightarrow> assert_hex_equal (test_shake256_of msg n) expect n"
  by (simp_all add: assert_hex_equal_def keccak256_length shake_length)

lemmas block_eval = keccak256_hex shake128_hex shake256_hex char_bits_eval byte_bits_eval replicate_numeral
lemmas hex_eval = byte_hex_def nib_eval

lemma keccak256_kat_passes: test_keccak256_kat
  unfolding test_keccak256_kat_def
  by (intro conjI hex_assertions) (simp add: block_eval, simp only: keccak_eval, simp add: hex_eval)+

lemma shake128_kat_passes: test_shake128_kat
  unfolding test_shake128_kat_def
  by (intro conjI hex_assertions) ((simp add: block_eval, simp only: keccak_eval, simp add: hex_eval) | simp)+

lemma shake256_kat_passes: test_shake256_kat
  unfolding test_shake256_kat_def
  by (intro conjI hex_assertions) ((simp add: block_eval, simp only: keccak_eval, simp add: hex_eval) | simp)+

lemma incremental_absorb_passes: test_incremental_absorb_matches_single
  unfolding test_incremental_absorb_matches_single_def test_shake256_of_def Let_def
  by (simp add: sh256.absorb_append [symmetric] del: shake256_absorb.simps)

subsection \<open>\<open>test_rlp_decode.c\<close>\<close>

definition VALID_64B_TO :: string where
  "VALID_64B_TO =
     ''02f8658330182401843b9aca008502540be4008307a120b8400838a121a6e4dd8a51e743'' @
     ''7b152fabbc76a173f077132f2c2ed021c7b0991e70da4dba44e9ec00984a90f28dfb0aab'' @
     ''bda1ddc9e98a76ab0acb6644c5e76fbbe8872386f26fc1000080c08301000080''"

definition VALID_CONTRACT_CREATION :: string where
  "VALID_CONTRACT_CREATION =
     ''02e48330182401843b9aca008502540be4008307a12080872386f26fc1000080c0830100'' @
     ''0080''"

definition INVALID_20B_TO :: string where
  "INVALID_20B_TO =
     ''02f8388330182401843b9aca008502540be4008307a120940838a121a6e4dd8a51e74377'' @
     ''b152fabbc76a173f0872386f26fc1000080c08301000080''"

definition INVALID_LEGACY_10_FIELDS :: string where
  "INVALID_LEGACY_10_FIELDS =
     ''02f89301038477359400850ba43b74008261a894b94f5374fce5edbc8e2a8697c1533167'' @
     ''7e6ebf0b88016345785d8a0000825544f85bf85994b94f5374fce5edbc8e2a8697c15331'' @
     ''677e6ebf0bf842a000000000000000000000000000000000000000000000000000000000'' @
     ''00000000a0000000000000000000000000000000000000000000000000000000000000000'' @
     ''183010000''"

text \<open>The bytes that \<open>unhex\<close> writes.\<close>

definition unhex :: "string \<Rightarrow> nat \<Rightarrow> byte list" where
  "unhex hex out_len = (if length hex div 2 > out_len then [] else parse_hex hex)"

definition decode_hex :: "string \<Rightarrow> dec" where
  "decode_hex hex = decode_ledger_tx (unhex hex 600) tx_zero"

fun accepted :: "dec \<Rightarrow> bool" where
  "accepted (Go tx p n) = True"
| "accepted (Fail tx) = False"
| "accepted Bad = False"

fun rejected :: "dec \<Rightarrow> bool" where
  "rejected (Go tx p n) = False"
| "rejected (Fail tx) = True"
| "rejected Bad = False"

definition returns_error :: "(int \<times> zond_tx option) option \<Rightarrow> bool" where
  "returns_error r = (case r of Some (code, tx) \<Rightarrow> code \<noteq> 0 | None \<Rightarrow> False)"

definition test_decode_valid_64byte_recipient :: bool where
  "test_decode_valid_64byte_recipient \<longleftrightarrow>
     (case decode_hex VALID_64B_TO of
        Go tx p n \<Rightarrow>
          descriptor_len tx = 3 \<and> descriptor tx ! 0 = 0x01 \<and> descriptor tx ! 1 = 0x00 \<and> descriptor tx ! 2 = 0x00 \<and>
          to_addr tx ! 0 = 0x08 \<and> to_addr tx ! 63 = 0xe8 \<and> chain_id_len tx = 3 \<and> nonce_len tx = 1 \<and> nonce tx ! 0 = 0x01 \<and>
          \<not> has_data tx \<and> \<not> has_access_list tx
      | Fail tx \<Rightarrow> False
      | Bad \<Rightarrow> False)"

definition test_reject_noncanonical_integer :: bool where
  "test_reject_noncanonical_integer \<longleftrightarrow>
     (let buf = unhex VALID_64B_TO 600;
          buf = take 8 buf @ drop 7 buf;
          buf = buf[2 := buf ! 2 + 1];
          buf = buf[7 := 0x81]
      in rejected (decode_ledger_tx buf tx_zero))"

definition test_decode_contract_creation :: bool where
  "test_decode_contract_creation \<longleftrightarrow> accepted (decode_hex VALID_CONTRACT_CREATION)"

definition test_reject_20byte_recipient :: bool where
  "test_reject_20byte_recipient \<longleftrightarrow> rejected (decode_hex INVALID_20B_TO)"

definition test_reject_legacy_10_fields :: bool where
  "test_reject_legacy_10_fields \<longleftrightarrow> rejected (decode_hex INVALID_LEGACY_10_FIELDS)"

definition test_reject_bad_descriptor :: bool where
  "test_reject_bad_descriptor \<longleftrightarrow>
     (let buf = unhex VALID_64B_TO 600 in rejected (decode_ledger_tx (buf[length buf - 2 := 0x01]) tx_zero))"

definition test_reject_nonempty_extra_params :: bool where
  "test_reject_nonempty_extra_params \<longleftrightarrow>
     (let buf = unhex VALID_64B_TO 600 in rejected (decode_ledger_tx (buf[length buf - 1 := 0x01]) tx_zero))"

definition test_reject_wrong_type_byte :: bool where
  "test_reject_wrong_type_byte \<longleftrightarrow>
     (let buf = unhex VALID_64B_TO 600 in rejected (decode_ledger_tx (buf[0 := 0x01]) tx_zero))"

definition test_reject_length_overflow :: bool where
  "test_reject_length_overflow \<longleftrightarrow>
     (let buf = replicate 64 0xff; buf = buf[0 := 0x02]; buf = buf[1 := 0xf8]; buf = buf[2 := 0x3b]
      in rejected (decode_ledger_tx buf tx_zero))"

definition oversized_nonce :: string where
  "oversized_nonce =
     ''02f86e83301824890101010101010101010101843b9aca008502540be4008307a120'' @
     ''b8400838a121a6e4dd8a51e7437b152fabbc76a173f077132f2c2ed021c7b0991e70'' @
     ''da4dba44e9ec00984a90f28dfb0aabbda1ddc9e98a76ab0acb6644c5e76fbbe88723'' @
     ''86f26fc1000080c08301000080''"

definition test_reject_oversized_nonce :: bool where
  "test_reject_oversized_nonce \<longleftrightarrow> rejected (decode_hex oversized_nonce)"

definition test_reject_truncated :: bool where
  "test_reject_truncated \<longleftrightarrow>
     (let buf = unhex VALID_64B_TO 600; n = length buf
      in list_all (\<lambda>k. let cut = 1 + 7 * k in cut < n \<longrightarrow> rejected (decode_ledger_tx (take (n - cut) buf) tx_zero)) [0..<n]
         \<and> rejected (decode_ledger_tx [] tx_zero)
         \<and> returns_error (decode_ledger_tx_ptr None (Some tx_zero)) \<and> returns_error (decode_ledger_tx_ptr (Some buf) None))"

text \<open>The tests pass.\<close>

lemma valid_bytes: "unhex VALID_64B_TO 600 =
    [0x02, 0xf8, 0x65, 0x83, 0x30, 0x18, 0x24, 0x01, 0x84, 0x3b, 0x9a, 0xca, 0x00, 0x85, 0x02, 0x54, 0x0b, 0xe4, 0x00,
     0x83, 0x07, 0xa1, 0x20, 0xb8, 0x40, 0x08, 0x38, 0xa1, 0x21, 0xa6, 0xe4, 0xdd, 0x8a, 0x51, 0xe7, 0x43, 0x7b, 0x15,
     0x2f, 0xab, 0xbc, 0x76, 0xa1, 0x73, 0xf0, 0x77, 0x13, 0x2f, 0x2c, 0x2e, 0xd0, 0x21, 0xc7, 0xb0, 0x99, 0x1e, 0x70,
     0xda, 0x4d, 0xba, 0x44, 0xe9, 0xec, 0x00, 0x98, 0x4a, 0x90, 0xf2, 0x8d, 0xfb, 0x0a, 0xab, 0xbd, 0xa1, 0xdd, 0xc9,
     0xe9, 0x8a, 0x76, 0xab, 0x0a, 0xcb, 0x66, 0x44, 0xc5, 0xe7, 0x6f, 0xbb, 0xe8, 0x87, 0x23, 0x86, 0xf2, 0x6f, 0xc1,
     0x00, 0x00, 0x80, 0xc0, 0x83, 0x01, 0x00, 0x00, 0x80]"
  by code_simp

lemmas valid_tests = test_decode_valid_64byte_recipient_def test_reject_noncanonical_integer_def test_reject_bad_descriptor_def
  test_reject_nonempty_extra_params_def test_reject_wrong_type_byte_def test_reject_truncated_def decode_ledger_tx_ptr_def returns_error_def decode_hex_def valid_bytes

lemma decode_valid_passes: test_decode_valid_64byte_recipient
  unfolding valid_tests by code_simp

lemma reject_noncanonical_passes: test_reject_noncanonical_integer
  unfolding valid_tests by code_simp

lemma reject_bad_descriptor_passes: test_reject_bad_descriptor
  unfolding valid_tests by code_simp

lemma reject_nonempty_extra_params_passes: test_reject_nonempty_extra_params
  unfolding valid_tests by code_simp

lemma reject_wrong_type_passes: test_reject_wrong_type_byte
  unfolding valid_tests by code_simp

lemma reject_truncated_passes: test_reject_truncated
  unfolding valid_tests by code_simp

lemma contract_creation_passes: test_decode_contract_creation
  by code_simp

lemma reject_20byte_passes: test_reject_20byte_recipient
  by code_simp

lemma reject_legacy_passes: test_reject_legacy_10_fields
  by code_simp

lemma reject_overflow_passes: test_reject_length_overflow
  by code_simp

lemma reject_oversized_nonce_passes: test_reject_oversized_nonce
  by code_simp

subsection \<open>\<open>test_tx_format.c\<close>\<close>

text \<open>\<open>assert_true\<close> of a formatter and \<open>assert_string_equal\<close> of its output are one comparison with \<open>Some\<close>.\<close>

definition test_decimal_boundaries :: bool where
  "test_decimal_boundaries \<longleftrightarrow>
     uint8_array_to_decimal [0xff] 98 = Some ''255'' \<and>
     uint8_array_to_decimal (replicate 8 0xff) 98 = Some ''18446744073709551615'' \<and>
     map_option length (uint8_array_to_decimal (replicate 17 0xff) 98) = Some 41 \<and>
     uint8_array_to_decimal (replicate 32 0xff) 98
       = Some ''115792089237316195423570985008687907853269984665640564039457584007913129639935'' \<and>
     uint8_array_to_decimal (replicate 32 0xff) 78 = None"

definition test_qrl_format :: bool where
  "test_qrl_format \<longleftrightarrow> format_qrl_amount [0x23, 0x86, 0xf2, 0x6f, 0xc1, 0x00, 0x00] TX_FORMAT_MAX_AMOUNT_LEN = Some ''0.01''"

definition test_fee_product :: bool where
  "test_fee_product \<longleftrightarrow>
     (case multiply_uint8_arrays [0x02, 0x54, 0x0b, 0xe4, 0x00] [0x07, 0xa1, 0x20] TX_FORMAT_MAX_INTEGER_BYTES of
        None \<Rightarrow> False
      | Some product \<Rightarrow> format_qrl_amount product TX_FORMAT_MAX_AMOUNT_LEN = Some ''0.005'')"

lemma digit_eval: "digit 0 = CHR ''0''" "digit (Suc 0) = CHR ''1''" "digit 2 = CHR ''2''" "digit 3 = CHR ''3''" "digit 4 = CHR ''4''"
  "digit 5 = CHR ''5''" "digit 6 = CHR ''6''" "digit 7 = CHR ''7''" "digit 8 = CHR ''8''" "digit 9 = CHR ''9''"
  by code_simp+

text \<open>A decimal text is checked by the number it denotes, which is cheaper than dividing.\<close>

definition dec_num :: "nat list \<Rightarrow> nat" where
  "dec_num ds = foldl (\<lambda>n d. 10 * n + d) 0 ds"

lemma dec_str_dec_num: "ds \<noteq> [] \<Longrightarrow> hd ds \<noteq> 0 \<Longrightarrow> list_all (\<lambda>d. d < 10) ds \<Longrightarrow> dec_str (dec_num ds) = map digit ds \<and> 0 < dec_num ds"
proof (induction ds rule: rev_induct)
  case (snoc d ds)
  have step: "dec_num (ds @ [d]) = 10 * dec_num ds + d" by (simp add: dec_num_def)
  show ?case
  proof (cases "ds = []")
    case True
    with snoc.prems show ?thesis by (subst dec_str.simps) (simp add: dec_num_def)
  next
    case False
    with snoc have "dec_str (dec_num ds) = map digit ds" "0 < dec_num ds" "d < 10" by simp_all
    then show ?thesis unfolding step by (subst dec_str.simps) simp
  qed
qed simp

lemma decimal_text:
  assumes "be_nat bytes = dec_num ds" "length bytes \<le> 40" "ds \<noteq> []" "hd ds \<noteq> 0" "list_all (\<lambda>d. d < 10) ds"
  shows "uint8_array_to_decimal bytes n = (if length ds + 1 \<le> n then Some (map digit ds) else None)"
    "length ds \<le> 97 \<Longrightarrow> format_qrl_amount bytes n = format_with_decimals (map digit ds) 18 n"
  using assms dec_str_dec_num [of ds] by (simp_all add: to_decimal_eq format_qrl_amount_def)

lemma ones_value: "be_nat (replicate n 0xff) = 256 ^ n - 1"
proof -
  have "Suc (be_nat (replicate n 0xff)) = 256 ^ n"
    by (induction n) (simp_all add: be_nat_def replicate_append_same [symmetric] del: replicate_append_same replicate_Suc add: replicate_Suc)
  then show ?thesis by simp
qed

lemma decimal_boundaries_passes: test_decimal_boundaries
proof -
  have "be_nat [0xff] = dec_num [2, 5, 5]" by (simp add: be_nat_def dec_num_def)
  from decimal_text(1) [OF this] have "uint8_array_to_decimal [0xff] 98 = Some ''255''" by (simp add: digit_eval)
  moreover have "be_nat (replicate 8 0xff) = dec_num
    [1, 8, 4, 4, 6, 7, 4, 4, 0, 7, 3, 7, 0, 9, 5, 5, 1, 6, 1, 5]"
    by (simp only: ones_value) (simp add: dec_num_def)
  note text8 = decimal_text(1) [OF this]
  moreover from text8 have "uint8_array_to_decimal (replicate 8 0xff) 98 = Some ''18446744073709551615''" by (simp add: digit_eval)
  moreover have "be_nat (replicate 17 0xff) = dec_num
    [8, 7, 1, 1, 2, 2, 8, 5, 9, 3, 1, 7, 6, 0, 2, 4, 6, 6, 4, 6, 6, 2, 3, 8, 9, 9, 5, 0, 2, 5, 3, 2, 6, 6, 2, 1,
     3, 2, 7, 3, 5]"
    by (simp only: ones_value) (simp add: dec_num_def)
  note text17 = decimal_text(1) [OF this]
  moreover from text17 have "map_option length (uint8_array_to_decimal (replicate 17 0xff) 98) = Some 41" by simp
  moreover have "be_nat (replicate 32 0xff) = dec_num
    [1, 1, 5, 7, 9, 2, 0, 8, 9, 2, 3, 7, 3, 1, 6, 1, 9, 5, 4, 2, 3, 5, 7, 0, 9, 8, 5, 0, 0, 8, 6, 8, 7, 9, 0, 7,
     8, 5, 3, 2, 6, 9, 9, 8, 4, 6, 6, 5, 6, 4, 0, 5, 6, 4, 0, 3, 9, 4, 5, 7, 5, 8, 4, 0, 0, 7, 9, 1, 3, 1, 2, 9, 6,
     3, 9, 9, 3, 5]"
    by (simp only: ones_value) (simp add: dec_num_def)
  note text32 = decimal_text(1) [OF this]
  moreover from text32 have "uint8_array_to_decimal (replicate 32 0xff) 98
      = Some ''115792089237316195423570985008687907853269984665640564039457584007913129639935''" by (simp add: digit_eval)
  moreover from text32 have "uint8_array_to_decimal (replicate 32 0xff) 78 = None" by simp
  ultimately show ?thesis unfolding test_decimal_boundaries_def by blast
qed

lemma qrl_format_passes: test_qrl_format
proof -
  have "be_nat [0x23, 0x86, 0xf2, 0x6f, 0xc1, 0x00, 0x00] = dec_num [1, 0, 0, 0, 0, 0, 0, 0, 0, 0, 0, 0, 0, 0, 0, 0, 0]"
    by (simp add: be_nat_def dec_num_def)
  from decimal_text(2) [OF this] show ?thesis unfolding test_qrl_format_def
    by (simp add: format_with_decimals_def Let_def digit_eval strip_zeros_def strip_point_def)
qed

lemma fee_product_passes: test_fee_product
proof -
  have product: "be_nat [0x02, 0x54, 0x0b, 0xe4, 0x00] * be_nat [0x07, 0xa1, 0x20] = dec_num [5, 0, 0, 0, 0, 0, 0, 0, 0, 0, 0, 0, 0, 0, 0, 0]"
    by (simp add: be_nat_def dec_num_def)
  have "dec_num [5, 0, 0, 0, 0, 0, 0, 0, 0, 0, 0, 0, 0, 0, 0, 0] < 256 ^ 40" by (simp add: dec_num_def)
  with product multiply_product [of "[0x02, 0x54, 0x0b, 0xe4, 0x00]" "[0x07, 0xa1, 0x20]" 40]
  obtain p where p: "multiply_uint8_arrays [0x02, 0x54, 0x0b, 0xe4, 0x00] [0x07, 0xa1, 0x20] 40 = Some p"
    "be_nat p = dec_num [5, 0, 0, 0, 0, 0, 0, 0, 0, 0, 0, 0, 0, 0, 0, 0]" "length p \<le> 40"
    by (cases "multiply_uint8_arrays [0x02, 0x54, 0x0b, 0xe4, 0x00] [0x07, 0xa1, 0x20] 40") simp_all
  from decimal_text(2) [OF p(2,3)] show ?thesis unfolding test_fee_product_def
    by (simp add: p(1) format_with_decimals_def Let_def digit_eval strip_zeros_def strip_point_def numeral_2_eq_2)
qed

subsection \<open>\<open>test_address_format.c\<close>\<close>

definition CHECKSUM_ALL_AB :: string where
  "CHECKSUM_ALL_AB =
     ''QabaBABabaBAbAbAbABaBABaBabaBabaBAbabaBABABAbAbabababAbaBaBABABabABaBaBABABaBabaBA'' @
     ''BaBabABAbABabaBAbABAbABAbaBabABababAbaBaBabaBAB''"

definition CHECKSUM_COUNTER :: string where
  "CHECKSUM_COUNTER =
     ''Q000102030405060708090a0B0C0D0e0f101112131415161718191A1B1C1D1e1F202122232425262728'' @
     ''292a2B2c2d2E2f303132333435363738393A3B3C3d3e3f''"

definition test_checksum_known_answers :: bool where
  "test_checksum_known_answers \<longleftrightarrow>
     format_checksummed_address (replicate ADDRESS_SIZE 0xab) (1 + 2 * ADDRESS_SIZE + 1) = Some CHECKSUM_ALL_AB \<and>
     format_checksummed_address (map of_nat [0..<ADDRESS_SIZE]) (1 + 2 * ADDRESS_SIZE + 1) = Some CHECKSUM_COUNTER"

definition test_checksum_shape :: bool where
  "test_checksum_shape \<longleftrightarrow>
     (case format_checksummed_address (replicate ADDRESS_SIZE 0xab) (1 + 2 * ADDRESS_SIZE + 1) of
        None \<Rightarrow> False
      | Some out \<Rightarrow> length out = 1 + 2 * ADDRESS_SIZE \<and> out ! 0 = CHR ''Q'' \<and>
          list_all (\<lambda>i. let c = out ! i in c \<in> set ''0123456789'' \<or> c \<in> set ''abcdef'' \<or> c \<in> set ''ABCDEF'') [1..<length out])"

definition test_checksum_is_sensitive_to_input :: bool where
  "test_checksum_is_sensitive_to_input \<longleftrightarrow>
     (let addr = replicate ADDRESS_SIZE 0xab;
          a = format_checksummed_address addr (1 + 2 * ADDRESS_SIZE + 1);
          addr = addr[ADDRESS_SIZE - 1 := addr ! (ADDRESS_SIZE - 1) XOR 0x01];
          b = format_checksummed_address addr (1 + 2 * ADDRESS_SIZE + 1)
      in a \<noteq> None \<and> b \<noteq> None \<and> a \<noteq> b)"

definition test_checksum_rejects_small_buffer :: bool where
  "test_checksum_rejects_small_buffer \<longleftrightarrow>
     (let small = replicate (1 + 2 * ADDRESS_SIZE) (CHR 0x00); addr = replicate ADDRESS_SIZE 0
      in format_checksummed_address_ptr (Some addr) (Some small) (1 + 2 * ADDRESS_SIZE) = None
         \<and> format_checksummed_address_ptr (Some addr) None (1 + 2 * ADDRESS_SIZE + 1) = None
         \<and> format_checksummed_address_ptr None (Some small) (1 + 2 * ADDRESS_SIZE + 1) = None)"

definition test_bip32_path_validation :: bool where
  "test_bip32_path_validation \<longleftrightarrow>
     (let ok = [0x8000002C, 0x800000EE, 0x80000000, 0, 0] in
      is_valid_zond_bip32_path ok 5 \<and> \<not> is_valid_zond_bip32_path ok 4 \<and> \<not> is_valid_zond_bip32_path ok 6) \<and>
     \<not> is_valid_zond_bip32_path [0x8000002D, 0x800000EE, 0x80000000, 0, 0] 5 \<and>
     \<not> is_valid_zond_bip32_path [0x8000002C, 0x800000EF, 0x80000000, 0, 0] 5 \<and>
     \<not> is_valid_zond_bip32_path [0x8000002C, 0x800000EE, 0x00000000, 0, 0] 5 \<and>
     \<not> is_valid_zond_bip32_path [0x8000002C, 0x800000EE, 0x80000000, 0x80000000, 0] 5 \<and>
     \<not> is_valid_zond_bip32_path [0x8000002C, 0x800000EE, 0x80000000, 0, 0x80000000] 5"

text \<open>The text of an address, with the bits of the mask as flags.\<close>

definition cased :: "bool \<Rightarrow> char \<Rightarrow> char" where
  "cased f c =
     (if of_char c \<ge> (of_char (CHR ''a'') :: nat) \<and> of_char c \<le> (of_char (CHR ''f'') :: nat) \<and> f
      then char_of (of_char c - (of_char (CHR ''a'') - of_char (CHR ''A'') :: nat)) else c)"

definition mask_flags :: "bool list list \<Rightarrow> bool list" where
  "mask_flags bss = concat (map (\<lambda>bs. [bs ! 7, bs ! 3]) bss)"

lemma cased_eval: "cased True (CHR ''0'') = CHR ''0''" "cased True (CHR ''1'') = CHR ''1''"
  "cased True (CHR ''2'') = CHR ''2''" "cased True (CHR ''3'') = CHR ''3''" "cased True (CHR ''4'') = CHR ''4''"
  "cased True (CHR ''5'') = CHR ''5''" "cased True (CHR ''6'') = CHR ''6''" "cased True (CHR ''7'') = CHR ''7''"
  "cased True (CHR ''8'') = CHR ''8''" "cased True (CHR ''9'') = CHR ''9''" "cased True (CHR ''a'') = CHR ''A''"
  "cased True (CHR ''b'') = CHR ''B''" "cased True (CHR ''c'') = CHR ''C''" "cased True (CHR ''d'') = CHR ''D''"
  "cased True (CHR ''e'') = CHR ''E''" "cased True (CHR ''f'') = CHR ''F''"
  by code_simp+

lemma cased_False: "cased False c = c"
  by (simp add: cased_def)

lemma high_nibble: "8 \<le> drop_bit 4 b \<longleftrightarrow> bit b 7" for b :: byte
proof -
  have "bit b 7 \<longleftrightarrow> bit (unat b) 7" by (simp add: bit_unsigned_iff)
  then have "bit b 7 \<longleftrightarrow> odd (unat b div 2 ^ 7)" by (simp only: bit_iff_odd)
  moreover have "unat (drop_bit 4 b) = unat b div 16" by (simp add: drop_bit_eq_div unat_div)
  moreover have "unat b div 2 ^ 7 = unat b div 16 div 8" by (simp add: div_mult2_eq [symmetric])
  moreover have "8 \<le> q \<longleftrightarrow> odd (q div 8)" if "q < 16" for q :: nat using that by presburger
  moreover have "unat b div 16 < 16" using unat_byte_less [of b] by simp
  ultimately show ?thesis unfolding word_le_nat_alt by simp
qed

lemma low_nibble: "8 \<le> b AND 0x0F \<longleftrightarrow> bit b 3" for b :: byte
proof -
  have "bit b 3 \<longleftrightarrow> bit (unat b) 3" by (simp add: bit_unsigned_iff)
  then have "bit b 3 \<longleftrightarrow> odd (unat b div 2 ^ 3)" by (simp only: bit_iff_odd)
  moreover have "b AND 0x0F = take_bit 4 b" by (simp add: take_bit_eq_mask mask_eq_exp_minus_1)
  then have "unat (b AND 0x0F) = unat b mod 16" by (simp add: take_bit_eq_mod unat_mod)
  ultimately show ?thesis unfolding word_le_nat_alt by simp presburger
qed

lemma nth_mask_flags: "i < 2 * length bss \<Longrightarrow> mask_flags bss ! i = bss ! (i div 2) ! (if i mod 2 = 0 then 7 else 3)"
proof (induction bss arbitrary: i)
  case (Cons bs bss)
  show ?case
  proof (cases "i < 2")
    case True
    then have "i = 0 \<or> i = 1" by auto
    then show ?thesis by (auto simp: mask_flags_def)
  next
    case False
    then have "i div 2 = Suc ((i - 2) div 2)" "i mod 2 = (i - 2) mod 2" by (simp_all add: le_div_geq le_mod_geq)
    moreover have "mask_flags (bs # bss) ! i = mask_flags bss ! (i - 2)" using False by (simp add: mask_flags_def nth_Cons' numeral_2_eq_2)
    ultimately show ?thesis using False Cons by simp
  qed
qed simp

lemma length_mask_flags: "length (mask_flags bss) = 2 * length bss"
  by (induction bss) (simp_all add: mask_flags_def)

lemma checksum_char_flag:
  assumes "i < 2 * length msk"
  shows "checksum_char msk i c = cased (mask_flags (map byte_bits msk) ! i) c"
  using assms by (auto simp: checksum_char_def cased_def nth_mask_flags mask_nibble_def high_nibble low_nibble nth_byte_bits)

lemma checksummed_eval:
  assumes "length addr = 64" "130 \<le> n"
  shows "format_checksummed_address addr n = Some (CHR ''Q'' # map2 cased (mask_flags (take 64 (groups8 (concat (bit_keccakf
     (octets (map char_bits (hex_body addr) @ byte_bits 0x1F # replicate 6 (byte_bits 0) @ byte_bits 0x80 # replicate 64 (byte_bits 0))))))))
     (hex_body addr))"
proof -
  let ?body = "hex_body addr"
  let ?msk = "shake256_of [map of_char ?body] 64"
  have body: "length ?body = 128" using assms(1) by (simp add: hex_body_def length_concat comp_def sum_list_triv)
  have msk: "?msk = spec_sponge 136 0x1F (map of_char ?body) 64" by (simp add: shake256_of_def sh256.digest_spec)
  have bits: "map byte_bits ?msk = take 64 (groups8 (concat (bit_keccakf
     (octets (map char_bits ?body @ byte_bits 0x1F # replicate 6 (byte_bits 0) @ byte_bits 0x80 # replicate 64 (byte_bits 0))))))"
    unfolding msk using body
    by (subst short_digest_bits [where r = 17]) (simp_all add: lanes8_octets map_replicate char_bits_def [abs_def] comp_def)
  have len: "length ?msk = 64" by (simp add: shake256_of_def sh256.length_squeeze)
  have "map (\<lambda>i. checksum_char ?msk i (?body ! i)) [0..<128] = map2 cased (mask_flags (map byte_bits ?msk)) ?body"
    by (rule nth_equalityI) (simp_all add: body len length_mask_flags checksum_char_flag)
  then show ?thesis using assms(2) by (simp add: format_checksummed_address_def Let_def bits)
qed

text \<open>The tests pass.\<close>

lemma body_all_ab: "hex_body (replicate n 0xab) = concat (replicate n ''ab'')"
  by (induction n) (simp_all add: hex_body_def hexc_def)

lemma body_counter: "hex_body (map of_nat [0..<64]) =
    ''000102030405060708090a0b0c0d0e0f101112131415161718191a1b1c1d1e1f'' @
    ''202122232425262728292a2b2c2d2e2f303132333435363738393a3b3c3d3e3f''"
  by code_simp

lemma all_ab_text: "format_checksummed_address (replicate 64 0xab) 130 = Some CHECKSUM_ALL_AB"
proof -
  have len: "length (replicate 64 0xab :: byte list) = 64" by simp
  show ?thesis unfolding checksummed_eval [OF len order_refl] body_all_ab
    by (simp add: replicate_numeral char_bits_eval byte_bits_eval, simp only: keccak_eval,
        simp add: CHECKSUM_ALL_AB_def mask_flags_def cased_eval cased_False)
qed

lemma counter_text: "format_checksummed_address (map of_nat [0..<64]) 130 = Some CHECKSUM_COUNTER"
proof -
  have len: "length (map of_nat [0..<64] :: byte list) = 64" by simp
  show ?thesis unfolding checksummed_eval [OF len order_refl] body_counter
    by (simp add: replicate_numeral char_bits_eval byte_bits_eval, simp only: keccak_eval,
        simp add: CHECKSUM_COUNTER_def mask_flags_def cased_eval cased_False)
qed

lemma checksum_known_answers_pass: test_checksum_known_answers
  using all_ab_text counter_text by (simp add: test_checksum_known_answers_def)

lemma buffer_size: "1 + 2 * ADDRESS_SIZE + 1 = 130"
  by simp

lemma checksum_shape_passes: test_checksum_shape
  unfolding test_checksum_shape_def buffer_size all_ab_text option.case by code_simp

lemma checksum_sensitive_passes: test_checksum_is_sensitive_to_input
proof -
  let ?a = "replicate 64 0xab :: byte list" and ?b = "(replicate 64 0xab)[63 := 0xaa] :: byte list"
  have inverse: "parse_hex (tl (the (format_checksummed_address x 130))) = x" if "length x = 64" for x
    using parse_checksummed [OF that] by (simp add: format_checksummed_address_def Let_def)
  have "?a ! 63 \<noteq> ?b ! 63" by simp
  then have "?a \<noteq> ?b" by metis
  with inverse [of ?a] inverse [of ?b] have "format_checksummed_address ?a 130 \<noteq> format_checksummed_address ?b 130"
    by (metis length_list_update length_replicate)
  moreover have "format_checksummed_address x 130 \<noteq> None" for x by (simp add: format_checksummed_address_def Let_def)
  moreover have "?a[64 - 1 := ?a ! (64 - 1) XOR 0x01] = ?b" by simp
  ultimately show ?thesis unfolding test_checksum_is_sensitive_to_input_def Let_def buffer_size by metis
qed

lemma checksum_small_buffer_passes: test_checksum_rejects_small_buffer
  by (simp add: test_checksum_rejects_small_buffer_def format_checksummed_address_ptr_def format_checksummed_address_def)

lemma bip32_path_passes: test_bip32_path_validation
  by code_simp

subsection \<open>The harness of the decoder\<close>

text \<open>
  \<open>fuzz_tx_parser.c\<close> runs the decoder on a cleared structure.  It has no assertions; the sanitizer reports a read outside the input,
  which is the outcome \<open>Bad\<close>.
\<close>

definition fuzz_tx_parser :: "byte list \<Rightarrow> bool" where
  "fuzz_tx_parser data \<longleftrightarrow> decode_ledger_tx data tx_zero \<noteq> Bad"

lemma fuzz_tx_parser_passes: "length data < 2147483648 \<Longrightarrow> fuzz_tx_parser data"
  by (simp add: fuzz_tx_parser_def decode_not_bad)

text \<open>
  Every unit test of the repository passes on the model: the known answers of the three hash functions, the texts and the
  checksums of addresses, the accepted paths, the accepted and refused transactions, and the formatted amounts.
\<close>

theorem unit_tests_pass:
  "test_keccak256_kat \<and> test_shake128_kat \<and> test_shake256_kat \<and> test_incremental_absorb_matches_single
   \<and> test_checksum_known_answers \<and> test_checksum_shape \<and> test_checksum_is_sensitive_to_input
   \<and> test_checksum_rejects_small_buffer \<and> test_bip32_path_validation
   \<and> test_decode_valid_64byte_recipient \<and> test_decode_contract_creation \<and> test_reject_noncanonical_integer
   \<and> test_reject_20byte_recipient \<and> test_reject_legacy_10_fields \<and> test_reject_bad_descriptor
   \<and> test_reject_nonempty_extra_params \<and> test_reject_wrong_type_byte \<and> test_reject_length_overflow
   \<and> test_reject_oversized_nonce \<and> test_reject_truncated
   \<and> test_decimal_boundaries \<and> test_qrl_format \<and> test_fee_product"
  by (intro conjI keccak256_kat_passes shake128_kat_passes shake256_kat_passes incremental_absorb_passes
      checksum_known_answers_pass checksum_shape_passes checksum_sensitive_passes checksum_small_buffer_passes bip32_path_passes
      decode_valid_passes contract_creation_passes reject_noncanonical_passes reject_20byte_passes reject_legacy_passes
      reject_bad_descriptor_passes reject_nonempty_extra_params_passes reject_wrong_type_passes reject_overflow_passes
      reject_oversized_nonce_passes reject_truncated_passes decimal_boundaries_passes qrl_format_passes fee_product_passes)

end
