(* ===== verification/Spec2Isabelle.thy ===== *)
theory Spec2Isabelle
  imports Session Unused Fips204_Sign Review_Buffer Unit_Tests
begin

text \<open>
  Verification of the QRL v2 application for Ledger devices.

  \<^bold>\<open>The program.\<close>  The application keeps one request at a time.  The host sends commands; \<open>app_main\<close> parses and dispatches them (\<open>apdu/\<close>,
  \<open>handler/\<close>).  To sign, the host sends a derivation path, then the chunks of an RLP-encoded transaction; after
  the last chunk the application hashes it (\<open>keccak256.c\<close>), decodes it (\<open>rlp_decode.c\<close>), derives the address of the
  path (\<open>address.c\<close>, which runs ML-DSA-87 key generation) and starts a review of the formatted fields
  (\<open>ui/tx_format.c\<close>, \<open>ui/nbgl_display_transaction.c\<close>).  When the user confirms, \<open>ui/action/validate.c\<close> signs the hash with
  ML-DSA-87 (\<open>mldsa87/sign.c\<close>, whose intermediate values live in the non-volatile \<open>N_storage\<close>), verifies the signature, wipes
  the secrets and sends the first of 18 chunks of the signature.

  \<^bold>\<open>Theories.\<close>
  \<^item> \<open>Prelude\<close>: bytes, words, writes into arrays, big-endian numbers, chunks, and the locale of block encodings.
  \<^item> \<open>Keccak\<close>: \<open>keccakf.c\<close>, \<open>shake128.c\<close>, \<open>shake256.c\<close>, \<open>keccak256.c\<close>.  The permutation is that of FIPS 202; the three incremental
    sponges refine the sponge construction, whatever the pieces in which the input arrives, and never leave their state.
  \<^item> \<open>Rounding\<close>: \<open>reduce.c\<close>, \<open>rounding.c\<close>, with \<open>int32_t\<close> and \<open>int64_t\<close> arithmetic.  The functions are those of FIPS 204, and the hint recovers the high bits.
  \<^item> \<open>NTT\<close>, \<open>NTT_Ring\<close>: \<open>ntt.c\<close> loop by loop, without overflow; \<open>ntt\<close> evaluates at the roots of \<open>X^256 + 1\<close> and the two transforms are inverse up to the Montgomery factor.
  \<^item> \<open>Packing\<close>, \<open>Poly\<close>, \<open>Polyvec\<close>: \<open>poly.c\<close> and \<open>polyvec.c\<close>.  The bit packings are bijections, the norm check decides the norm, and the transforms multiply modulo \<open>X^256 + 1\<close> and \<open>q\<close>.
  \<^item> \<open>Sampling\<close>: the samplers of \<open>poly.c\<close> and \<open>sign.c\<close>.  A sampler returns exactly if the stream offers enough values, and the challenge is \<open>SampleInBall\<close>.
  \<^item> \<open>Sign\<close>: \<open>sign.c\<close> and \<open>mldsa87.c\<close> on the record \<open>nvm\<close>, the contents of \<open>internal_storage_t\<close>.
  \<^item> \<open>Sig_Codec\<close>, \<open>Sign_Verify\<close>, \<open>Sign_Correct\<close>, \<open>Sign_State\<close>: the signature format is a bijection on accepted encodings; a signature the
    signer returns is accepted by the verifier; the rejection loop ends, pass by pass; every operation keeps the storage well formed.
  \<^item> \<open>Rlp\<close>: \<open>rlp_decode.c\<close>.  The decoder never reads outside the buffer, accepts every well-formed transaction with
    its fields, and keeps the layout of the result; what it accepts beyond that is stated as well.
  \<^item> \<open>Tx_Format\<close>, \<open>Address\<close>: \<open>ui/tx_format.c\<close>, \<open>address_format.c\<close>, \<open>address.c\<close>.  Texts determine the amounts and addresses they show.
  \<^item> \<open>Device\<close>: \<open>app_main.c\<close>, \<open>apdu/dispatcher.c\<close>, \<open>handler/\<close>, \<open>helper/send_response.c\<close>, \<open>ui/\<close>.  The record \<open>device\<close> is \<open>G_context\<close>, \<open>N_storage\<close>, the screen and the
    responses; \<open>step\<close> is the relation of its events.
  \<^item> \<open>Device_Safety\<close>: the invariant of all reachable states, the table of the commands that are served, one response per command in
    every exchange with a host that waits for its responses.
  \<^item> \<open>Device_Signing\<close>: chunks are assembled, a review shows what is signed, only an approval makes a signature, which is valid, and
    the fetched chunks are the signature.  Library theorems record that an approval does not check what was reviewed, should the transport
    deliver commands during a review, and that an earlier signature can still be fetched after the next upload.
  \<^item> \<open>Review\<close>: a decoded transaction can always be displayed, its texts are the exact values of its fields, and the texts determine
    the displayed fields of whatever accepted bytes, the hash if it is displayed, and the bytes of canonically encoded plain transfers.
  \<^item> \<open>Session\<close>: an honest host, one session from the upload to the last chunk.  The end-to-end theorem gives every response of the device, for a
    user who confirms and one who refuses, with a signature of the transaction the review showed, valid in the sense of FIPS 204, if
    signing succeeds; a command returns unless the key generation for its own path does not.
  \<^item> \<open>Tx_Buffer\<close>: \<open>ui/tx_format.c\<close> again, with the buffers of the callers and every write at its position.  The formatters refine those of
    \<open>Tx_Format\<close> and write nothing outside the declared length; the harness \<open>fuzzing/fuzz_tx_format.c\<close> passes on all inputs.
  \<^item> \<open>Review_Buffer\<close>: the static buffers of \<open>ui/nbgl_display_transaction.c\<close>, which every review reuses.  Whatever an earlier review has left in
    them, the texts read from them are those of \<open>Device\<close>, and no write leaves its array.
  \<^item> \<open>Keccak_Bits\<close>: the permutation on lists of bits, equal to \<open>keccakf\<close>, with which the kernel evaluates digests of concrete inputs.
  \<^item> \<open>Unit_Tests\<close>: the programs of \<open>unit-tests/\<close> over the model, with all their assertions; a library theorem shows that all of them pass.  The harness \<open>fuzzing/fuzz_tx_parser.c\<close> never makes the decoder
    read outside its input.
  \<^item> \<open>Fips_Ntt\<close>: \<open>ntt\<close> and \<open>inv_ntt_to_mont\<close> are the transforms of FIPS 204, stated as evaluation at bit-reversed powers of 1753 and
    as the explicit inverse sum.
  \<^item> \<open>Fips204_Spec\<close>: ML-DSA-87 (FIPS 204, algorithms 6 to 8 with the conversions, encodings and samplers they use) written from the standard:
    bit strings, hash streams, and arithmetic in the ring of polynomials modulo \<open>q\<close> and \<open>X^256 + 1\<close>.  It uses no definition that models
    \<open>sign.c\<close>, \<open>poly.c\<close> or \<open>polyvec.c\<close>.  \<open>ExpandA\<close> is a parameter of the scheme: \<open>expand_A\<close> is that of the standard, and \<open>device_A\<close> is
    the same unless an entry rejects more than 24 of its first 280 candidates, where the code skips bytes 840 and 841 of the
    stream (for a random stream this has a probability of about \<open>2^-130\<close>).
  \<^item> \<open>Fips204_Codec\<close>, \<open>Fips204_Samplers\<close>: the packings of \<open>poly.c\<close> and the signature format of \<open>sign.c\<close> are the encodings of the standard; \<open>matrix_entry\<close>,
    \<open>poly_uniform_eta\<close>, the mask sampler and the challenge are its samplers.
  \<^item> \<open>Fips204\<close>, \<open>Fips204_Sign\<close>: \<open>crypto_sign_keypair\<close>, \<open>crypto_sign_optimized\<close> and \<open>crypto_verify_optimized\<close> compute exactly the functions
    of \<open>Fips204_Spec\<close>.  The code tests the low bits of \<open>w\<close> less \<open>c s2\<close> where the standard takes the low bits of \<open>w - c s2\<close>; the
    same passes are accepted.  No mask of a run is used twice, and the key pair of an address is the one that signs.
  \<^item> \<open>Unused\<close>: \<open>poly_uniform\<close>, \<open>poly_vec_matrix_expand\<close> and \<open>poly_vec_k_pack_w1\<close>, which the application does not call, and \<open>copy_array\<close>.

  \<^bold>\<open>Interfaces.\<close>  The locales state what a client relies on: block encodings (\<open>Prelude\<close>, interpreted on the packings), sponges
  (\<open>Keccak\<close>, on the three hashes), rejection samplers (\<open>Sampling\<close>, on both samplers), and the signing service (\<open>Device_Signing\<close>, interpreted on \<open>crypto_sign_optimized\<close> and \<open>crypto_verify_optimized\<close>).
  The Ledger SDK is not in the repository: its functions are the fields of the record \<open>sdk\<close>, an argument of every definition that
  calls them, and \<open>sdk_ok\<close> names the documented behaviour that some properties need; \<open>sample_sdk\<close> shows that it can hold.

  \<^bold>\<open>Bounds.\<close>  The rejection samplers and \<open>SampleInBall\<close> read an unbounded stream and are partial functions: \<open>None\<close> means that they do not
  return, and the condition for returning is proved.  The signing loop counts its nonce and ends after at most 814 passes.  A
  received transaction has at most 510 bytes, and lengths in the decoder are 32-bit words.

  \<^bold>\<open>Not modelled.\<close>  The SDK, drawing and \<open>PRINTF\<close> (no state of the application); the Python tests of \<open>tests/\<close>, which drive an
  emulator; \<open>crypto_sign_keypair(NULL)\<close>, which nothing calls and which uses a dangling pointer; alignment and wear of the
  flash; timing.  In \<open>Device\<close> a review holds the texts of the moment it starts; by \<open>Review_Buffer\<close> these are the texts that the static buffers hold.
\<close>

end
